(* ===== verification/Prelude.thy ===== *)
theory Prelude
  imports Main "HOL-Library.Word"
begin

text \<open>
  Shared vocabulary of the development.

  \<^item> The machine types of the Rust sources: \<open>u8\<close>, \<open>u16\<close>, \<open>u32\<close> and
    \<open>u64\<close> are words of their width, so that \<open>+\<close> and \<open>*\<close> wrap as the
    release build does (\<^verbatim>\<open>Cargo.toml\<close> does not turn \<^verbatim>\<open>overflow-checks\<close> on);
    \<open>usize\<close> is \<^typ>\<open>nat\<close>, used only for lengths and offsets of buffers
    that exist in memory.
  \<^item> A \<^verbatim>\<open>Result\<close> is a sum (\<^term>\<open>Inl\<close> the error), a panic is \<^term>\<open>None\<close>
    of an option.
  \<^item> A Rust string is its UTF-8 byte sequence; literals are written as HOL strings and turned
    into bytes by \<open>as_bytes\<close>.
  \<^item> Big-endian conversions of the standard library, and the word and list facts that the
    component theories share, collected in the named collections below.
\<close>

unbundle bit_operations_syntax

named_theorems be_simps \<open>big-endian conversions and their values\<close>
named_theorems panic_free \<open>operations that never panic on the inputs the program gives them\<close>
named_theorems codec_simps \<open>decoders applied to encoder output\<close>

type_synonym u8 = "8 word"
type_synonym u16 = "16 word"
type_synonym u32 = "32 word"
type_synonym u64 = "64 word"
type_synonym usize = nat
type_synonym bytes = "u8 list"
type_synonym ('a, 'e) result = "'e + 'a"

section \<open>Results\<close>

definition bindE :: "('a, 'e) result \<Rightarrow> ('a \<Rightarrow> ('b, 'e) result) \<Rightarrow> ('b, 'e) result" where
  "bindE r f = (case r of Inl e \<Rightarrow> Inl e | Inr a \<Rightarrow> f a)"

lemma bindE_simps [simp]: "bindE (Inl e) f = Inl e" "bindE (Inr a) f = f a"
  by (simp_all add: bindE_def)

lemma bindE_eq_Inr: "bindE r f = Inr b \<longleftrightarrow> (\<exists>a. r = Inr a \<and> f a = Inr b)"
  by (cases r) simp_all

lemma bindE_cong [fundef_cong]:
  "r = r' \<Longrightarrow> (\<And>a. r' = Inr a \<Longrightarrow> f a = f' a) \<Longrightarrow> bindE r f = bindE r' f'"
  by (cases r') simp_all

definition ok_or :: "'a option \<Rightarrow> 'e \<Rightarrow> ('a, 'e) result" where
  "ok_or x e = (case x of None \<Rightarrow> Inl e | Some a \<Rightarrow> Inr a)"

lemma ok_or_simps [simp]: "ok_or None e = Inl e" "ok_or (Some a) e = Inr a"
  by (simp_all add: ok_or_def)

lemma ok_or_eq_Inr [simp]: "ok_or x e = Inr a \<longleftrightarrow> x = Some a"
  by (cases x) simp_all

definition map_err :: "('e \<Rightarrow> 'f) \<Rightarrow> ('a, 'e) result \<Rightarrow> ('a, 'f) result" where
  "map_err g r = (case r of Inl e \<Rightarrow> Inl (g e) | Inr a \<Rightarrow> Inr a)"

lemma map_err_simps [simp]: "map_err g (Inl e) = Inl (g e)" "map_err g (Inr a) = Inr a"
  by (simp_all add: map_err_def)

text \<open>\<open>slice.get(i)\<close>: the element, or \<^term>\<open>None\<close> out of range.\<close>

definition get :: "'a list \<Rightarrow> usize \<Rightarrow> 'a option" where
  "get xs i = (if i < length xs then Some (xs ! i) else None)"

lemma get_eq_Some [simp]: "get xs i = Some x \<longleftrightarrow> i < length xs \<and> xs ! i = x"
  by (simp add: get_def)

lemma get_eq_None [simp]: "get xs i = None \<longleftrightarrow> length xs \<le> i"
  by (auto simp: get_def)

lemma get_append1 [simp]: "i < length xs \<Longrightarrow> get (xs @ ys) i = get xs i"
  by (simp add: get_def nth_append)

lemma get_append_length [simp]: "get (xs @ y # ys) (length xs) = Some y"
  by (simp add: get_def)

lemma u8_less_256: "unat (a :: u8) < 256"
  using unsigned_less [where 'a = nat, of a] by simp

section \<open>Strings and bytes\<close>

definition as_bytes :: "string \<Rightarrow> bytes" where
  "as_bytes s = map of_char s"

definition bytes_str :: "bytes \<Rightarrow> string" where
  "bytes_str bs = map (\<lambda>b. char_of (unat b)) bs"

lemma length_as_bytes [simp]: "length (as_bytes s) = length s"
  by (simp add: as_bytes_def)

lemma as_bytes_append [simp]: "as_bytes (s @ t) = as_bytes s @ as_bytes t"
  by (simp add: as_bytes_def)

lemma length_bytes_str [simp]: "length (bytes_str b) = length b"
  by (simp add: bytes_str_def)

lemma of_char_char_of_byte [simp]: "(of_char (char_of (unat (b :: u8)) :: char) :: u8) = b"
proof -
  have "(of_char (char_of (unat b) :: char) :: u8) = of_nat (of_char (char_of (unat b) :: char))"
    by (simp only: of_nat_of_char)
  also have "\<dots> = of_nat (unat b mod 256)"
    by (simp only: of_char_of)
  also have "\<dots> = b"
    using u8_less_256 [of b] by simp
  finally show ?thesis .
qed

lemma as_bytes_bytes_str [simp]: "as_bytes (bytes_str b) = b"
  by (simp add: as_bytes_def bytes_str_def comp_def)

lemma as_bytes_inj [simp]: "as_bytes s = as_bytes t \<longleftrightarrow> s = t"
proof
  assume "as_bytes s = as_bytes t"
  then have "map unat (as_bytes s) = map unat (as_bytes t)" by simp
  moreover have "map unat (as_bytes u) = map of_char u" for u
  proof -
    have "unat (of_char c :: u8) = of_char c" for c :: char
    proof -
      have "unat (of_char c :: u8) = unat (of_nat (of_char c) :: u8)" by (simp only: of_nat_of_char)
      also have "\<dots> = of_char c" using nat_of_char_less_256 [of c] by (simp add: unat_of_nat)
      finally show ?thesis .
    qed
    then show ?thesis by (simp add: as_bytes_def)
  qed
  ultimately have "map (of_char :: char \<Rightarrow> nat) s = map of_char t" by simp
  moreover have "inj (of_char :: char \<Rightarrow> nat)" by (rule inj_of_char)
  ultimately show "s = t" by (metis inj_map_eq_map)
qed simp

section \<open>Big-endian conversions\<close>

text \<open>\<open>u16::from_be_bytes\<close> and \<open>u16::to_be_bytes\<close>.\<close>

definition u16_from_be :: "u8 \<Rightarrow> u8 \<Rightarrow> u16" where
  "u16_from_be a b = push_bit 8 (ucast a) OR ucast b"

definition u16_to_be :: "u16 \<Rightarrow> bytes" where
  "u16_to_be w = [ucast (drop_bit 8 w), ucast w]"

definition u32_to_be :: "u32 \<Rightarrow> bytes" where
  "u32_to_be w = [ucast (drop_bit 24 w), ucast (drop_bit 16 w), ucast (drop_bit 8 w), ucast w]"

definition u64_to_be :: "u64 \<Rightarrow> bytes" where
  "u64_to_be w = [ucast (drop_bit 56 w), ucast (drop_bit 48 w), ucast (drop_bit 40 w),
     ucast (drop_bit 32 w), ucast (drop_bit 24 w), ucast (drop_bit 16 w), ucast (drop_bit 8 w),
     ucast w]"

lemma length_to_be [simp]:
  "length (u16_to_be v) = 2" "length (u32_to_be w) = 4" "length (u64_to_be x) = 8"
  by (simp_all add: u16_to_be_def u32_to_be_def u64_to_be_def)

lemma or_eq_add_disjoint: "(a AND b :: nat) = 0 \<Longrightarrow> a OR b = a + b"
  by (simp add: disjunctive_add_eq_or)

lemma push_or_add_nat:
  assumes "(b :: nat) < 2 ^ n"
  shows "push_bit n a OR b = a * 2 ^ n + b"
proof -
  have "push_bit n a AND b = 0"
  proof (rule bit_eqI)
    fix k
    show "bit (push_bit n a AND b) k \<longleftrightarrow> bit (0 :: nat) k"
    proof (cases "n \<le> k")
      case True
      with assms have "b < 2 ^ k"
        by (meson order_less_le_trans one_le_numeral power_increasing)
      then have "\<not> bit b k" by (simp add: bit_iff_odd)
      then show ?thesis by (simp add: bit_and_iff)
    next
      case False
      then show ?thesis by (simp add: bit_and_iff bit_push_bit_iff)
    qed
  qed
  then show ?thesis
    by (simp add: or_eq_add_disjoint push_bit_eq_mult)
qed

lemma unat_u16_from_be [be_simps]: "unat (u16_from_be a b) = 256 * unat a + unat b"
proof -
  have "unat (push_bit 8 (ucast a) :: u16) = push_bit 8 (unat a)"
    using u8_less_256 [of a]
    by (simp only: unsigned_push_bit_eq unsigned_ucast_eq) (simp add: take_bit_nat_eq_self push_bit_eq_mult)
  moreover have "unat (ucast b :: u16) = unat b"
    using u8_less_256 [of b] by (simp add: unsigned_ucast_eq take_bit_eq_mod)
  ultimately have "unat (u16_from_be a b) = push_bit 8 (unat a) OR unat b"
    by (simp add: u16_from_be_def unsigned_or_eq)
  also have "\<dots> = unat a * 2 ^ 8 + unat b"
    by (rule push_or_add_nat) (use u8_less_256 [of b] in simp)
  finally show ?thesis by simp
qed

lemma u16_from_be_to_be [be_simps]:
  "u16_from_be (ucast (drop_bit 8 w)) (ucast w) = w"
  by (rule bit_eqI)
    (auto simp: u16_from_be_def bit_simps not_less less_diff_conv2 dest: bit_imp_le_length)

section \<open>Masks and single bits\<close>

lemma and_high_mask_eq_0: "(b :: 'a :: len word) AND NOT (mask n) = 0 \<longleftrightarrow> unat b < 2 ^ n"
proof -
  have "b AND NOT (mask n) = 0 \<longleftrightarrow> drop_bit n b = 0"
  proof -
    have "bit (b AND NOT (mask n)) (n + k) \<longleftrightarrow> bit (drop_bit n b) k" for k
      by (auto simp: bit_simps dest: bit_imp_le_length)
    moreover have "\<not> bit (b AND NOT (mask n)) k" if "k < n" for k
      using that by (auto simp: bit_simps dest: bit_imp_le_length)
    ultimately show ?thesis
      by (metis bit_0_eq bit_eqI le_add_diff_inverse not_less bot_apply bot_bool_def)
  qed
  also have "\<dots> \<longleftrightarrow> unat (drop_bit n b) = 0"
    by (simp add: unat_eq_0)
  also have "\<dots> \<longleftrightarrow> unat b div 2 ^ n = 0"
    by (simp only: unat_drop_bit_eq) (simp only: drop_bit_eq_div)
  also have "\<dots> \<longleftrightarrow> unat b < 2 ^ n"
    by (simp add: div_eq_0_iff)
  finally show ?thesis .
qed

lemma and_bit_eq_0: "(w :: 'a :: len word) AND 2 ^ n = 0 \<longleftrightarrow> \<not> bit w n"
  by (rule and_exp_eq_0_iff_not_bit)

lemma bit_u16_from_be: "bit (u16_from_be a b) n \<longleftrightarrow> (if n < 8 then bit b n else bit a (n - 8))"
  by (auto simp: u16_from_be_def bit_simps dest: bit_imp_le_length)

text \<open>A shifted word or-ed with a short one is their sum: the step of every big-endian reader.\<close>

lemma unat_push_or:
  fixes a b :: "'a :: len word"
  assumes "unat b < 2 ^ n" and "unat a * 2 ^ n < 2 ^ LENGTH('a)"
  shows "unat (push_bit n a OR b) = unat a * 2 ^ n + unat b"
proof -
  have "unat (push_bit n a) = push_bit n (unat a)"
    using assms(2) by (simp only: unsigned_push_bit_eq) (simp add: take_bit_nat_eq_self push_bit_eq_mult)
  then show ?thesis
    using push_or_add_nat [OF assms(1), of "unat a"] by (simp add: unsigned_or_eq)
qed

lemma unat_of_nat_u64: "n < 2 ^ 64 \<Longrightarrow> unat (of_nat n :: u64) = n"
  by (simp add: unat_of_nat)

lemma int_unat: "int (unat w) = uint w"
  by simp

lemma int_div_less: "(a :: int) < b * c \<Longrightarrow> 0 < c \<Longrightarrow> a div c < b"
proof (rule ccontr)
  assume *: "a < b * c" "0 < c" and "\<not> a div c < b"
  then have "b * c \<le> a div c * c" by (simp add: mult_right_mono)
  also have "\<dots> \<le> a" using div_mult_mod_eq [of a c] pos_mod_sign [OF *(2), of a] by linarith
  finally show False using * by simp
qed

lemma unat_drop_mask:
  "unat (drop_bit n w AND mask m :: 'a :: len word) = unat w div 2 ^ n mod 2 ^ m"
  unfolding take_bit_eq_mask [symmetric] unsigned_take_bit_eq unat_drop_bit_eq
  by (simp only: drop_bit_eq_div take_bit_eq_mod)

section \<open>Lists\<close>

lemma take_list_update_ge [simp]: "n \<le> i \<Longrightarrow> take n (xs[i := x]) = take n xs"
  by simp

lemma drop_take_nth: "i < n \<Longrightarrow> n \<le> length xs \<Longrightarrow> take n xs ! i = xs ! i"
  by simp

text \<open>\<open>iter().position(p)\<close>: the index of the first element that satisfies \<open>p\<close>.\<close>

fun position :: "('a \<Rightarrow> bool) \<Rightarrow> 'a list \<Rightarrow> usize option" where
  "position p [] = None"
| "position p (x # xs) = (if p x then Some 0 else map_option Suc (position p xs))"

lemma position_eq_None: "position p xs = None \<longleftrightarrow> (\<forall>x \<in> set xs. \<not> p x)"
  by (induction xs) auto

lemma position_eq_Some:
  "position p xs = Some i \<longleftrightarrow> i < length xs \<and> p (xs ! i) \<and> (\<forall>j < i. \<not> p (xs ! j))"
proof (induction xs arbitrary: i)
  case Nil
  then show ?case by simp
next
  case (Cons x xs)
  show ?case
  proof (cases i)
    case 0
    then show ?thesis by auto
  next
    case (Suc k)
    with Cons show ?thesis by (auto simp: less_Suc_eq_0_disj)
  qed
qed

lemma position_less: "position p xs = Some i \<Longrightarrow> i < length xs"
  by (simp add: position_eq_Some)

lemma position_distinct: "distinct xs \<Longrightarrow> i < length xs \<Longrightarrow> position (\<lambda>x. x = xs ! i) xs = Some i"
  by (auto simp: position_eq_Some nth_eq_iff_index_eq)

lemma position_member: "x \<in> set xs \<Longrightarrow> \<exists>i. position (\<lambda>y. y = x) xs = Some i"
  by (cases "position (\<lambda>y. y = x) xs") (auto simp: position_eq_None)

section \<open>UTF-8 validity\<close>

text \<open>
  What \<open>std::str::from_utf8\<close> accepts: the well-formed byte sequences of the Unicode
  standard (table 3-7).
\<close>

definition cont_byte :: "u8 \<Rightarrow> bool" where
  "cont_byte b \<longleftrightarrow> 0x80 \<le> b \<and> b \<le> 0xBF"

fun utf8_valid :: "bytes \<Rightarrow> bool" where
  "utf8_valid [] = True"
| "utf8_valid (a # r) =
    (if a \<le> 0x7F then utf8_valid r
     else if 0xC2 \<le> a \<and> a \<le> 0xDF then
       (case r of b # r' \<Rightarrow> cont_byte b \<and> utf8_valid r' | _ \<Rightarrow> False)
     else if 0xE0 \<le> a \<and> a \<le> 0xEF then
       (case r of b # c # r' \<Rightarrow>
          cont_byte b \<and> cont_byte c \<and> (a = 0xE0 \<longrightarrow> 0xA0 \<le> b) \<and> (a = 0xED \<longrightarrow> b \<le> 0x9F)
            \<and> utf8_valid r' | _ \<Rightarrow> False)
     else if 0xF0 \<le> a \<and> a \<le> 0xF4 then
       (case r of b # c # d # r' \<Rightarrow>
          cont_byte b \<and> cont_byte c \<and> cont_byte d \<and> (a = 0xF0 \<longrightarrow> 0x90 \<le> b)
            \<and> (a = 0xF4 \<longrightarrow> b \<le> 0x8F) \<and> utf8_valid r' | _ \<Rightarrow> False)
     else False)"

lemma utf8_valid_ascii: "\<forall>b \<in> set bs. b \<le> 0x7F \<Longrightarrow> utf8_valid bs"
  by (induction bs) simp_all

section \<open>Decimal numbers\<close>

text \<open>
  \<open>str::parse\<close> on an unsigned type with \<open>bound\<close> values: an optional plus sign, then at least one
  digit, refused as soon as the value leaves the type.
\<close>

fun digits_val :: "nat \<Rightarrow> bytes \<Rightarrow> nat \<Rightarrow> nat option" where
  "digits_val bound [] acc = Some acc"
| "digits_val bound (b # bs) acc =
    (if 48 \<le> b \<and> b \<le> 57 then
       let v = acc * 10 + (unat b - 48) in if v < bound then digits_val bound bs v else None
     else None)"

definition parse_uint :: "nat \<Rightarrow> bytes \<Rightarrow> nat option" where
  "parse_uint bound s =
    (case s of
       [] \<Rightarrow> None
     | b # r \<Rightarrow> if b = 43 \<and> r \<noteq> [] then digits_val bound r 0 else digits_val bound s 0)"

lemma digits_val_bound: "digits_val bound bs acc = Some v \<Longrightarrow> acc < bound \<Longrightarrow> v < bound"
  by (induction bs arbitrary: acc) (auto simp: Let_def split: if_splits)

lemma parse_uint_bound: "parse_uint bound s = Some v \<Longrightarrow> v < bound \<or> bound = 0"
  by (cases "bound = 0") (auto simp: parse_uint_def Let_def dest: digits_val_bound split: list.splits if_splits)

text \<open>\<open>parse::<u16>()\<close>.\<close>

definition parse_u16 :: "bytes \<Rightarrow> u16 option" where
  "parse_u16 s = map_option of_nat (parse_uint 65536 s)"

text \<open>\<open>u32::saturating_add\<close>.\<close>

definition saturating_add :: "u32 \<Rightarrow> u32 \<Rightarrow> u32" where
  "saturating_add a b = (if unat a + unat b < 2 ^ 32 then a + b else - 1)"

section \<open>Time\<close>

text \<open>
  \<open>Instant\<close> and \<open>Duration\<close> are integers of nanoseconds; the origin of the clock does not matter. The
  readings are arguments of the operations that take them, and sums stay in the range of the types.
\<close>

type_synonym instant = int
type_synonym duration = int

definition from_secs :: "nat \<Rightarrow> duration" where
  "from_secs n = int n * 1000000000"

definition from_millis :: "nat \<Rightarrow> duration" where
  "from_millis n = int n * 1000000"

lemma from_secs_mono [simp]: "from_secs m \<le> from_secs n \<longleftrightarrow> m \<le> n" "from_secs m < from_secs n \<longleftrightarrow> m < n"
    "0 \<le> from_secs n" "from_secs 0 = 0"
  by (simp_all add: from_secs_def)

definition saturating_duration_since :: "instant \<Rightarrow> instant \<Rightarrow> duration" where
  "saturating_duration_since a b = max 0 (a - b)"

end
