(* ===== verification/Dns.thy ===== *)
theory Dns
  imports Prelude
begin

text \<open>
  DNS wire-format helpers, \<^verbatim>\<open>pkgs/microdoh3/src/dns.rs\<close>: header validation, the scan for the
  end of the question section, SERVFAIL synthesis and EDNS0 padding. A message is its byte list.
  \<open>build_servfail\<close> and \<open>pad_query\<close> mutate a buffer in the source; here they return the new
  buffer. \<open>pad_query\<close> indexes the header without a length check, so its model returns
  \<^term>\<open>None\<close> where the code panics.
\<close>

section \<open>Constants and errors\<close>

definition MIN_DNS_LEN :: usize where "MIN_DNS_LEN = 12"

definition EDNS0_OPT_PAD :: u16 where "EDNS0_OPT_PAD = 12"

definition EDNS0_HEADER_LEN :: usize where "EDNS0_HEADER_LEN = 11"

datatype dns_error =
    TooShort usize
  | NotAQuery
  | NoQuestion u16
  | TooManyQuestions u16
  | MalformedQuestion

section \<open>Validation\<close>

definition validate_query :: "bytes \<Rightarrow> (unit, dns_error) result" where
  "validate_query buf =
    (if length buf < MIN_DNS_LEN then Inl (TooShort (length buf))
     else
       let flags = u16_from_be (buf ! 2) (buf ! 3) in
       if flags AND 0x8000 \<noteq> 0 then Inl NotAQuery
       else
         let qdcount = u16_from_be (buf ! 4) (buf ! 5) in
         if qdcount = 0 then Inl (NoQuestion qdcount)
         else if qdcount > 1 then Inl (TooManyQuestions qdcount)
         else Inr ())"

text \<open>The loop of \<open>question_end\<close>, with \<open>pos\<close> its only variable.\<close>

function question_end_loop :: "bytes \<Rightarrow> usize \<Rightarrow> (usize, dns_error) result" where
  "question_end_loop buf pos =
    (case get buf pos of
       None \<Rightarrow> Inl MalformedQuestion
     | Some len \<Rightarrow>
         if len = 0 then Inr (pos + 1 + 4)
         else if len AND 0xC0 \<noteq> 0 then Inl MalformedQuestion
         else
           let pos' = pos + (1 + unat len) in
           if pos' > length buf then Inl MalformedQuestion
           else question_end_loop buf pos')"
  by pat_completeness auto
termination
  by (relation "measure (\<lambda>(buf, pos). length buf - pos)") auto

declare question_end_loop.simps [simp del]

definition question_end :: "bytes \<Rightarrow> (usize, dns_error) result" where
  "question_end buf = question_end_loop buf MIN_DNS_LEN"

section \<open>SERVFAIL synthesis\<close>

text \<open>The header rewriting of lines 99 to 103, on the copied prefix.\<close>

definition servfail_header :: "bytes \<Rightarrow> bytes" where
  "servfail_header out =
    (let out = out[2 := out ! 2 OR 0x80];
         out = out[3 := (out ! 3 AND 0x70) OR 0x80 OR 0x02]
     in out[6 := 0, 7 := 0, 8 := 0, 9 := 0, 10 := 0, 11 := 0])"

text \<open>The result is the returned flag and the buffer \<open>out\<close> after the call.\<close>

definition build_servfail :: "bytes \<Rightarrow> bytes \<Rightarrow> bool \<times> bytes" where
  "build_servfail query out =
    (case (case question_end query of
             Inr e \<Rightarrow> if e \<le> length query then Some e
                      else if length query < MIN_DNS_LEN then None else Some MIN_DNS_LEN
           | Inl _ \<Rightarrow> if length query < MIN_DNS_LEN then None else Some MIN_DNS_LEN) of
       None \<Rightarrow> (False, out)
     | Some end \<Rightarrow> (True, servfail_header (take end query)))"

section \<open>EDNS0 padding\<close>

text \<open>Whether the last eleven bytes look like an OPT record with empty RDATA (lines 118 to 123).\<close>

definition has_edns0 :: "bytes \<Rightarrow> bool" where
  "has_edns0 buf \<longleftrightarrow>
     length buf \<ge> EDNS0_HEADER_LEN + 4
     \<and> buf ! (length buf - EDNS0_HEADER_LEN) = 0
     \<and> u16_from_be (buf ! (length buf - EDNS0_HEADER_LEN + 1))
          (buf ! (length buf - EDNS0_HEADER_LEN + 2)) = 41"

definition pad_query :: "bytes \<Rightarrow> usize \<Rightarrow> (bool \<times> bytes) option" where
  "pad_query buf block_size =
    (if block_size = 0 \<or> length buf \<ge> block_size then Some (False, buf)
     else
       let overhead = (if has_edns0 buf then 4 else 11 + 4);
           current = length buf + overhead
       in
       if current \<ge> block_size then Some (False, buf)
       else
         let pad_len = block_size - current in
         if has_edns0 buf then
           let rdlen_offset = length buf - 2;
               old_rdlen = u16_from_be (buf ! rdlen_offset) (buf ! (rdlen_offset + 1));
               new_rdlen = old_rdlen + 4 + of_nat pad_len;
               buf = buf[rdlen_offset := ucast (drop_bit 8 new_rdlen)];
               buf = buf[rdlen_offset + 1 := ucast (new_rdlen AND 0xFF)];
               buf = buf @ u16_to_be EDNS0_OPT_PAD;
               buf = buf @ u16_to_be (of_nat pad_len)
           in Some (True, buf @ replicate pad_len 0)
         else if length buf < MIN_DNS_LEN then None
         else
           let arcount = u16_from_be (buf ! 10) (buf ! 11);
               new_arcount = arcount + 1;
               buf = buf[10 := ucast (drop_bit 8 new_arcount)];
               buf = buf[11 := ucast (new_arcount AND 0xFF)];
               buf = buf @ [0];
               buf = buf @ u16_to_be 41;
               buf = buf @ u16_to_be 4096;
               buf = buf @ [0, 0, 0, 0];
               rdlen = 4 + of_nat pad_len;
               buf = buf @ u16_to_be rdlen;
               buf = buf @ u16_to_be EDNS0_OPT_PAD;
               buf = buf @ u16_to_be (of_nat pad_len)
           in Some (True, buf @ replicate pad_len 0))"

section \<open>The question section\<close>

text \<open>
  Reference encoding of an uncompressed QNAME (RFC 1035, section 3.1): each label preceded by its
  length, closed by the root label. The scan is compared with it below.
\<close>

definition label_ok :: "bytes \<Rightarrow> bool" where
  "label_ok l \<longleftrightarrow> 1 \<le> length l \<and> length l \<le> 63"

fun encode_qname :: "bytes list \<Rightarrow> bytes" where
  "encode_qname [] = [0]"
| "encode_qname (l # ls) = of_nat (length l) # l @ encode_qname ls"

lemma label_byte_iff: "(b :: u8) AND 0xC0 = 0 \<longleftrightarrow> unat b < 64"
proof -
  have "(0xC0 :: u8) = NOT (mask 6)" by (simp add: mask_eq_exp_minus_1)
  then show ?thesis using and_high_mask_eq_0 [of b 6] by simp
qed

lemma unat_label_length: "label_ok l \<Longrightarrow> unat (of_nat (length l) :: u8) = length l"
  by (simp add: label_ok_def unat_of_nat)

lemma question_end_loop_encode:
  assumes "list_all label_ok ls" and "length pre = pos"
  shows "question_end_loop (pre @ encode_qname ls @ rest) pos
    = Inr (pos + length (encode_qname ls) + 4)"
  using assms
proof (induction ls arbitrary: pre pos)
  case Nil
  then show ?case
    by (subst question_end_loop.simps) (auto simp: get_def nth_append)
next
  case (Cons l ls)
  let ?b = "of_nat (length l) :: u8"
  let ?buf = "pre @ encode_qname (l # ls) @ rest"
  from Cons.prems have l: "label_ok l" by simp
  then have u: "unat ?b = length l" by (rule unat_label_length)
  with l have nz: "?b \<noteq> 0" by (auto simp: label_ok_def)
  from l u have small: "?b AND 0xC0 = 0" by (simp add: label_ok_def label_byte_iff)
  have "question_end_loop ?buf pos = question_end_loop ?buf (pos + (1 + length l))"
    using Cons.prems nz small u by (subst question_end_loop.simps) (simp add: get_def nth_append)
  also have "?buf = (pre @ ?b # l) @ encode_qname ls @ rest" by simp
  also have "question_end_loop \<dots> (pos + (1 + length l))
    = Inr (pos + (1 + length l) + length (encode_qname ls) + 4)"
    using Cons.prems by (intro Cons.IH) auto
  finally show ?case by simp
qed

lemma question_end_loop_sound:
  assumes "question_end_loop buf pos = Inr e" and "pos \<le> length buf"
  shows "\<exists>ls rest. list_all label_ok ls \<and> drop pos buf = encode_qname ls @ rest
    \<and> e = pos + length (encode_qname ls) + 4"
  using assms
proof (induction buf pos rule: question_end_loop.induct)
  case (1 buf pos)
  from 1 obtain b where b: "get buf pos = Some b"
    by (subst (asm) (2) question_end_loop.simps) (auto split: option.splits)
  then have dr: "drop pos buf = b # drop (Suc pos) buf"
    using Cons_nth_drop_Suc [of pos buf] by simp
  show ?case
  proof (cases "b = 0")
    case True
    with 1 b dr show ?thesis
      by (subst (asm) (2) question_end_loop.simps) (rule exI [of _ "[]"], rule exI [of _ "drop (Suc pos) buf"], auto)
  next
    case False
    let ?pos = "pos + (1 + unat b)"
    from 1(2) b False have c: "b AND 0xC0 = 0" and le: "?pos \<le> length buf"
      and rec: "question_end_loop buf ?pos = Inr e"
      by (subst (asm) question_end_loop.simps; auto simp: Let_def split: if_splits)+
    from 1(1) [OF b False _ refl] c le rec obtain ls rest where
      ls: "list_all label_ok ls" "drop ?pos buf = encode_qname ls @ rest"
        "e = ?pos + length (encode_qname ls) + 4" by auto
    let ?l = "take (unat b) (drop (Suc pos) buf)"
    have len: "length ?l = unat b" using le by simp
    have "label_ok ?l"
      using False c len by (simp add: label_ok_def label_byte_iff unat_gt_0 Suc_le_eq)
    moreover have "drop pos buf = encode_qname (?l # ls) @ rest"
    proof -
      have "drop (Suc pos) buf = ?l @ drop ?pos buf"
        by (metis add.commute add_Suc append_take_drop_id drop_drop plus_1_eq_Suc)
      with dr ls(2) len show ?thesis by simp
    qed
    ultimately show ?thesis
      using ls len by (intro exI [of _ "?l # ls"] exI [of _ rest]) simp
  qed
qed

text \<open>
  \<open>question_end\<close> accepts exactly the messages whose question section starts, right after
  the 12-byte header, with a well-formed uncompressed QNAME (labels of 1 to 63 bytes closed by the
  root label), and then returns the offset four bytes (QTYPE and QCLASS) past it. Compression
  pointers, reserved label types and truncated names are exactly what it rejects.
\<close>

lemma question_end_iff:
  "question_end buf = Inr e \<longleftrightarrow>
    (\<exists>hdr ls rest. length hdr = 12 \<and> list_all label_ok ls \<and> buf = hdr @ encode_qname ls @ rest
      \<and> e = 12 + length (encode_qname ls) + 4)"
proof
  assume e: "question_end buf = Inr e"
  then have "12 < length buf"
    by (subst (asm) question_end_def, subst (asm) question_end_loop.simps)
      (auto simp: MIN_DNS_LEN_def split: option.splits)
  with e question_end_loop_sound [of buf 12 e] obtain ls rest where
    "list_all label_ok ls" "drop 12 buf = encode_qname ls @ rest"
    "e = 12 + length (encode_qname ls) + 4"
    by (auto simp: question_end_def MIN_DNS_LEN_def)
  moreover from this have "buf = take 12 buf @ encode_qname ls @ rest"
    by (metis append_take_drop_id)
  ultimately show "\<exists>hdr ls rest. length hdr = 12 \<and> list_all label_ok ls
      \<and> buf = hdr @ encode_qname ls @ rest \<and> e = 12 + length (encode_qname ls) + 4"
    using \<open>12 < length buf\<close> by (intro exI [of _ "take 12 buf"]) auto
next
  assume "\<exists>hdr ls rest. length hdr = 12 \<and> list_all label_ok ls
      \<and> buf = hdr @ encode_qname ls @ rest \<and> e = 12 + length (encode_qname ls) + 4"
  then show "question_end buf = Inr e"
    by (auto simp: question_end_def MIN_DNS_LEN_def question_end_loop_encode)
qed

section \<open>Validated queries and SERVFAIL replies\<close>

lemma qr_flag_iff: "u16_from_be a b AND 0x8000 = 0 \<longleftrightarrow> \<not> bit a 7"
  using and_bit_eq_0 [of "u16_from_be a b" 15] by (simp add: bit_u16_from_be)

lemma u16_from_be_eq_1: "u16_from_be a b = 1 \<longleftrightarrow> a = 0 \<and> b = 1"
proof -
  have "u16_from_be a b = 1 \<longleftrightarrow> 256 * unat a + unat b = 1"
    by (simp add: word_unat_eq_iff be_simps)
  also have "\<dots> \<longleftrightarrow> unat a = 0 \<and> unat b = 1"
    using u8_less_256 [of b] by arith
  finally show ?thesis by (simp add: word_unat_eq_iff)
qed

lemma validate_query_iff:
  "validate_query q = Inr () \<longleftrightarrow>
    12 \<le> length q \<and> \<not> bit (q ! 2) 7 \<and> q ! 4 = 0 \<and> q ! 5 = 1"
proof -
  have "w = 0 \<or> 1 < w \<longleftrightarrow> w \<noteq> 1" for w :: u16
    by unat_arith
  then have "validate_query q = Inr () \<longleftrightarrow>
      12 \<le> length q \<and> \<not> bit (q ! 2) 7 \<and> u16_from_be (q ! 4) (q ! 5) = 1"
    by (simp add: validate_query_def Let_def qr_flag_iff MIN_DNS_LEN_def not_less) (metis not_less)
  then show ?thesis by (simp add: u16_from_be_eq_1)
qed

lemma length_servfail_header [simp]: "length (servfail_header out) = length out"
  by (simp add: servfail_header_def Let_def)

lemma servfail_header_nth:
  assumes "12 \<le> length out"
  shows "servfail_header out ! i =
    (if i = 2 then out ! 2 OR 0x80
     else if i = 3 then (out ! 3 AND 0x70) OR 0x80 OR 0x02
     else if 6 \<le> i \<and> i < 12 then 0 else out ! i)"
  using assms by (auto simp: servfail_header_def Let_def nth_list_update not_less)

lemma servfail_header_drop: "drop 12 (servfail_header out) = drop 12 out"
  by (simp add: servfail_header_def Let_def drop_update_swap)

lemma servfail_header_take2: "take 2 (servfail_header out) = take 2 out"
  by (simp add: servfail_header_def Let_def)

text \<open>The length of the echoed question: complete questions only.\<close>

definition echoed_question :: "bytes \<Rightarrow> bytes" where
  "echoed_question q =
    (case question_end q of
       Inr e \<Rightarrow> if e \<le> length q then take (e - 12) (drop 12 q) else []
     | Inl _ \<Rightarrow> [])"

lemma question_end_ge: "question_end q = Inr e \<Longrightarrow> 17 \<le> e"
proof -
  have "1 \<le> length (encode_qname ls)" for ls by (cases ls) simp_all
  then show "question_end q = Inr e \<Longrightarrow> 17 \<le> e" by (auto simp: question_end_iff)
qed

lemma build_servfail_eq:
  assumes "12 \<le> length q"
  shows "build_servfail q out = (True, servfail_header (take 12 q @ echoed_question q))"
proof (cases "question_end q")
  case (Inl e)
  with assms show ?thesis
    by (simp add: build_servfail_def echoed_question_def MIN_DNS_LEN_def)
next
  case (Inr e)
  show ?thesis
  proof (cases "e \<le> length q")
    case True
    have "take e q = take 12 q @ take (e - 12) (drop 12 q)"
      using question_end_ge [OF Inr] take_add [of 12 "e - 12" q] by simp
    with True Inr show ?thesis
      by (simp add: build_servfail_def echoed_question_def)
  next
    case False
    with assms Inr show ?thesis
      by (simp add: build_servfail_def echoed_question_def MIN_DNS_LEN_def)
  qed
qed



section \<open>Padding\<close>

text \<open>The padding option and the OPT record that carries it (RFC 6891, RFC 7830).\<close>

definition pad_option :: "usize \<Rightarrow> bytes" where
  "pad_option n = u16_to_be EDNS0_OPT_PAD @ u16_to_be (of_nat n) @ replicate n 0"

definition opt_record :: "bytes \<Rightarrow> bytes" where
  "opt_record rdata = [0, 0, 41, 16, 0, 0, 0, 0, 0] @ u16_to_be (of_nat (length rdata)) @ rdata"

lemma length_pad_option [simp]: "length (pad_option n) = 4 + n"
  by (simp add: pad_option_def)

lemma ucast_and_FF: "(ucast (w AND 0xFF :: u16) :: u8) = ucast w"
proof -
  have "w AND 0xFF = take_bit 8 w" using take_bit_eq_mask [of 8 w] by (simp add: mask_eq_exp_minus_1)
  then show ?thesis by (auto intro!: bit_word_eqI simp: bit_simps)
qed

lemma list_update_pair:
  "i + 1 < length xs \<Longrightarrow> xs[i := a, i + 1 := b] = take i xs @ [a, b] @ drop (i + 2) xs"
  by (simp add: upd_conv_take_nth_drop take_Suc_conv_app_nth)

text \<open>What \<open>pad_query\<close> returns when it pads: the two shapes of lines 132 to 157.\<close>

definition padded :: "bytes \<Rightarrow> usize \<Rightarrow> bytes" where
  "padded q n =
    (if has_edns0 q then
       let old = u16_from_be (q ! (length q - 2)) (q ! (length q - 1));
           opt = pad_option (n - (length q + 4))
       in take (length q - 2) q @ u16_to_be (old + of_nat (length opt)) @ opt
     else
       take 10 q @ u16_to_be (u16_from_be (q ! 10) (q ! 11) + 1) @ drop 12 q
         @ opt_record (pad_option (n - (length q + 15))))"

lemma pad_query_eq:
  assumes "12 \<le> length q"
  shows "pad_query q n =
    Some (if length q + (if has_edns0 q then 4 else 15) < n then (True, padded q n) else (False, q))"
proof (cases "length q + (if has_edns0 q then 4 else 15) < n")
  case True
  show ?thesis
  proof (cases "has_edns0 q")
    case e: True
    obtain m where m: "length q = m + 2"
      by (rule that [of "length q - 2"]) (use assms in simp)
    have upd: "q[m := a, Suc m := b] = take m q @ [a, b]" for a b
      using list_update_pair [of m q a b] m by simp
    show ?thesis
      using True e m
      by (simp add: pad_query_def padded_def Let_def ucast_and_FF upd)
        (simp add: pad_option_def u16_to_be_def algebra_simps)
  next
    case e: False
    have upd: "q[10 := a, 11 := b] = take 10 q @ [a, b] @ drop 12 q" for a b
      using list_update_pair [of 10 q a b] assms by simp
    have w: "u16_to_be 41 = [0, 41]" "u16_to_be 4096 = [16, 0]"
      by (simp_all add: u16_to_be_def)
    show ?thesis
      using True e assms
      by (simp add: pad_query_def padded_def Let_def ucast_and_FF upd w opt_record_def MIN_DNS_LEN_def)
        (simp add: pad_option_def u16_to_be_def diff_diff_eq add.commute)
  qed
next
  case False
  then show ?thesis by (auto simp: pad_query_def Let_def)
qed

lemma length_padded:
  assumes "12 \<le> length q" and "length q + (if has_edns0 q then 4 else 15) < n"
  shows "length (padded q n) = n"
  using assms by (simp add: padded_def Let_def opt_record_def split: if_splits)

lemma padded_prefix: "15 \<le> length q \<or> \<not> has_edns0 q \<Longrightarrow> 12 \<le> length q \<Longrightarrow>
    take 10 (padded q n) = take 10 q"
  by (auto simp: padded_def Let_def min_def)

lemma has_edns0_length: "has_edns0 q \<Longrightarrow> 15 \<le> length q"
  by (simp add: has_edns0_def EDNS0_HEADER_LEN_def)

lemma padded_question:
  assumes q: "question_end q = Inr e" and fit: "e \<le> length q - (if has_edns0 q then 11 else 0)"
    and len: "length q + (if has_edns0 q then 4 else 15) < n"
  shows "question_end (padded q n) = Inr e \<and> take (e - 12) (drop 12 (padded q n)) = take (e - 12) (drop 12 q)"
proof -
  from q obtain hdr ls rest where d: "length hdr = 12" "list_all label_ok ls"
    "q = hdr @ encode_qname ls @ rest" "e = 12 + length (encode_qname ls) + 4"
    by (auto simp: question_end_iff)
  with fit have r: "4 \<le> length rest" "has_edns0 q \<Longrightarrow> 15 \<le> length rest" by (auto split: if_splits)
  have tl: "\<exists>hdr' rest'. length hdr' = 12 \<and> padded q n = hdr' @ encode_qname ls @ take 4 rest @ rest'"
  proof (cases "has_edns0 q")
    case True
    with r have "take (length q - 2) q = hdr @ encode_qname ls @ take 4 rest @ take (length rest - 6) (drop 4 rest)"
      unfolding d(3) using take_add [of 4 "length rest - 6" rest] by simp
    with True d(1) show ?thesis by (auto simp: padded_def Let_def)
  next
    case False
    have "drop 12 q = encode_qname ls @ take 4 rest @ drop 4 rest"
      using d(1) by (simp add: d(3))
    moreover have "length (take 10 q @ u16_to_be (u16_from_be (q ! 10) (q ! 11) + 1)) = 12"
      using d(1) by (simp add: d(3))
    ultimately show ?thesis using False unfolding padded_def
      by (intro exI [of _ "take 10 q @ u16_to_be (u16_from_be (q ! 10) (q ! 11) + 1)"]
          exI [of _ "drop 4 rest @ opt_record (pad_option (n - (length q + 15)))"]) simp
  qed
  then obtain hdr' rest' where p: "length hdr' = 12" "padded q n = hdr' @ encode_qname ls @ take 4 rest @ rest'"
    by blast
  have "question_end (padded q n) = Inr e"
    using p d by (auto simp: question_end_iff)
  moreover have "take (e - 12) (drop 12 (padded q n)) = take (e - 12) (drop 12 q)"
    using p(1) d(1,4) r(1) unfolding p(2) by (simp add: d(3))
  ultimately show ?thesis ..
qed

lemma padded_valid:
  assumes "validate_query q = Inr ()" "length q + (if has_edns0 q then 4 else 15) < n"
  shows "take 10 (padded q n) = take 10 q" "length (padded q n) = n" "validate_query (padded q n) = Inr ()"
proof -
  from assms have len: "12 \<le> length q" by (simp add: validate_query_iff)
  show pre: "take 10 (padded q n) = take 10 q"
    using len has_edns0_length by (intro padded_prefix) blast+
  show len': "length (padded q n) = n" using len assms(2) by (rule length_padded)
  have nth: "padded q n ! i = q ! i" if "i < 10" for i
    using pre that by (metis nth_take)
  show "validate_query (padded q n) = Inr ()"
    using assms len' len by (auto simp: validate_query_iff nth split: if_splits)
qed



text \<open>
  A query that already carries an OPT record with options (here a DNS cookie, ARCOUNT 1) is not
  recognised as such, because only an OPT record with empty RDATA can end the message eleven bytes
  after its root name: padding counts a second OPT record into ARCOUNT and appends it, although
  RFC 6891 allows one OPT record per message.
\<close>

lemma pad_query_second_opt:
  "let q = [0xAB, 0xCD, 1, 0, 0, 1, 0, 0, 0, 0, 0, 1] @ [1, 120, 0, 0, 1, 0, 1]
             @ opt_record [0, 10, 0, 8, 7, 7, 7, 7, 7, 7, 7, 7]
   in validate_query q = Inr () \<and>
      pad_query q 128 = Some (True, [0xAB, 0xCD, 1, 0, 0, 1, 0, 0, 0, 0, 0, 2] @ [1, 120, 0, 0, 1, 0, 1]
             @ opt_record [0, 10, 0, 8, 7, 7, 7, 7, 7, 7, 7, 7] @ opt_record (pad_option 71))"
proof -
  let ?h = "[0xAB, 0xCD, 1, 0, 0, 1, 0, 0, 0, 0, 0, 1] @ [1, 120, 0, 0, 1, 0, 1] :: bytes"
  let ?q = "?h @ opt_record [0, 10, 0, 8, 7, 7, 7, 7, 7, 7, 7, 7]"
  have q: "?q = ?h @ [0, 0, 41, 16, 0, 0, 0, 0, 0, 0, 12, 0, 10, 0, 8, 7, 7, 7, 7, 7, 7, 7, 7]"
    by (simp add: opt_record_def u16_to_be_def)
  have v: "validate_query ?q = Inr ()"
    unfolding q by (simp add: validate_query_iff)
  have e: "\<not> has_edns0 ?q"
    unfolding q by (simp add: has_edns0_def EDNS0_HEADER_LEN_def)
  have l: "length ?q = 42" unfolding q by simp
  have "padded ?q 128 = [0xAB, 0xCD, 1, 0, 0, 1, 0, 0, 0, 0, 0, 2] @ [1, 120, 0, 0, 1, 0, 1]
      @ opt_record [0, 10, 0, 8, 7, 7, 7, 7, 7, 7, 7, 7] @ opt_record (pad_option 71)"
    using e l by (simp add: padded_def u16_from_be_def u16_to_be_def)
  with v e l show ?thesis
    by (simp add: pad_query_eq)
qed

end
