(* ===== verification/Base64url.thy ===== *)
theory Base64url
  imports Prelude
begin

text \<open>
  Encode-only base64url without padding, \<^verbatim>\<open>pkgs/microdoh3/src/base64url.rs\<close>. The encoder writes
  into a caller-supplied buffer; a write out of range is the panic \<^term>\<open>None\<close>. The reference
  decoder below (RFC 4648, section 5, no padding) is not code of the program: it states what the
  DoH server does with the \<^verbatim>\<open>dns\<close> parameter.
\<close>

definition ALPHABET :: bytes where
  "ALPHABET = as_bytes ''ABCDEFGHIJKLMNOPQRSTUVWXYZabcdefghijklmnopqrstuvwxyz0123456789-_''"

definition encoded_len :: "usize \<Rightarrow> usize" where
  "encoded_len n = (n div 3) * 4 + (if n mod 3 = 0 then 0 else if n mod 3 = 1 then 2 else 3)"

text \<open>\<open>out[i] = x\<close> on a mutable slice.\<close>

definition store :: "usize \<Rightarrow> u8 \<Rightarrow> bytes \<Rightarrow> bytes option" where
  "store i x out = (if i < length out then Some (out[i := x]) else None)"

definition letter :: "u32 \<Rightarrow> nat \<Rightarrow> u8" where
  "letter n s = ALPHABET ! unat (drop_bit s n AND 63)"

fun encode_loop :: "bytes \<Rightarrow> usize \<Rightarrow> bytes \<Rightarrow> (usize \<times> bytes) option" where
  "encode_loop (a # b # c # rest) p out =
    (let n = push_bit 16 (ucast a) OR push_bit 8 (ucast b) OR ucast c in
     Option.bind (store p (letter n 18) out) (\<lambda>out.
     Option.bind (store (p + 1) (letter n 12) out) (\<lambda>out.
     Option.bind (store (p + 2) (letter n 6) out) (\<lambda>out.
     Option.bind (store (p + 3) (letter n 0) out) (\<lambda>out.
     encode_loop rest (p + 4) out)))))"
| "encode_loop [a] p out =
    (let n = push_bit 16 (ucast a) in
     Option.bind (store p (letter n 18) out) (\<lambda>out.
     Option.bind (store (p + 1) (letter n 12) out) (\<lambda>out.
     Some (p + 2, out))))"
| "encode_loop [a, b] p out =
    (let n = push_bit 16 (ucast a) OR push_bit 8 (ucast b) in
     Option.bind (store p (letter n 18) out) (\<lambda>out.
     Option.bind (store (p + 1) (letter n 12) out) (\<lambda>out.
     Option.bind (store (p + 2) (letter n 6) out) (\<lambda>out.
     Some (p + 3, out)))))"
| "encode_loop [] p out = Some (p, out)"

definition encode_into :: "bytes \<Rightarrow> bytes \<Rightarrow> (usize \<times> bytes) option" where
  "encode_into input out = encode_loop input 0 out"

section \<open>The buffer\<close>

text \<open>The letters written for one input, and where they end up.\<close>

fun letters :: "bytes \<Rightarrow> bytes" where
  "letters (a # b # c # rest) =
    (let n = push_bit 16 (ucast a) OR push_bit 8 (ucast b) OR ucast c in
     [letter n 18, letter n 12, letter n 6, letter n 0] @ letters rest)"
| "letters [a] = (let n = push_bit 16 (ucast a) in [letter n 18, letter n 12])"
| "letters [a, b] =
    (let n = push_bit 16 (ucast a) OR push_bit 8 (ucast b) in [letter n 18, letter n 12, letter n 6])"
| "letters [] = []"

lemma encoded_len_step: "encoded_len (Suc (Suc (Suc n))) = encoded_len n + 4"
proof -
  have "Suc (Suc (Suc n)) = n + 3" by simp
  then show ?thesis by (simp only: encoded_len_def div_add_self2 mod_add_self2) simp
qed

lemma length_letters: "length (letters input) = encoded_len (length input)"
  by (induction input rule: letters.induct) (simp_all add: Let_def encoded_len_step encoded_len_def [of 1]
      encoded_len_def [of 0] encoded_len_def [of "Suc 0"] encoded_len_def [of "Suc (Suc 0)"])

lemma store_append:
  "length pre = i \<Longrightarrow> store i x (pre @ y # rest) = Some (pre @ x # rest)"
  by (auto simp: store_def)

lemma store_append_more:
  "store (Suc (length pre)) l (pre @ p # q # r) = Some (pre @ p # l # r)"
  "store (Suc (Suc (length pre))) l (pre @ p # q # v # r) = Some (pre @ p # q # l # r)"
  "store (Suc (Suc (Suc (length pre)))) l (pre @ p # q # v # u # r) = Some (pre @ p # q # v # l # r)"
  using store_append [of "pre @ [p]"] store_append [of "pre @ [p, q]"]
    store_append [of "pre @ [p, q, v]"] by simp_all

lemma encode_loop_letters:
  assumes "length gap = encoded_len (length input)"
  shows "encode_loop input (length pre) (pre @ gap @ post) =
     Some (length pre + length gap, pre @ letters input @ post)"
  using assms
proof (induction input arbitrary: pre gap rule: letters.induct)
  case (1 a b c rest)
  then have "length gap = Suc (Suc (Suc (Suc (encoded_len (length rest)))))"
    by (simp add: encoded_len_step)
  then obtain w x y z gap' where gap: "gap = w # x # y # z # gap'"
      and len: "length gap' = encoded_len (length rest)"
    by (auto simp: length_Suc_conv)
  have four: "length pre + 4 = Suc (Suc (Suc (Suc (length pre))))" by simp
  let ?n = "push_bit 16 (ucast a) OR push_bit 8 (ucast b) OR ucast c :: u32"
  show ?case
    using 1(1) [OF refl len, of "pre @ [letter ?n 18, letter ?n 12, letter ?n 6, letter ?n 0]"]
    by (simp add: gap Let_def store_append store_append_more add.commute numeral_3_eq_3 four)
next
  case (2 a)
  then have "length gap = Suc (Suc 0)" by (simp add: encoded_len_def)
  then obtain w x where "gap = [w, x]" by (auto simp: length_Suc_conv)
  then show ?case by (simp add: Let_def store_append store_append_more)
next
  case (3 a b)
  then have "length gap = Suc (Suc (Suc 0))" by (simp add: encoded_len_def)
  then obtain w x y where "gap = [w, x, y]" by (auto simp: length_Suc_conv)
  then show ?case by (simp add: Let_def store_append store_append_more)
next
  case 4
  then show ?case by (simp add: encoded_len_def)
qed

section \<open>Round trip\<close>

text \<open>The decoder a DoH server applies to the \<open>dns\<close> parameter.\<close>

definition sextet :: "u8 \<Rightarrow> nat option" where
  "sextet x = position (\<lambda>y. y = x) ALPHABET"

fun b64_decode :: "bytes \<Rightarrow> bytes option" where
  "b64_decode (w # x # y # z # rest) =
    Option.bind (sextet w) (\<lambda>w. Option.bind (sextet x) (\<lambda>x.
    Option.bind (sextet y) (\<lambda>y. Option.bind (sextet z) (\<lambda>z.
    let n = w * 2 ^ 18 + x * 2 ^ 12 + y * 2 ^ 6 + z in
    map_option (\<lambda>r. [of_nat (n div 2 ^ 16), of_nat (n div 2 ^ 8), of_nat n] @ r) (b64_decode rest)))))"
| "b64_decode [] = Some []"
| "b64_decode [w] = None"
| "b64_decode [w, x] =
    Option.bind (sextet w) (\<lambda>w. Option.bind (sextet x) (\<lambda>x.
    Some [of_nat ((w * 2 ^ 18 + x * 2 ^ 12) div 2 ^ 16)]))"
| "b64_decode [w, x, y] =
    Option.bind (sextet w) (\<lambda>w. Option.bind (sextet x) (\<lambda>x. Option.bind (sextet y) (\<lambda>y.
    let n = w * 2 ^ 18 + x * 2 ^ 12 + y * 2 ^ 6 in
    Some [of_nat (n div 2 ^ 16), of_nat (n div 2 ^ 8)])))"

lemma length_ALPHABET: "length ALPHABET = 64"
  by (simp add: ALPHABET_def)

lemma distinct_ALPHABET: "distinct ALPHABET"
  by (simp add: ALPHABET_def as_bytes_def)

lemma letter_index: "unat (drop_bit s (n :: u32) AND 63) = unat n div 2 ^ s mod 64"
  using unat_drop_mask [of s n 6] by (simp add: mask_eq_exp_minus_1)

lemma sextet_letter: "sextet (letter n s) = Some (unat n div 2 ^ s mod 64)"
  unfolding sextet_def letter_def letter_index
  by (rule position_distinct) (simp_all add: distinct_ALPHABET length_ALPHABET)

lemma letter_in_ALPHABET: "letter n s \<in> set ALPHABET"
  unfolding letter_def letter_index by (rule nth_mem) (simp add: length_ALPHABET)

lemma letters_subset: "set (letters input) \<subseteq> set ALPHABET"
  by (induction input rule: letters.induct) (simp_all add: Let_def letter_in_ALPHABET)

lemma group_value:
  "unat (push_bit 16 (ucast (a :: u8)) OR push_bit 8 (ucast (b :: u8)) OR ucast (c :: u8) :: u32)
    = unat a * 65536 + unat b * 256 + unat c"
proof -
  have u: "unat (ucast x :: u32) = unat x" for x :: u8
    using u8_less_256 [of x] by (simp add: unsigned_ucast_eq take_bit_nat_eq_self)
  have ab: "unat (push_bit 8 (ucast a) OR ucast b :: u32) = unat a * 256 + unat b"
    using unat_push_or [of "ucast b" 8 "ucast a :: u32"] u8_less_256 [of a] u8_less_256 [of b]
    by (simp add: u)
  have "push_bit 16 (ucast a) OR push_bit 8 (ucast b) = push_bit 8 (push_bit 8 (ucast a) OR ucast b :: u32)"
    by (simp add: push_bit_or)
  moreover have "unat (push_bit 8 (push_bit 8 (ucast a) OR ucast b) OR ucast c :: u32)
      = (unat a * 256 + unat b) * 256 + unat c"
    using unat_push_or [of "ucast c" 8 "push_bit 8 (ucast a) OR ucast b :: u32"]
      u8_less_256 [of a] u8_less_256 [of b] u8_less_256 [of c] by (simp add: u ab)
  ultimately show ?thesis by (simp add: or.assoc algebra_simps)
qed

lemma sextets_join:
  assumes "(n :: nat) < 2 ^ 24"
  shows "n div 2 ^ 18 mod 64 * 2 ^ 18 + n div 2 ^ 12 mod 64 * 2 ^ 12 + n div 2 ^ 6 mod 64 * 2 ^ 6 + n mod 64 = n"
proof -
  have join: "x3 * 262144 + y2 * 4096 + y1 * 64 + y0 = m"
    if "x1 * 64 + y0 = m" "x2 * 64 + y1 = x1" "x3 * 64 + y2 = x2" for x1 x2 x3 y0 y1 y2 m :: nat
    using that by linarith
  have "n div 64 div 64 div 64 < 64" using assms by (simp add: div_mult2_eq [symmetric] div_less_iff_less_mult)
  then have "n div 64 div 64 div 64 mod 64 = n div 64 div 64 div 64" by simp
  with join [OF div_mult_mod_eq div_mult_mod_eq div_mult_mod_eq] show ?thesis
    by (simp add: div_mult2_eq [symmetric])
qed

lemma sextets_join23:
  assumes "(n :: nat) < 2 ^ 24"
  shows "64 dvd n \<Longrightarrow> n div 2 ^ 18 mod 64 * 2 ^ 18 + n div 2 ^ 12 mod 64 * 2 ^ 12 + n div 2 ^ 6 mod 64 * 2 ^ 6 = n"
    and "4096 dvd n \<Longrightarrow> n div 2 ^ 18 mod 64 * 2 ^ 18 + n div 2 ^ 12 mod 64 * 2 ^ 12 = n"
proof -
  show "n div 2 ^ 18 mod 64 * 2 ^ 18 + n div 2 ^ 12 mod 64 * 2 ^ 12 + n div 2 ^ 6 mod 64 * 2 ^ 6 = n"
    if "64 dvd n"
    using sextets_join [OF assms] that by (simp only: dvd_eq_mod_eq_0 add_0_right)
  assume d: "4096 dvd n"
  then have "64 dvd n" by (rule dvd_trans [rotated]) simp
  moreover from d have "n div 2 ^ 6 mod 64 = 0" by auto
  ultimately show "n div 2 ^ 18 mod 64 * 2 ^ 18 + n div 2 ^ 12 mod 64 * 2 ^ 12 = n"
    using sextets_join [OF assms] by (simp only: dvd_eq_mod_eq_0 add_0_right mult_zero_left)
qed

lemma of_nat_group:
  "of_nat ((unat a * 65536 + unat b * 256 + unat c) div 65536) = a"
  "of_nat ((unat a * 65536 + unat b * 256 + unat c) div 256) = b"
  "of_nat (unat a * 65536 + unat b * 256 + unat c) = c" for a b c :: u8
proof -
  have m: "(of_nat (x * 256 + unat y) :: u8) = y" for x :: nat and y :: u8
  proof -
    have "(of_nat (x * 256) :: u8) = of_nat x * of_nat 256" by (rule of_nat_mult)
    also have "(of_nat 256 :: u8) = 0" by simp
    finally show ?thesis by (simp only: of_nat_add) simp
  qed
  have l: "unat x < 256" for x :: u8 by (rule u8_less_256)
  have "(unat a * 65536 + unat b * 256 + unat c) div 65536 = unat a"
  proof -
    have "unat b * 256 + unat c < 65536" using l [of b] l [of c] by linarith
    then have "(unat b * 256 + unat c + unat a * 65536) div 65536 = unat a" by simp
    then show ?thesis by (simp only: ac_simps)
  qed
  then show "of_nat ((unat a * 65536 + unat b * 256 + unat c) div 65536) = a" by simp
  have "(unat a * 65536 + unat b * 256 + unat c) div 256 = unat a * 256 + unat b"
    using l [of c] by simp
  then show "of_nat ((unat a * 65536 + unat b * 256 + unat c) div 256) = b"
    by (simp only: m)
  have "unat a * 65536 + unat b * 256 + unat c = (unat a * 256 + unat b) * 256 + unat c" by simp
  then show "of_nat (unat a * 65536 + unat b * 256 + unat c) = c" by (simp only: m)
qed

lemma decode_group4:
  assumes "unat n < 2 ^ 24"
  shows "b64_decode (letter n 18 # letter n 12 # letter n 6 # letter n 0 # r) =
    map_option (\<lambda>r. [of_nat (unat n div 2 ^ 16), of_nat (unat n div 2 ^ 8), of_nat (unat n)] @ r)
      (b64_decode r)"
proof -
  have "unat n div 2 ^ 0 mod 64 = unat n mod 64" by simp
  then show ?thesis
    using sextets_join [OF assms]
    by (simp only: b64_decode.simps sextet_letter Option.bind.simps Let_def)
qed

lemma decode_group3:
  "unat n < 2 ^ 24 \<Longrightarrow> 64 dvd unat n \<Longrightarrow> b64_decode [letter n 18, letter n 12, letter n 6] =
    Some [of_nat (unat n div 2 ^ 16), of_nat (unat n div 2 ^ 8)]"
  using sextets_join23(1) [of "unat n"] by (simp only: b64_decode.simps sextet_letter Option.bind.simps Let_def)

lemma decode_group2:
  "unat n < 2 ^ 24 \<Longrightarrow> 4096 dvd unat n \<Longrightarrow> b64_decode [letter n 18, letter n 12] =
    Some [of_nat (unat n div 2 ^ 16)]"
  using sextets_join23(2) [of "unat n"] by (simp only: b64_decode.simps sextet_letter Option.bind.simps Let_def)

lemma group_bound: "unat (a :: u8) * 65536 + unat (b :: u8) * 256 + unat (c :: u8) < 2 ^ 24"
  using u8_less_256 [of a] u8_less_256 [of b] u8_less_256 [of c] by simp

lemma b64_decode_letters: "b64_decode (letters input) = Some input"
proof (induction input rule: letters.induct)
  case (1 a b c rest)
  let ?n = "push_bit 16 (ucast a) OR push_bit 8 (ucast b) OR ucast c :: u32"
  have "b64_decode (letters (a # b # c # rest)) =
    map_option (\<lambda>r. [of_nat (unat ?n div 2 ^ 16), of_nat (unat ?n div 2 ^ 8), of_nat (unat ?n)] @ r)
      (b64_decode (letters rest))"
    using decode_group4 [of ?n] by (simp only: group_value group_bound letters.simps Let_def append.simps simp_thms)
  moreover have "(2 :: nat) ^ 16 = 65536" "(2 :: nat) ^ 8 = 256" by simp_all
  ultimately show ?case
    by (simp only: group_value of_nat_group 1 option.map append.simps)
next
  case (2 a)
  let ?n = "push_bit 16 (ucast a) :: u32"
  have n: "unat ?n = unat a * 65536" using group_value [of a 0 0] by simp
  have "4096 dvd unat ?n" by (simp add: n dvd_mult)
  then show ?case
    using decode_group2 [of ?n] group_bound [of a 0 0] of_nat_group(1) [of a 0 0] by (simp add: n Let_def)
next
  case (3 a b)
  let ?n = "push_bit 16 (ucast a) OR push_bit 8 (ucast b) :: u32"
  have n: "unat ?n = unat a * 65536 + unat b * 256" using group_value [of a b 0] by simp
  have "64 dvd unat ?n" unfolding n by (intro dvd_add dvd_mult) simp_all
  then show ?case
    using decode_group3 [of ?n] group_bound [of a b 0] of_nat_group(1,2) [of a b 0] by (simp add: n Let_def)
next
  case 4
  then show ?case by simp
qed

lemma encode_into_letters:
  assumes "encoded_len (length input) \<le> length out"
  shows "encode_into input out = Some (encoded_len (length input),
    letters input @ drop (encoded_len (length input)) out)"
  using encode_loop_letters [of "take (encoded_len (length input)) out" input "[]"
      "drop (encoded_len (length input)) out"] assms
  by (simp add: encode_into_def)

lemma store_eq_Some: "store i x out = Some out' \<longleftrightarrow> i < length out \<and> out' = out[i := x]"
  by (auto simp: store_def)

lemma encode_loop_bound:
  "encode_loop input p out = Some r \<Longrightarrow> p \<le> length out \<Longrightarrow> p + encoded_len (length input) \<le> length out"
proof (induction input p out rule: encode_loop.induct)
  case (1 a b c rest p out)
  then have "p + 3 < length out"
    by (simp add: Let_def bind_eq_Some_conv store_eq_Some)
  moreover from 1 have "p + 4 + encoded_len (length rest) \<le> length out"
    using calculation by (fastforce simp: Let_def bind_eq_Some_conv store_eq_Some)
  ultimately show ?case by (simp add: encoded_len_step)
qed (auto simp: Let_def bind_eq_Some_conv store_eq_Some encoded_len_def)


text \<open>
  A buffer shorter than \<open>encoded_len\<close> always makes the encoder panic: the documented
  precondition is exact.
\<close>

lemma encode_into_short_buffer:
  "(encode_into input out = None) = (length out < encoded_len (length input))"
proof (cases "encoded_len (length input) \<le> length out")
  case True
  then show ?thesis by (simp add: encode_into_letters)
next
  case False
  with encode_loop_bound [of input 0 out] show ?thesis
    by (cases "encode_into input out") (auto simp: encode_into_def)
qed

end
