(* ===== verification/Huffman_Table.thy ===== *)
theory Huffman_Table
  imports Prelude "HOL-Library.Sublist"
begin

text \<open>
  The HPACK/QPACK Huffman code table, \<^verbatim>\<open>pkgs/microdoh3/src/huffman_table.rs\<close>, with the facts the
  decoder's proof needs of it, each computed from the table: code lengths lie between 5 and 30, every
  code fits its length, no code of at most seven bits is all ones (so padding is never a symbol), and
  no code is a prefix of another.
\<close>

text \<open>Code and length per symbol; index 256 is EOS.\<close>

definition HUFFMAN :: "(u32 \<times> u8) list" where
  "HUFFMAN = [
   (0x1ff8, 13), (0x7fffd8, 23), (0xfffffe2, 28), (0xfffffe3, 28), (0xfffffe4, 28), (0xfffffe5, 28), (0xfffffe6, 28), (0xfffffe7, 28),
   (0xfffffe8, 28), (0xffffea, 24), (0x3ffffffc, 30), (0xfffffe9, 28), (0xfffffea, 28), (0x3ffffffd, 30), (0xfffffeb, 28), (0xfffffec, 28),
   (0xfffffed, 28), (0xfffffee, 28), (0xfffffef, 28), (0xffffff0, 28), (0xffffff1, 28), (0xffffff2, 28), (0x3ffffffe, 30), (0xffffff3, 28),
   (0xffffff4, 28), (0xffffff5, 28), (0xffffff6, 28), (0xffffff7, 28), (0xffffff8, 28), (0xffffff9, 28), (0xffffffa, 28), (0xffffffb, 28),
   (0x14, 6), (0x3f8, 10), (0x3f9, 10), (0xffa, 12), (0x1ff9, 13), (0x15, 6), (0xf8, 8), (0x7fa, 11),
   (0x3fa, 10), (0x3fb, 10), (0xf9, 8), (0x7fb, 11), (0xfa, 8), (0x16, 6), (0x17, 6), (0x18, 6),
   (0x0, 5), (0x1, 5), (0x2, 5), (0x19, 6), (0x1a, 6), (0x1b, 6), (0x1c, 6), (0x1d, 6),
   (0x1e, 6), (0x1f, 6), (0x5c, 7), (0xfb, 8), (0x7ffc, 15), (0x20, 6), (0xffb, 12), (0x3fc, 10),
   (0x1ffa, 13), (0x21, 6), (0x5d, 7), (0x5e, 7), (0x5f, 7), (0x60, 7), (0x61, 7), (0x62, 7),
   (0x63, 7), (0x64, 7), (0x65, 7), (0x66, 7), (0x67, 7), (0x68, 7), (0x69, 7), (0x6a, 7),
   (0x6b, 7), (0x6c, 7), (0x6d, 7), (0x6e, 7), (0x6f, 7), (0x70, 7), (0x71, 7), (0x72, 7),
   (0xfc, 8), (0x73, 7), (0xfd, 8), (0x1ffb, 13), (0x7fff0, 19), (0x1ffc, 13), (0x3ffc, 14), (0x22, 6),
   (0x7ffd, 15), (0x3, 5), (0x23, 6), (0x4, 5), (0x24, 6), (0x5, 5), (0x25, 6), (0x26, 6),
   (0x27, 6), (0x6, 5), (0x74, 7), (0x75, 7), (0x28, 6), (0x29, 6), (0x2a, 6), (0x7, 5),
   (0x2b, 6), (0x76, 7), (0x2c, 6), (0x8, 5), (0x9, 5), (0x2d, 6), (0x77, 7), (0x78, 7),
   (0x79, 7), (0x7a, 7), (0x7b, 7), (0x7ffe, 15), (0x7fc, 11), (0x3ffd, 14), (0x1ffd, 13), (0xffffffc, 28),
   (0xfffe6, 20), (0x3fffd2, 22), (0xfffe7, 20), (0xfffe8, 20), (0x3fffd3, 22), (0x3fffd4, 22), (0x3fffd5, 22), (0x7fffd9, 23),
   (0x3fffd6, 22), (0x7fffda, 23), (0x7fffdb, 23), (0x7fffdc, 23), (0x7fffdd, 23), (0x7fffde, 23), (0xffffeb, 24), (0x7fffdf, 23),
   (0xffffec, 24), (0xffffed, 24), (0x3fffd7, 22), (0x7fffe0, 23), (0xffffee, 24), (0x7fffe1, 23), (0x7fffe2, 23), (0x7fffe3, 23),
   (0x7fffe4, 23), (0x1fffdc, 21), (0x3fffd8, 22), (0x7fffe5, 23), (0x3fffd9, 22), (0x7fffe6, 23), (0x7fffe7, 23), (0xffffef, 24),
   (0x3fffda, 22), (0x1fffdd, 21), (0xfffe9, 20), (0x3fffdb, 22), (0x3fffdc, 22), (0x7fffe8, 23), (0x7fffe9, 23), (0x1fffde, 21),
   (0x7fffea, 23), (0x3fffdd, 22), (0x3fffde, 22), (0xfffff0, 24), (0x1fffdf, 21), (0x3fffdf, 22), (0x7fffeb, 23), (0x7fffec, 23),
   (0x1fffe0, 21), (0x1fffe1, 21), (0x3fffe0, 22), (0x1fffe2, 21), (0x7fffed, 23), (0x3fffe1, 22), (0x7fffee, 23), (0x7fffef, 23),
   (0xfffea, 20), (0x3fffe2, 22), (0x3fffe3, 22), (0x3fffe4, 22), (0x7ffff0, 23), (0x3fffe5, 22), (0x3fffe6, 22), (0x7ffff1, 23),
   (0x3ffffe0, 26), (0x3ffffe1, 26), (0xfffeb, 20), (0x7fff1, 19), (0x3fffe7, 22), (0x7ffff2, 23), (0x3fffe8, 22), (0x1ffffec, 25),
   (0x3ffffe2, 26), (0x3ffffe3, 26), (0x3ffffe4, 26), (0x7ffffde, 27), (0x7ffffdf, 27), (0x3ffffe5, 26), (0xfffff1, 24), (0x1ffffed, 25),
   (0x7fff2, 19), (0x1fffe3, 21), (0x3ffffe6, 26), (0x7ffffe0, 27), (0x7ffffe1, 27), (0x3ffffe7, 26), (0x7ffffe2, 27), (0xfffff2, 24),
   (0x1fffe4, 21), (0x1fffe5, 21), (0x3ffffe8, 26), (0x3ffffe9, 26), (0xffffffd, 28), (0x7ffffe3, 27), (0x7ffffe4, 27), (0x7ffffe5, 27),
   (0xfffec, 20), (0xfffff3, 24), (0xfffed, 20), (0x1fffe6, 21), (0x3fffe9, 22), (0x1fffe7, 21), (0x1fffe8, 21), (0x7ffff3, 23),
   (0x3fffea, 22), (0x3fffeb, 22), (0x1ffffee, 25), (0x1ffffef, 25), (0xfffff4, 24), (0xfffff5, 24), (0x3ffffea, 26), (0x7ffff4, 23),
   (0x3ffffeb, 26), (0x7ffffe6, 27), (0x3ffffec, 26), (0x3ffffed, 26), (0x7ffffe7, 27), (0x7ffffe8, 27), (0x7ffffe9, 27), (0x7ffffea, 27),
   (0x7ffffeb, 27), (0xffffffe, 28), (0x7ffffec, 27), (0x7ffffed, 27), (0x7ffffee, 27), (0x7ffffef, 27), (0x7fffff0, 27), (0x3ffffee, 26),
   (0x3fffffff, 30)]"

section \<open>Codes as bit lists\<close>

text \<open>The low \<open>n\<close> bits of an integer, most significant first.\<close>

fun int_bits :: "nat \<Rightarrow> int \<Rightarrow> bool list" where
  "int_bits 0 c = []"
| "int_bits (Suc n) c = int_bits n (c div 2) @ [odd c]"

definition sym_code :: "usize \<Rightarrow> bool list" where
  "sym_code s = (case HUFFMAN ! s of (c, l) \<Rightarrow> int_bits (unat l) (uint c))"

lemma length_int_bits [simp]: "length (int_bits n c) = n"
  by (induction n arbitrary: c) simp_all

lemma int_bits_append:
  assumes "0 \<le> b" "b < 2 ^ m"
  shows "int_bits (n + m) (a * 2 ^ m + b) = int_bits n a @ int_bits m b"
  using assms
proof (induction m arbitrary: b)
  case 0
  then have "b = 0" by simp
  then show ?case by simp
next
  case (Suc m)
  have "(a * 2 ^ Suc m + b) div 2 = a * 2 ^ m + b div 2"
  proof -
    have "a * 2 ^ Suc m + b = b + 2 * (a * 2 ^ m)" by simp
    then show ?thesis by (simp only: div_mult_self2)
  qed
  moreover have "odd (a * 2 ^ Suc m + b) = odd b" by simp
  ultimately show ?case using Suc by simp
qed

lemma int_bits_inj:
  "0 \<le> a \<Longrightarrow> a < 2 ^ n \<Longrightarrow> 0 \<le> b \<Longrightarrow> b < 2 ^ n \<Longrightarrow> int_bits n a = int_bits n b \<longleftrightarrow> a = b"
proof (induction n arbitrary: a b)
  case 0
  then show ?case by simp
next
  case (Suc n)
  have "int_bits n (a div 2) = int_bits n (b div 2) \<longleftrightarrow> a div 2 = b div 2"
    using Suc.prems by (intro Suc.IH) auto
  moreover have "a = b \<longleftrightarrow> a div 2 = b div 2 \<and> odd a = odd b"
    by presburger
  ultimately show ?case by simp
qed

lemma int_bits_ones: "int_bits k (2 ^ k - 1) = replicate k True"
proof (induction k)
  case 0
  then show ?case by simp
next
  case (Suc k)
  have "(2 ^ Suc k - 1) div 2 = (2 ^ k - 1 :: int)" by simp
  with Suc show ?case by (simp add: replicate_append_same)
qed

section \<open>Facts of the table\<close>

definition HUFFMAN_int :: "(int \<times> int) list" where
  "HUFFMAN_int = [
   (8184, 13), (8388568, 23), (268435426, 28), (268435427, 28), (268435428, 28), (268435429, 28), (268435430, 28), (268435431, 28),
   (268435432, 28), (16777194, 24), (1073741820, 30), (268435433, 28), (268435434, 28), (1073741821, 30), (268435435, 28), (268435436, 28),
   (268435437, 28), (268435438, 28), (268435439, 28), (268435440, 28), (268435441, 28), (268435442, 28), (1073741822, 30), (268435443, 28),
   (268435444, 28), (268435445, 28), (268435446, 28), (268435447, 28), (268435448, 28), (268435449, 28), (268435450, 28), (268435451, 28),
   (20, 6), (1016, 10), (1017, 10), (4090, 12), (8185, 13), (21, 6), (248, 8), (2042, 11),
   (1018, 10), (1019, 10), (249, 8), (2043, 11), (250, 8), (22, 6), (23, 6), (24, 6),
   (0, 5), (1, 5), (2, 5), (25, 6), (26, 6), (27, 6), (28, 6), (29, 6),
   (30, 6), (31, 6), (92, 7), (251, 8), (32764, 15), (32, 6), (4091, 12), (1020, 10),
   (8186, 13), (33, 6), (93, 7), (94, 7), (95, 7), (96, 7), (97, 7), (98, 7),
   (99, 7), (100, 7), (101, 7), (102, 7), (103, 7), (104, 7), (105, 7), (106, 7),
   (107, 7), (108, 7), (109, 7), (110, 7), (111, 7), (112, 7), (113, 7), (114, 7),
   (252, 8), (115, 7), (253, 8), (8187, 13), (524272, 19), (8188, 13), (16380, 14), (34, 6),
   (32765, 15), (3, 5), (35, 6), (4, 5), (36, 6), (5, 5), (37, 6), (38, 6),
   (39, 6), (6, 5), (116, 7), (117, 7), (40, 6), (41, 6), (42, 6), (7, 5),
   (43, 6), (118, 7), (44, 6), (8, 5), (9, 5), (45, 6), (119, 7), (120, 7),
   (121, 7), (122, 7), (123, 7), (32766, 15), (2044, 11), (16381, 14), (8189, 13), (268435452, 28),
   (1048550, 20), (4194258, 22), (1048551, 20), (1048552, 20), (4194259, 22), (4194260, 22), (4194261, 22), (8388569, 23),
   (4194262, 22), (8388570, 23), (8388571, 23), (8388572, 23), (8388573, 23), (8388574, 23), (16777195, 24), (8388575, 23),
   (16777196, 24), (16777197, 24), (4194263, 22), (8388576, 23), (16777198, 24), (8388577, 23), (8388578, 23), (8388579, 23),
   (8388580, 23), (2097116, 21), (4194264, 22), (8388581, 23), (4194265, 22), (8388582, 23), (8388583, 23), (16777199, 24),
   (4194266, 22), (2097117, 21), (1048553, 20), (4194267, 22), (4194268, 22), (8388584, 23), (8388585, 23), (2097118, 21),
   (8388586, 23), (4194269, 22), (4194270, 22), (16777200, 24), (2097119, 21), (4194271, 22), (8388587, 23), (8388588, 23),
   (2097120, 21), (2097121, 21), (4194272, 22), (2097122, 21), (8388589, 23), (4194273, 22), (8388590, 23), (8388591, 23),
   (1048554, 20), (4194274, 22), (4194275, 22), (4194276, 22), (8388592, 23), (4194277, 22), (4194278, 22), (8388593, 23),
   (67108832, 26), (67108833, 26), (1048555, 20), (524273, 19), (4194279, 22), (8388594, 23), (4194280, 22), (33554412, 25),
   (67108834, 26), (67108835, 26), (67108836, 26), (134217694, 27), (134217695, 27), (67108837, 26), (16777201, 24), (33554413, 25),
   (524274, 19), (2097123, 21), (67108838, 26), (134217696, 27), (134217697, 27), (67108839, 26), (134217698, 27), (16777202, 24),
   (2097124, 21), (2097125, 21), (67108840, 26), (67108841, 26), (268435453, 28), (134217699, 27), (134217700, 27), (134217701, 27),
   (1048556, 20), (16777203, 24), (1048557, 20), (2097126, 21), (4194281, 22), (2097127, 21), (2097128, 21), (8388595, 23),
   (4194282, 22), (4194283, 22), (33554414, 25), (33554415, 25), (16777204, 24), (16777205, 24), (67108842, 26), (8388596, 23),
   (67108843, 26), (134217702, 27), (67108844, 26), (67108845, 26), (134217703, 27), (134217704, 27), (134217705, 27), (134217706, 27),
   (134217707, 27), (268435454, 28), (134217708, 27), (134217709, 27), (134217710, 27), (134217711, 27), (134217712, 27), (67108846, 26),
   (1073741823, 30)]"

lemma HUFFMAN_int: "map (\<lambda>(c, l). (uint c, uint l)) HUFFMAN = HUFFMAN_int"
  unfolding HUFFMAN_def HUFFMAN_int_def by simp

lemma length_HUFFMAN: "length HUFFMAN = 257"
  by (simp add: HUFFMAN_def)

definition entry_ok :: "int \<times> int \<Rightarrow> bool" where
  "entry_ok e \<longleftrightarrow> (case e of (c, l) \<Rightarrow>
     5 \<le> l \<and> l \<le> 30 \<and> 0 \<le> c \<and> c < 2 ^ nat l \<and> (l \<le> 7 \<longrightarrow> c \<noteq> 2 ^ nat l - 1))"

lemma HUFFMAN_entries: "list_all entry_ok HUFFMAN_int"
  by code_simp

fun prefix_free :: "nat \<Rightarrow> bool list list \<Rightarrow> bool" where
  "prefix_free 0 cs = (length cs \<le> 1)"
| "prefix_free (Suc n) cs =
    (length cs \<le> 1 \<or>
      ([] \<notin> set cs \<and> prefix_free n (map tl (filter hd cs))
        \<and> prefix_free n (map tl (filter (\<lambda>c. \<not> hd c) cs))))"

lemma HUFFMAN_prefix_free:
  "prefix_free 31 (map (\<lambda>(c, l). int_bits (nat l) c) HUFFMAN_int)"
  by code_simp

abbreviation incomparable :: "bool list \<Rightarrow> bool list \<Rightarrow> bool" where
  "incomparable c d \<equiv> \<not> prefix c d \<and> \<not> prefix d c"

lemma incomparable_split:
  assumes "[] \<notin> set cs" and "sorted_wrt incomparable (map tl (filter hd cs))"
    and "sorted_wrt incomparable (map tl (filter (\<lambda>c. \<not> hd c) cs))"
  shows "sorted_wrt incomparable cs"
  using assms
proof (induction cs)
  case Nil
  then show ?case by simp
next
  case (Cons c cs)
  then obtain b x where c: "c = b # x" by (cases c) auto
  have "incomparable c d" if d: "d \<in> set cs" for d
  proof -
    from d Cons.prems(1) have "d \<noteq> []" by auto
    then obtain b' y where y: "d = b' # y" by (cases d) auto
    have "incomparable x y" if "b' = b"
    proof (cases b)
      case True
      with that d y have "y \<in> set (map tl (filter hd cs))" by force
      with Cons.prems(2) c True show ?thesis by auto
    next
      case False
      with that d y have "y \<in> set (map tl (filter (\<lambda>c. \<not> hd c) cs))" by force
      with Cons.prems(3) c False show ?thesis by auto
    qed
    with c y show ?thesis by auto
  qed
  moreover have "sorted_wrt incomparable cs"
    using Cons.prems by (intro Cons.IH) (auto split: if_splits)
  ultimately show ?case by simp
qed

lemma prefix_free_incomparable: "prefix_free n cs \<Longrightarrow> sorted_wrt incomparable cs"
proof (induction n arbitrary: cs)
  case 0
  then show ?case by (cases cs) auto
next
  case (Suc n)
  show ?case
  proof (cases "length cs \<le> 1")
    case True
    then show ?thesis by (cases cs) auto
  next
    case False
    with Suc show ?thesis by (auto intro!: incomparable_split [of cs])
  qed
qed

lemma map_sym_code:
  "map sym_code [0..<length HUFFMAN] = map (\<lambda>(c, l). int_bits (nat l) c) HUFFMAN_int"
proof -
  have "map sym_code [0..<length HUFFMAN]
      = map (\<lambda>(c, l). int_bits (unat l) (uint c)) (map ((!) HUFFMAN) [0..<length HUFFMAN])"
    unfolding map_map comp_def sym_code_def ..
  also have "map ((!) HUFFMAN) [0..<length HUFFMAN] = HUFFMAN"
    by (rule map_nth)
  also have "map (\<lambda>(c, l). int_bits (unat l) (uint c)) HUFFMAN
      = map (\<lambda>(c, l). int_bits (nat l) c) (map (\<lambda>(c, l). (uint c, uint l)) HUFFMAN)"
    unfolding map_map by (rule map_cong [OF refl]) auto
  finally show ?thesis by (simp only: HUFFMAN_int)
qed

lemma sym_code_prefix:
  assumes "s < 257" "t < 257" and "prefix (sym_code s) (sym_code t)"
  shows "s = t"
proof (rule ccontr)
  assume "s \<noteq> t"
  let ?cs = "map sym_code [0..<length HUFFMAN]"
  have srt: "sorted_wrt incomparable ?cs"
    unfolding map_sym_code by (rule prefix_free_incomparable [OF HUFFMAN_prefix_free])
  have inc: "incomparable (sym_code i) (sym_code j)" if ij: "i < j" "j < 257" for i j
  proof -
    from ij have "j < length HUFFMAN" by (simp only: length_HUFFMAN)
    with sorted_wrt_nth_less [OF srt ij(1)] ij(1) show ?thesis by simp
  qed
  from \<open>s \<noteq> t\<close> assms inc [of s t] inc [of t s] show False
    by (cases "s < t") auto
qed

text \<open>Two codes that start the same bit string are the same code.\<close>

lemma sym_code_unique:
  "s < 257 \<Longrightarrow> t < 257 \<Longrightarrow> prefix (sym_code s) bs \<Longrightarrow> prefix (sym_code t) bs \<Longrightarrow> s = t"
  by (metis prefix_same_cases sym_code_prefix)

lemma HUFFMAN_entry:
  assumes "s < 257" and "HUFFMAN ! s = (c, l)"
  shows "entry_ok (uint c, uint l)"
proof -
  have "HUFFMAN_int ! s = (uint c, uint l)"
    using assms by (simp add: HUFFMAN_int [symmetric] length_HUFFMAN)
  moreover have "s < length HUFFMAN_int"
    using assms by (simp add: HUFFMAN_int [symmetric] length_HUFFMAN)
  ultimately show ?thesis using HUFFMAN_entries by (metis list_all_length)
qed

lemma sym_code_length:
  assumes "s < 257"
  shows "5 \<le> length (sym_code s)" "length (sym_code s) \<le> 30"
proof -
  obtain c l where e: "HUFFMAN ! s = (c, l)" by (cases "HUFFMAN ! s")
  have "5 \<le> uint l \<and> uint l \<le> 30" using HUFFMAN_entry [OF assms e] by (simp add: entry_ok_def)
  moreover have "int (unat l) = uint l" by simp
  ultimately have "5 \<le> unat l \<and> unat l \<le> 30" by linarith
  then show "5 \<le> length (sym_code s)" "length (sym_code s) \<le> 30" by (simp_all add: sym_code_def e)
qed

text \<open>No symbol is found in padding: at most seven one bits.\<close>

lemma no_sym_in_padding:
  assumes "s < 257" and "k < 8"
  shows "\<not> prefix (sym_code s) (replicate k True)"
proof
  assume p: "prefix (sym_code s) (replicate k True)"
  obtain c l where e: "HUFFMAN ! s = (c, l)" by (cases "HUFFMAN ! s")
  let ?n = "unat l"
  have ok: "entry_ok (uint c, uint l)" by (rule HUFFMAN_entry [OF assms(1) e])
  have len: "length (sym_code s) = ?n" by (simp add: sym_code_def e)
  with p assms(2) have n: "?n \<le> 7" by (auto dest!: prefix_length_le)
  from p have "sym_code s = replicate ?n True"
    by (metis len append_eq_conv_conj prefix_def take_replicate min.absorb1 length_replicate prefix_length_le)
  then have "int_bits ?n (uint c) = int_bits ?n (2 ^ ?n - 1)"
    by (simp add: sym_code_def e int_bits_ones)
  moreover from ok have "uint c < 2 ^ ?n" "uint l \<le> 7 \<longrightarrow> uint c \<noteq> 2 ^ ?n - 1"
    by (auto simp: entry_ok_def)
  moreover have "int (unat l) = uint l" by simp
  with n have "uint l \<le> 7" by linarith
  ultimately show False by (simp add: int_bits_inj)
qed

end
