(* ===== verification/Huffman.thy ===== *)
theory Huffman
  imports Huffman_Table
begin

text \<open>
  The Huffman decoder of \<^verbatim>\<open>pkgs/microdoh3/src/qpack.rs\<close> (\<open>huffman_decode\<close>). The accumulator
  \<open>acc\<close> is a \<open>u64\<close>, \<open>nbits\<close> counts its live low bits; the three nested loops are
  \<open>huffman_bytes\<close> (one step per input byte), \<open>huffman_symbols\<close> (the inner \<^verbatim>\<open>loop\<close>) and
  \<open>huffman_match\<close> (the \<^verbatim>\<open>while\<close> over code lengths).

  The main result is an exact characterisation: a byte string decodes to \<open>s\<close> if and only if its
  bits are the codes of \<open>s\<close> followed by fewer than eight one bits.
\<close>

datatype huffman_error = BadPadding | EosInString | NoMatch

function huffman_match :: "u64 \<Rightarrow> nat \<Rightarrow> nat \<Rightarrow> (usize \<times> nat) option" where
  "huffman_match acc nbits len =
    (if len \<le> 30 \<and> len \<le> nbits then
       let code = drop_bit (nbits - len) acc AND (push_bit len 1 - 1) in
       case position (\<lambda>(c, l). unat l = len \<and> ucast c = code) HUFFMAN of
         Some symb \<Rightarrow> Some (symb, len)
       | None \<Rightarrow> huffman_match acc nbits (len + 1)
     else None)"
  by pat_completeness auto
termination
  by (relation "measure (\<lambda>(acc, nbits, len). 31 - len)") auto

declare huffman_match.simps [simp del]

lemma huffman_match_bounds:
  "huffman_match acc nbits len = Some (symb, l) \<Longrightarrow> len \<le> l \<and> l \<le> nbits"
proof (induction acc nbits len rule: huffman_match.induct)
  case (1 acc nbits len)
  from 1(2) show ?case
    by (subst (asm) huffman_match.simps)
      (auto simp: Let_def dest: 1(1) [rotated 2] split: if_splits option.splits)
qed

function huffman_symbols :: "u64 \<Rightarrow> nat \<Rightarrow> bytes \<Rightarrow> (u64 \<times> nat \<times> bytes, huffman_error) result" where
  "huffman_symbols acc nbits out =
    (if nbits < 5 then Inr (acc, nbits, out)
     else case huffman_match acc nbits 5 of
       None \<Rightarrow> Inr (acc, nbits, out)
     | Some (symb, len) \<Rightarrow>
         if symb = 256 then Inl EosInString
         else
           let nbits' = nbits - len in
           huffman_symbols (acc AND (push_bit nbits' 1 - 1)) nbits' (out @ [of_nat symb]))"
  by pat_completeness auto
termination
  by (relation "measure (\<lambda>(acc, nbits, out). nbits)") (auto dest: huffman_match_bounds)

declare huffman_symbols.simps [simp del]

fun huffman_bytes :: "bytes \<Rightarrow> u64 \<Rightarrow> nat \<Rightarrow> bytes \<Rightarrow> (u64 \<times> nat \<times> bytes, huffman_error) result" where
  "huffman_bytes [] acc nbits out = Inr (acc, nbits, out)"
| "huffman_bytes (byte # data) acc nbits out =
    (let acc = push_bit 8 acc OR ucast byte; nbits = nbits + 8 in
     if nbits > 56 then Inl NoMatch
     else bindE (huffman_symbols acc nbits out) (\<lambda>(acc, nbits, out). huffman_bytes data acc nbits out))"

definition huffman_decode :: "bytes \<Rightarrow> (bytes, huffman_error) result" where
  "huffman_decode data =
    bindE (huffman_bytes data 0 0 []) (\<lambda>(acc, nbits, out).
      if nbits \<ge> 8 then Inl NoMatch
      else if nbits > 0 \<and> acc \<noteq> push_bit nbits 1 - 1 then Inl BadPadding
      else Inr out)"

section \<open>Bit strings\<close>

text \<open>The bits of a byte string, most significant first, and of the live part of the accumulator.\<close>

definition byte_bits :: "u8 \<Rightarrow> bool list" where
  "byte_bits b = int_bits 8 (uint b)"

definition bits :: "bytes \<Rightarrow> bool list" where
  "bits data = concat (map byte_bits data)"

definition codes :: "bytes \<Rightarrow> bool list" where
  "codes s = concat (map (\<lambda>b. sym_code (unat b)) s)"

definition live :: "u64 \<Rightarrow> nat \<Rightarrow> bool list" where
  "live acc nbits = int_bits nbits (uint acc)"

lemma bits_simps [simp]: "bits [] = []" "bits (b # data) = byte_bits b @ bits data"
  by (simp_all add: bits_def)

lemma codes_simps [simp]: "codes [] = []" "codes (b # s) = sym_code (unat b) @ codes s"
    "codes (s @ t) = codes s @ codes t"
  by (simp_all add: codes_def)

lemma length_live [simp]: "length (live acc n) = n"
  by (simp add: live_def)

lemma prefix_iff_take: "length xs \<le> length ys \<Longrightarrow> prefix xs ys \<longleftrightarrow> take (length xs) ys = xs"
  by (metis append_eq_conv_conj prefix_def take_is_prefix)

lemma live_split:
  assumes "uint acc < 2 ^ n" and "k \<le> n"
  shows "live acc n = int_bits k (uint acc div 2 ^ (n - k)) @ live (take_bit (n - k) acc) (n - k)"
proof -
  let ?m = "n - k"
  have "uint acc = uint acc div 2 ^ ?m * 2 ^ ?m + uint acc mod 2 ^ ?m"
    by (rule div_mult_mod_eq [symmetric])
  moreover have "int_bits (k + ?m) (uint acc div 2 ^ ?m * 2 ^ ?m + uint acc mod 2 ^ ?m)
      = int_bits k (uint acc div 2 ^ ?m) @ int_bits ?m (uint acc mod 2 ^ ?m)"
    by (rule int_bits_append) simp_all
  ultimately have "int_bits (k + ?m) (uint acc) = int_bits k (uint acc div 2 ^ ?m) @ int_bits ?m (uint acc mod 2 ^ ?m)"
    by (simp only:)
  moreover have "uint (take_bit ?m acc) = uint acc mod 2 ^ ?m"
    unfolding unsigned_take_bit_eq by (simp only: take_bit_eq_mod)
  ultimately show ?thesis using assms(2) by (simp add: live_def)
qed

lemma live_byte:
  assumes "uint acc < 2 ^ n" and "n \<le> 48"
  shows "live (push_bit 8 acc OR ucast b) (n + 8) = live acc n @ byte_bits b"
    and "uint (push_bit 8 acc OR ucast b) < 2 ^ (n + 8)"
proof -
  have b: "unat (ucast b :: u64) = unat b"
    using u8_less_256 [of b] by (simp add: unsigned_ucast_eq take_bit_nat_eq_self)
  have "unat acc < 2 ^ n"
    using assms(1) unfolding int_unat [symmetric]
    by (metis of_nat_less_iff of_nat_numeral of_nat_power)
  also have "(2 :: nat) ^ n \<le> 2 ^ 48" using assms(2) by (intro power_increasing) simp_all
  finally have "unat (push_bit 8 acc OR ucast b) = unat acc * 2 ^ 8 + unat b"
    using unat_push_or [of "ucast b" 8 acc] u8_less_256 [of b] b by simp
  then have "int (unat (push_bit 8 acc OR ucast b)) = int (unat acc) * 256 + int (unat b)" by simp
  then have v: "uint (push_bit 8 acc OR ucast b) = uint acc * 2 ^ 8 + uint b"
    unfolding int_unat by simp
  have "int (unat b) < 256" using u8_less_256 [of b] by linarith
  then have u: "uint b < 2 ^ 8" unfolding int_unat by simp
  show "live (push_bit 8 acc OR ucast b) (n + 8) = live acc n @ byte_bits b"
    unfolding live_def byte_bits_def v by (rule int_bits_append) (use u in simp_all)
  show "uint (push_bit 8 acc OR ucast b) < 2 ^ (n + 8)"
    unfolding v using assms(1) u by (simp add: power_add)
qed

section \<open>One symbol\<close>

definition starts_with :: "bool list \<Rightarrow> usize \<Rightarrow> bool" where
  "starts_with bs s \<longleftrightarrow> s < 257 \<and> prefix (sym_code s) bs"

lemma starts_with_unique: "starts_with bs s \<Longrightarrow> starts_with bs t \<Longrightarrow> s = t"
  by (auto simp: starts_with_def intro: sym_code_unique)

lemma match_condition:
  assumes acc: "uint acc < 2 ^ nbits" and len: "len \<le> nbits" "nbits \<le> 56" and s: "s < 257"
    and e: "HUFFMAN ! s = (c, l)"
  shows "(unat l = len \<and> ucast c = drop_bit (nbits - len) acc AND (push_bit len 1 - 1))
    \<longleftrightarrow> length (sym_code s) = len \<and> starts_with (live acc nbits) s"
proof (cases "unat l = len")
  case True
  let ?d = "uint acc div 2 ^ (nbits - len)"
  have fits: "uint c < 2 ^ len" using HUFFMAN_entry [OF s e] True by (simp add: entry_ok_def)
  have d: "?d < 2 ^ len"
  proof -
    have "uint acc < 2 ^ len * 2 ^ (nbits - len)" using acc len by (simp flip: power_add)
    then show ?thesis by (rule int_div_less) simp
  qed
  have "uint (drop_bit (nbits - len) acc AND (push_bit len 1 - 1)) = ?d mod 2 ^ len"
  proof -
    have m: "(push_bit len 1 - 1 :: u64) = mask len" by (simp add: mask_eq_exp_minus_1)
    have "uint (drop_bit k acc) = drop_bit k (uint acc)" for k
      by (simp only: int_unat [symmetric] unat_drop_bit_eq of_nat_drop_bit)
    then show ?thesis
      unfolding m take_bit_eq_mask [symmetric] unsigned_take_bit_eq
      by (simp only: take_bit_eq_mod) (simp only: drop_bit_eq_div)
  qed
  also have "\<dots> = ?d"
    by (rule mod_pos_pos_trivial [OF _ d]) (simp add: pos_imp_zdiv_nonneg_iff)
  finally have code: "uint (drop_bit (nbits - len) acc AND (push_bit len 1 - 1)) = ?d" .
  have "ucast c = drop_bit (nbits - len) acc AND (push_bit len 1 - 1) \<longleftrightarrow> uint c = ?d"
  proof -
    have "uint c < 2 ^ 32" using unsigned_less [where 'a = int, of c] by simp
    then have "uint (ucast c :: u64) = uint c"
      by (simp add: unsigned_ucast_eq take_bit_int_eq_self)
    then show ?thesis unfolding code [symmetric] word_uint_eq_iff by (simp only:)
  qed
  also have "\<dots> \<longleftrightarrow> int_bits len (uint c) = int_bits len ?d"
    using fits d by (intro int_bits_inj [symmetric]) (simp_all add: pos_imp_zdiv_nonneg_iff)
  also have "\<dots> \<longleftrightarrow> prefix (sym_code s) (live acc nbits)"
    using True len live_split [OF acc len(1)]
    by (subst prefix_iff_take) (auto simp: sym_code_def e)
  finally show ?thesis using True s by (simp add: starts_with_def sym_code_def e)
next
  case False
  then show ?thesis by (simp add: sym_code_def e)
qed

lemma huffman_match_iff:
  assumes "uint acc < 2 ^ nbits" and "nbits \<le> 56"
  shows "huffman_match acc nbits len = Some (s, l) \<longleftrightarrow>
    starts_with (live acc nbits) s \<and> l = length (sym_code s) \<and> len \<le> l"
  using assms
proof (induction acc nbits len rule: huffman_match.induct)
  case (1 acc nbits len)
  note acc = 1(2,3)
  define code where "code = drop_bit (nbits - len) acc AND (push_bit len 1 - 1)"
  define p where "p = position (\<lambda>(c, l). unat l = len \<and> ucast c = code) HUFFMAN"
  have short: "length (sym_code s) \<le> min 30 nbits" if "starts_with (live acc nbits) s" for s
    using that sym_code_length(2) [of s] by (auto simp: starts_with_def dest: prefix_length_le)
  show ?case
  proof (cases "len \<le> 30 \<and> len \<le> nbits")
    case True
    have P: "(case HUFFMAN ! i of (c, l) \<Rightarrow> unat l = len \<and> ucast c = code)
        \<longleftrightarrow> length (sym_code i) = len \<and> starts_with (live acc nbits) i" if "i < 257" for i
      using match_condition [OF acc(1) _ acc(2) that] True
      by (cases "HUFFMAN ! i") (simp add: code_def)
    show ?thesis
    proof (cases p)
      case None
      then have no: "\<not> (starts_with (live acc nbits) s \<and> length (sym_code s) = len)" for s
        using P [of s] nth_mem [of s HUFFMAN]
        by (force simp: p_def position_eq_None starts_with_def length_HUFFMAN)
      have "huffman_match acc nbits len = huffman_match acc nbits (len + 1)"
        using True None by (subst huffman_match.simps) (simp add: p_def code_def)
      also have "\<dots> = Some (s, l) \<longleftrightarrow> starts_with (live acc nbits) s \<and> l = length (sym_code s) \<and> len + 1 \<le> l"
        using True None acc by (intro 1(1) [OF _ code_def]) (simp_all add: p_def)
      finally show ?thesis using no [of s] by auto
    next
      case (Some i)
      then have i: "i < 257" "length (sym_code i) = len" "starts_with (live acc nbits) i"
        using P [of i] by (auto simp: p_def position_eq_Some length_HUFFMAN)
      have "huffman_match acc nbits len = Some (i, len)"
        using True Some by (subst huffman_match.simps) (simp add: p_def code_def)
      then show ?thesis using i starts_with_unique [OF i(3), of s] by auto
    qed
  next
    case False
    then have "huffman_match acc nbits len = None" by (subst huffman_match.simps) auto
    then show ?thesis using False short [of s] by auto
  qed
qed

lemma huffman_match_None:
  assumes "uint acc < 2 ^ nbits" and "nbits \<le> 56"
  shows "huffman_match acc nbits 5 = None \<longleftrightarrow> (\<forall>s. \<not> starts_with (live acc nbits) s)"
proof -
  have "(\<exists>s l. huffman_match acc nbits 5 = Some (s, l)) \<longleftrightarrow> (\<exists>s. starts_with (live acc nbits) s)"
    unfolding huffman_match_iff [OF assms]
    using sym_code_length(1) by (auto simp: starts_with_def)
  then show ?thesis by (cases "huffman_match acc nbits 5") auto
qed

section \<open>Runs of symbols\<close>

definition no_symbol :: "bool list \<Rightarrow> bool" where
  "no_symbol bs \<longleftrightarrow> (\<forall>s. \<not> starts_with bs s)"

lemma no_symbol_short: "length bs < 5 \<Longrightarrow> no_symbol bs"
  using sym_code_length(1) by (fastforce simp: no_symbol_def starts_with_def dest: prefix_length_le)

text \<open>One round of the inner loop removes the code of one symbol from the live bits.\<close>

lemma live_step:
  assumes "uint acc < 2 ^ nbits" and "nbits \<le> 56" and "starts_with (live acc nbits) s"
  defines "n' \<equiv> nbits - length (sym_code s)"
  shows "live acc nbits = sym_code s @ live (acc AND (push_bit n' 1 - 1)) n'"
    and "uint (acc AND (push_bit n' 1 - 1)) < 2 ^ n'"
proof -
  let ?k = "length (sym_code s)"
  have m: "acc AND (push_bit n' 1 - 1) = take_bit n' acc"
    by (simp add: mask_eq_exp_minus_1 take_bit_eq_mask)
  have k: "?k \<le> nbits" and p: "prefix (sym_code s) (live acc nbits)"
    using assms(3) by (auto simp: starts_with_def dest: prefix_length_le)
  from p k have "take ?k (live acc nbits) = sym_code s"
    by (simp add: prefix_iff_take)
  moreover note ls = live_split [OF assms(1) k]
  have "take ?k (live acc nbits) = int_bits ?k (uint acc div 2 ^ (nbits - ?k))"
    using arg_cong [OF ls, of "take ?k"] by simp
  ultimately show "live acc nbits = sym_code s @ live (acc AND (push_bit n' 1 - 1)) n'"
    unfolding m using ls by (simp add: n'_def)
  show "uint (acc AND (push_bit n' 1 - 1)) < 2 ^ n'"
    unfolding m unsigned_take_bit_eq by simp
qed

lemma huffman_symbols_sound:
  assumes "huffman_symbols acc nbits out = Inr (acc', nbits', out')"
    and "uint acc < 2 ^ nbits" and "nbits \<le> 56"
  shows "\<exists>s. out' = out @ s \<and> live acc nbits = codes s @ live acc' nbits'
    \<and> uint acc' < 2 ^ nbits' \<and> nbits' \<le> nbits"
  using assms
proof (induction acc nbits out rule: huffman_symbols.induct)
  case (1 acc nbits out)
  note acc = 1(3,4)
  show ?case
  proof (cases "nbits < 5 \<or> huffman_match acc nbits 5 = None")
    case True
    then have "huffman_symbols acc nbits out = Inr (acc, nbits, out)"
      by (subst huffman_symbols.simps) auto
    with 1(2) acc show ?thesis by (intro exI [of _ "[]"]) simp
  next
    case False
    then obtain i l where m: "huffman_match acc nbits 5 = Some (i, l)" and n: "\<not> nbits < 5"
      by (cases "huffman_match acc nbits 5") auto
    then have i: "starts_with (live acc nbits) i" "l = length (sym_code i)"
      by (simp_all add: huffman_match_iff [OF acc])
    let ?n = "nbits - l" and ?acc = "acc AND (push_bit (nbits - l) 1 - 1)"
    have "huffman_symbols acc nbits out
        = (if i = 256 then Inl EosInString else huffman_symbols ?acc ?n (out @ [of_nat i]))"
      using m n by (subst huffman_symbols.simps) (simp add: Let_def)
    with 1(2) have ne: "i \<noteq> 256" and
        rec: "huffman_symbols ?acc ?n (out @ [of_nat i]) = Inr (acc', nbits', out')"
      by (auto split: if_splits)
    from i(1) ne have i256: "i < 256" by (simp add: starts_with_def)
    note step = live_step [OF acc i(1), folded i(2)]
    have "\<exists>s. out' = (out @ [of_nat i]) @ s \<and> live ?acc ?n = codes s @ live acc' nbits'
        \<and> uint acc' < 2 ^ nbits' \<and> nbits' \<le> ?n"
      using n m ne rec step(2) acc(2) by (intro 1(1) [OF _ m refl]) auto
    then obtain s where "out' = out @ [of_nat i] @ s" "live ?acc ?n = codes s @ live acc' nbits'"
        "uint acc' < 2 ^ nbits'" "nbits' \<le> ?n" by auto
    with step(1) i256 show ?thesis
      by (intro exI [of _ "of_nat i # s"]) (simp add: unat_of_nat)
  qed
qed

lemma huffman_symbols_complete:
  assumes "live acc nbits = codes s @ r" and "no_symbol r"
    and "uint acc < 2 ^ nbits" and "nbits \<le> 56"
  shows "\<exists>acc'. huffman_symbols acc nbits out = Inr (acc', length r, out @ s)
    \<and> live acc' (length r) = r \<and> uint acc' < 2 ^ length r"
  using assms
proof (induction s arbitrary: acc nbits out)
  case Nil
  then have "huffman_match acc nbits 5 = None"
    by (simp add: huffman_match_None no_symbol_def)
  moreover have "nbits = length r" using Nil(1) by (metis append_Nil codes_simps(1) length_live)
  ultimately show ?case using Nil by (subst huffman_symbols.simps) auto
next
  case (Cons b s)
  note acc = Cons.prems(3,4)
  let ?i = "unat b"
  let ?l = "length (sym_code ?i)"
  have i: "?i < 257" "?i \<noteq> 256" using u8_less_256 [of b] by auto
  then have st: "starts_with (live acc nbits) ?i"
    using Cons.prems(1) by (simp add: starts_with_def)
  note step = live_step [OF acc st]
  have l: "5 \<le> ?l" "?l \<le> nbits"
    using sym_code_length(1) [OF i(1)] st by (auto simp: starts_with_def dest: prefix_length_le)
  have m: "huffman_match acc nbits 5 = Some (?i, ?l)"
    using st l by (simp add: huffman_match_iff [OF acc])
  have "huffman_symbols acc nbits out
      = huffman_symbols (acc AND (push_bit (nbits - ?l) 1 - 1)) (nbits - ?l) (out @ [b])"
    using m l i(2) by (subst huffman_symbols.simps) (simp add: Let_def)
  moreover have "live (acc AND (push_bit (nbits - ?l) 1 - 1)) (nbits - ?l) = codes s @ r"
    using step(1) Cons.prems(1) by simp
  ultimately show ?case
    using Cons.IH [OF _ Cons.prems(2) step(2), of "out @ [b]"] acc(2) by simp
qed

section \<open>Whole strings\<close>

lemma huffman_bytes_sound:
  assumes "huffman_bytes data acc nbits out = Inr (acc', nbits', out')" and "uint acc < 2 ^ nbits"
  shows "\<exists>s. out' = out @ s \<and> live acc nbits @ bits data = codes s @ live acc' nbits'
    \<and> uint acc' < 2 ^ nbits'"
  using assms
proof (induction data arbitrary: acc nbits out)
  case Nil
  then show ?case by (intro exI [of _ "[]"]) simp
next
  case (Cons b data)
  let ?acc = "push_bit 8 acc OR ucast b :: u64"
  from Cons.prems(1) have n: "nbits \<le> 48" by (auto simp: Let_def split: if_splits)
  note step = live_byte [OF Cons.prems(2) n, of b]
  from Cons.prems(1) n obtain acc1 n1 out1 where
    sy: "huffman_symbols ?acc (nbits + 8) out = Inr (acc1, n1, out1)" and
    rec: "huffman_bytes data acc1 n1 out1 = Inr (acc', nbits', out')"
    by (auto simp: Let_def bindE_eq_Inr)
  from huffman_symbols_sound [OF sy step(2)] n obtain s1 where
    s1: "out1 = out @ s1" "live ?acc (nbits + 8) = codes s1 @ live acc1 n1" "uint acc1 < 2 ^ n1" by auto
  from Cons.IH [OF rec s1(3)] obtain s2 where
    s2: "out' = out1 @ s2" "live acc1 n1 @ bits data = codes s2 @ live acc' nbits'" "uint acc' < 2 ^ nbits'"
    by auto
  have "live acc nbits @ bits (b # data) = live ?acc (nbits + 8) @ bits data"
    using step(1) by simp
  also have "\<dots> = codes (s1 @ s2) @ live acc' nbits'" using s1(2) s2(2) by simp
  finally show ?case using s1(1) s2(1,3) by (intro exI [of _ "s1 @ s2"]) simp
qed

text \<open>
  How a prefix of an encoded string splits: whole symbols, then a rest in which no symbol is complete.
\<close>

lemma encoded_prefix_split:
  assumes "w @ rest = codes s @ replicate k True" and "k < 8"
  shows "\<exists>s1 s2 r. s = s1 @ s2 \<and> w = codes s1 @ r \<and> no_symbol r \<and> r @ rest = codes s2 @ replicate k True"
  using assms(1)
proof (induction s arbitrary: w)
  case Nil
  then have w: "prefix w (replicate k True)" by (metis append_Nil codes_simps(1) prefixI)
  have "no_symbol w"
    using no_sym_in_padding [OF _ assms(2)] w
    by (auto simp: no_symbol_def starts_with_def dest: prefix_order.trans)
  with Nil show ?case by (intro exI [of _ "[]"] exI [of _ w]) simp
next
  case (Cons b s)
  let ?c = "sym_code (unat b)"
  have b: "unat b < 257" using u8_less_256 [of b] by simp
  have whole: "prefix ?c (w @ rest)" using Cons.prems by simp
  show ?case
  proof (cases "prefix ?c w")
    case True
    then obtain w' where w': "w = ?c @ w'" by (auto elim: prefixE)
    with Cons.prems have "w' @ rest = codes s @ replicate k True" by simp
    from Cons.IH [OF this] obtain s1 s2 r where "s = s1 @ s2" "w' = codes s1 @ r" "no_symbol r"
      "r @ rest = codes s2 @ replicate k True" by blast
    then show ?thesis using w' by (intro exI [of _ "b # s1"] exI [of _ s2] exI [of _ r]) simp
  next
    case False
    have "no_symbol w"
      unfolding no_symbol_def
    proof (intro allI notI)
      fix t assume t: "starts_with w t"
      then have "starts_with (w @ rest) t" by (auto simp: starts_with_def)
      moreover have "starts_with (w @ rest) (unat b)" using b whole by (simp add: starts_with_def)
      ultimately have "t = unat b" by (rule starts_with_unique)
      with t False show False by (simp add: starts_with_def)
    qed
    with Cons.prems show ?thesis by (intro exI [of _ "[]"] exI [of _ "b # s"] exI [of _ w]) simp
  qed
qed

lemma no_symbol_rest_short:
  assumes "no_symbol w" and "w @ rest = codes s @ replicate k True" and "k < 8"
  shows "length w < 30"
proof (cases s)
  case Nil
  with assms(2) have "length w \<le> k" by (metis append_Nil codes_simps(1) length_append length_replicate le_add1)
  with assms(3) show ?thesis by simp
next
  case (Cons b t)
  have b: "unat b < 257" using u8_less_256 [of b] by simp
  have "prefix (sym_code (unat b)) (w @ rest)" using assms(2) Cons by simp
  moreover have "\<not> prefix (sym_code (unat b)) w" using assms(1) b by (auto simp: no_symbol_def starts_with_def)
  ultimately have "strict_prefix w (sym_code (unat b))"
    by (metis prefixI prefix_order.le_less prefix_same_cases)
  then show ?thesis using prefix_length_less [of w "sym_code (unat b)"] sym_code_length(2) [OF b] by simp
qed

lemma huffman_bytes_complete:
  assumes "live acc nbits @ bits data = codes s @ replicate k True" and "k < 8"
    and "no_symbol (live acc nbits)" and "uint acc < 2 ^ nbits"
  shows "\<exists>acc'. huffman_bytes data acc nbits out = Inr (acc', k, out @ s)
    \<and> live acc' k = replicate k True \<and> uint acc' < 2 ^ k"
  using assms
proof (induction data arbitrary: acc nbits out s)
  case Nil
  then have "s = []"
  proof (cases s)
    case (Cons a t)
    have "unat a < 257" using u8_less_256 [of a] by simp
    with Nil Cons show ?thesis by (auto simp: no_symbol_def starts_with_def)
  qed simp
  moreover from this Nil have "live acc nbits = replicate k True" by simp
  moreover from this have "nbits = k" by (metis length_live length_replicate)
  ultimately show ?case using Nil by simp
next
  case (Cons b data)
  let ?acc = "push_bit 8 acc OR ucast b :: u64"
  have n: "nbits < 30" using no_symbol_rest_short [OF Cons.prems(3,1,2)] by simp
  then have n48: "nbits \<le> 48" by simp
  note step = live_byte [OF Cons.prems(4) n48, of b]
  have "live ?acc (nbits + 8) @ bits data = codes s @ replicate k True"
    using step(1) Cons.prems(1) by simp
  from encoded_prefix_split [OF this Cons.prems(2)] obtain s1 s2 r where
    r: "s = s1 @ s2" "live ?acc (nbits + 8) = codes s1 @ r" "no_symbol r"
      "r @ bits data = codes s2 @ replicate k True" by blast
  from huffman_symbols_complete [OF r(2,3) step(2)] n48 obtain acc1 where
    a1: "huffman_symbols ?acc (nbits + 8) out = Inr (acc1, length r, out @ s1)"
      "live acc1 (length r) = r" "uint acc1 < 2 ^ length r" by auto
  have "huffman_bytes (b # data) acc nbits out = huffman_bytes data acc1 (length r) (out @ s1)"
    using n a1(1) by (simp add: Let_def)
  with Cons.IH [of acc1 "length r" s2 "out @ s1"] r a1 Cons.prems(2) show ?case by simp
qed

lemma uint_ones:
  assumes "n < 64"
  shows "uint (push_bit n 1 - 1 :: u64) = 2 ^ n - 1"
proof -
  have "(push_bit n 1 - 1 :: u64) = take_bit n (- 1)"
    by (simp add: mask_eq_exp_minus_1 take_bit_minus_one_eq_mask)
  then have "uint (push_bit n 1 - 1 :: u64) = take_bit n (uint (- 1 :: u64))"
    by (simp only: unsigned_take_bit_eq)
  also have "\<dots> = mask n" using assms by (simp add: unsigned_minus_1_eq_mask)
  finally show ?thesis by (simp add: mask_eq_exp_minus_1)
qed

text \<open>
  C23. The Huffman decoder is exact: it returns \<open>s\<close> if and only if the bits of the input are the
  RFC 7541 codes of \<open>s\<close>, in order, followed by fewer than eight one bits. So decoding inverts
  encoding for every byte string, no two accepted inputs of the same string differ but in whole
  padding, and truncated codes, EOS, over-long padding and padding with a zero bit are all rejected.
  The 56-bit limit of the accumulator never rejects a valid string.
\<close>

theorem huffman_decode_iff:
  "huffman_decode data = Inr s \<longleftrightarrow> (\<exists>k < 8. bits data = codes s @ replicate k True)"
proof
  assume "huffman_decode data = Inr s"
  then obtain acc n where b: "huffman_bytes data 0 0 [] = Inr (acc, n, s)" and n: "n < 8"
    and pad: "0 < n \<longrightarrow> acc = push_bit n 1 - 1"
    by (auto simp: huffman_decode_def bindE_eq_Inr split: if_splits)
  from huffman_bytes_sound [OF b] have eq: "bits data = codes s @ live acc n"
    by (auto simp: live_def)
  have "live acc n = replicate n True"
  proof (cases "n = 0")
    case False
    with n pad uint_ones [of n] have "uint acc = 2 ^ n - 1" by simp
    then show ?thesis by (simp add: live_def int_bits_ones)
  qed (simp add: live_def)
  with eq n show "\<exists>k < 8. bits data = codes s @ replicate k True" by auto
next
  assume "\<exists>k < 8. bits data = codes s @ replicate k True"
  then obtain k where k: "k < 8" "bits data = codes s @ replicate k True" by blast
  have "no_symbol (live 0 0)" by (rule no_symbol_short) simp
  from huffman_bytes_complete [OF _ k(1) this, of data s "[]"] k(2) obtain acc where
    a: "huffman_bytes data 0 0 [] = Inr (acc, k, s)" "live acc k = replicate k True" "uint acc < 2 ^ k"
    by (auto simp: live_def)
  have "acc = push_bit k 1 - 1" if "0 < k"
  proof -
    have "uint acc = 2 ^ k - 1"
      using a(2,3) by (simp add: live_def int_bits_ones [symmetric] int_bits_inj)
    moreover have "uint (push_bit k 1 - 1 :: u64) = 2 ^ k - 1" using k(1) by (intro uint_ones) simp
    ultimately show ?thesis by (simp only: word_uint_eq_iff)
  qed
  with a(1) k(1) show "huffman_decode data = Inr s" by (auto simp: huffman_decode_def)
qed

end
