(* ===== verification/Codec.thy ===== *)
theory Codec
  imports Prelude "HOL-Library.Sublist"
begin

text \<open>
  The interface of the self-delimiting byte codes of the program: QUIC variable-length integers
  (\<^verbatim>\<open>h3.rs\<close>), QPACK prefix integers (\<^verbatim>\<open>qpack.rs\<close>) and HTTP/3 frames. A code promises
  that its decoder, run on an encoding followed by anything, returns the value and the number of
  bytes of the encoding. Clients use that encodings are prefix free, that a decoded concatenation
  gives the encoded items back, and that an incomplete encoding is never taken for a value.
\<close>

locale prefix_codec =
  fixes enc :: "'a \<Rightarrow> bytes"
    and dec :: "bytes \<Rightarrow> ('a \<times> usize) option"
    and valid :: "'a \<Rightarrow> bool"
  assumes dec_enc: "valid a \<Longrightarrow> dec (enc a @ rest) = Some (a, length (enc a))"
begin

lemma dec_enc_alone: "valid a \<Longrightarrow> dec (enc a) = Some (a, length (enc a))"
  using dec_enc [of a "[]"] by simp

lemma uniquely_decodable:
  assumes "valid a" "valid b" "enc a @ r = enc b @ s"
  shows "a = b \<and> r = s"
proof -
  have "dec (enc a @ r) = Some (a, length (enc a))" using assms(1) by (rule dec_enc)
  moreover have "dec (enc b @ s) = Some (b, length (enc b))" using assms(2) by (rule dec_enc)
  ultimately have "a = b" using assms(3) by simp
  with assms(3) show ?thesis by simp
qed

lemma enc_prefix_free: "valid a \<Longrightarrow> valid b \<Longrightarrow> prefix (enc a) (enc b) \<Longrightarrow> a = b"
  using uniquely_decodable [of a b _ "[]"] by (auto simp: prefix_def)

lemma enc_inj: "valid a \<Longrightarrow> valid b \<Longrightarrow> enc a = enc b \<Longrightarrow> a = b"
  by (simp add: enc_prefix_free)

lemma concat_inj:
  assumes "list_all valid as" "list_all valid bs" "length as = length bs"
    and "concat (map enc as) @ r = concat (map enc bs) @ s"
  shows "as = bs \<and> r = s"
  using assms(3,1,2,4)
  by (induction as bs rule: list_induct2) (auto dest: uniquely_decodable)

end

text \<open>A code whose decoder also waits for more input on every proper prefix of an encoding.\<close>

locale streaming_codec = prefix_codec +
  assumes dec_partial: "valid a \<Longrightarrow> strict_prefix p (enc a) \<Longrightarrow> dec p = None"
begin

lemma dec_prefix_cases:
  assumes "valid a" "prefix p (enc a @ rest)"
  shows "dec p = None \<and> strict_prefix p (enc a) \<or> dec p = Some (a, length (enc a)) \<and> prefix (enc a) p"
proof (cases "prefix (enc a) p")
  case True
  then obtain r where "p = enc a @ r" by (auto elim: prefixE)
  with assms(1) show ?thesis by (simp add: dec_enc)
next
  case False
  with assms(2) have "strict_prefix p (enc a)"
    by (metis prefixI prefix_order.le_less prefix_same_cases)
  with assms(1) show ?thesis by (simp add: dec_partial)
qed

end

end
