(* ===== verification/Qpack.thy ===== *)
theory Qpack
  imports Huffman Codec
begin

text \<open>
  The QPACK encoder and decoder, \<^verbatim>\<open>pkgs/microdoh3/src/qpack.rs\<close>, with the static table of
  \<^verbatim>\<open>qpack_static.rs\<close>. The readers advance a position that the caller owns, also when they
  fail, so a reader is a function from the position to a result and the new position, and \<open>?\<close> is
  \<open>bindP\<close>. The iterator \<open>Decoder\<close> is a record of the buffer and that position;
  \<open>decoder_next\<close> is its \<^verbatim>\<open>next\<close>.
\<close>

section \<open>Data\<close>

definition STATIC_TABLE :: "(string \<times> string) list" where
  "STATIC_TABLE = [
   ('':authority'', ''''),
   ('':path'', ''/''),
   (''age'', ''0''),
   (''content-disposition'', ''''),
   (''content-length'', ''0''),
   (''cookie'', ''''),
   (''date'', ''''),
   (''etag'', ''''),
   (''if-modified-since'', ''''),
   (''if-none-match'', ''''),
   (''last-modified'', ''''),
   (''link'', ''''),
   (''location'', ''''),
   (''referer'', ''''),
   (''set-cookie'', ''''),
   ('':method'', ''CONNECT''),
   ('':method'', ''DELETE''),
   ('':method'', ''GET''),
   ('':method'', ''HEAD''),
   ('':method'', ''OPTIONS''),
   ('':method'', ''POST''),
   ('':method'', ''PUT''),
   ('':scheme'', ''http''),
   ('':scheme'', ''https''),
   ('':status'', ''103''),
   ('':status'', ''200''),
   ('':status'', ''304''),
   ('':status'', ''404''),
   ('':status'', ''503''),
   (''accept'', ''*/*''),
   (''accept'', ''application/dns-message''),
   (''accept-encoding'', ''gzip, deflate, br''),
   (''accept-ranges'', ''bytes''),
   (''access-control-allow-headers'', ''cache-control''),
   (''access-control-allow-headers'', ''content-type''),
   (''access-control-allow-origin'', ''*''),
   (''cache-control'', ''max-age=0''),
   (''cache-control'', ''max-age=2592000''),
   (''cache-control'', ''max-age=604800''),
   (''cache-control'', ''no-cache''),
   (''cache-control'', ''no-store''),
   (''cache-control'', ''public, max-age=31536000''),
   (''content-encoding'', ''br''),
   (''content-encoding'', ''gzip''),
   (''content-type'', ''application/dns-message''),
   (''content-type'', ''application/javascript''),
   (''content-type'', ''application/json''),
   (''content-type'', ''application/x-www-form-urlencoded''),
   (''content-type'', ''image/gif''),
   (''content-type'', ''image/jpeg''),
   (''content-type'', ''image/png''),
   (''content-type'', ''text/css''),
   (''content-type'', ''text/html;charset=utf-8''),
   (''content-type'', ''text/plain''),
   (''content-type'', ''text/plain;charset=utf-8''),
   (''range'', ''bytes=0-''),
   (''strict-transport-security'', ''max-age=31536000''),
   (''strict-transport-security'', ''max-age=31536000;includesubdomains''),
   (''strict-transport-security'', ''max-age=31536000;includesubdomains;preload''),
   (''vary'', ''accept-encoding''),
   (''vary'', ''origin''),
   (''x-content-type-options'', ''nosniff''),
   (''x-xss-protection'', ''1; mode=block''),
   ('':status'', ''100''),
   ('':status'', ''204''),
   ('':status'', ''206''),
   ('':status'', ''302''),
   ('':status'', ''400''),
   ('':status'', ''403''),
   ('':status'', ''421''),
   ('':status'', ''425''),
   ('':status'', ''500''),
   (''accept-language'', ''''),
   (''access-control-allow-credentials'', ''FALSE''),
   (''access-control-allow-credentials'', ''TRUE''),
   (''access-control-allow-headers'', ''*''),
   (''access-control-allow-methods'', ''get''),
   (''access-control-allow-methods'', ''get, post, options''),
   (''access-control-allow-methods'', ''options''),
   (''access-control-expose-headers'', ''content-length''),
   (''access-control-request-headers'', ''content-type''),
   (''access-control-request-method'', ''get''),
   (''access-control-request-method'', ''post''),
   (''alt-svc'', ''clear''),
   (''authorization'', ''''),
   (''content-security-policy'', ''script-src '' @ [CHR 0x27] @ ''none'' @ [CHR 0x27] @ '';object-src '' @ [CHR 0x27]
      @ ''none'' @ [CHR 0x27] @ '';base-uri '' @ [CHR 0x27] @ ''none'' @ [CHR 0x27]),
   (''early-data'', ''1''),
   (''expect-ct'', ''''),
   (''forwarded'', ''''),
   (''if-range'', ''''),
   (''origin'', ''''),
   (''purpose'', ''prefetch''),
   (''server'', ''''),
   (''timing-allow-origin'', ''*''),
   (''upgrade-insecure-requests'', ''1''),
   (''user-agent'', ''''),
   (''x-forwarded-for'', ''''),
   (''x-frame-options'', ''deny''),
   (''x-frame-options'', ''sameorigin'')]"

datatype qpack_error = Truncated | DynamicTable | BadIndex u64 | HuffmanE huffman_error

datatype name_ref = NameStatic string | NameWire bytes

fun name_bytes :: "name_ref \<Rightarrow> bytes" where
  "name_bytes (NameStatic s) = as_bytes s"
| "name_bytes (NameWire v) = v"

datatype value_ref = ValueStatic string | ValueWire bytes bool

fun value_decode :: "value_ref \<Rightarrow> (bytes, qpack_error) result" where
  "value_decode (ValueStatic s) = Inr (as_bytes s)"
| "value_decode (ValueWire b False) = Inr b"
| "value_decode (ValueWire b True) = map_err HuffmanE (huffman_decode b)"

record field_line =
  fl_name :: name_ref
  fl_value :: value_ref

record decoder =
  d_buf :: bytes
  d_pos :: usize

type_synonym 'a reader = "usize \<Rightarrow> ('a, qpack_error) result \<times> usize"

definition bindP :: "'a reader \<Rightarrow> ('a \<Rightarrow> 'b reader) \<Rightarrow> 'b reader" where
  "bindP m f = (\<lambda>pos. case m pos of (Inl e, pos') \<Rightarrow> (Inl e, pos') | (Inr a, pos') \<Rightarrow> f a pos')"

definition returnP :: "'a \<Rightarrow> 'a reader" where
  "returnP a = (\<lambda>pos. (Inr a, pos))"

definition failP :: "qpack_error \<Rightarrow> 'a reader" where
  "failP e = (\<lambda>pos. (Inl e, pos))"

definition liftP :: "('a, qpack_error) result \<Rightarrow> 'a reader" where
  "liftP r = (\<lambda>pos. (r, pos))"

section \<open>Prefix integers\<close>

function prefix_int_tail :: "u64 \<Rightarrow> bytes" where
  "prefix_int_tail v =
    (if v \<ge> 128 then ((ucast v AND 0x7F) OR 0x80) # prefix_int_tail (drop_bit 7 v) else [ucast v])"
  by pat_completeness auto
termination
proof (relation "measure unat")
  fix v :: u64
  assume "v \<ge> 128"
  then have "128 \<le> unat v" by (simp add: word_le_nat_alt)
  moreover have "unat (drop_bit 7 v) = unat v div 128"
    by (simp only: unat_drop_bit_eq) (simp add: drop_bit_eq_div)
  ultimately show "(drop_bit 7 v, v) \<in> measure unat" by simp
qed simp

declare prefix_int_tail.simps [simp del]

definition write_prefix_int :: "bytes \<Rightarrow> nat \<Rightarrow> u8 \<Rightarrow> u64 \<Rightarrow> bytes" where
  "write_prefix_int out prefix_bits first_byte value =
    (let max_inline = push_bit prefix_bits 1 - 1 in
     if value < max_inline then out @ [first_byte OR ucast value]
     else out @ [first_byte OR ucast max_inline] @ prefix_int_tail (value - max_inline))"

definition checked_add :: "u64 \<Rightarrow> u64 \<Rightarrow> u64 option" where
  "checked_add a b = (if unat a + unat b < 2 ^ 64 then Some (a + b) else None)"

function read_prefix_loop :: "bytes \<Rightarrow> nat \<Rightarrow> u64 \<Rightarrow> u64 reader" where
  "read_prefix_loop buf shift value pos =
    (case get buf pos of
       None \<Rightarrow> (Inl Truncated, pos)
     | Some b \<Rightarrow>
         (case checked_add value (push_bit shift (ucast (b AND 0x7F))) of
            None \<Rightarrow> (Inl Truncated, pos + 1)
          | Some value' \<Rightarrow>
              if b AND 0x80 = 0 then (Inr value', pos + 1)
              else if shift + 7 > 56 then (Inl Truncated, pos + 1)
              else read_prefix_loop buf (shift + 7) value' (pos + 1)))"
  by pat_completeness auto
termination
  by (relation "measure (\<lambda>(buf, shift, value, pos). 64 - shift)") auto

declare read_prefix_loop.simps [simp del]

definition read_prefix_int :: "bytes \<Rightarrow> nat \<Rightarrow> u64 reader" where
  "read_prefix_int buf prefix_bits pos =
    (case get buf pos of
       None \<Rightarrow> (Inl Truncated, pos)
     | Some first \<Rightarrow>
         let max_inline = push_bit prefix_bits 1 - 1;
             value = ucast first AND max_inline
         in if value < max_inline then (Inr value, pos + 1)
            else read_prefix_loop buf 0 value (pos + 1))"

section \<open>Encoder\<close>

definition encode_field :: "bytes \<Rightarrow> string \<times> string \<Rightarrow> bytes" where
  "encode_field out f =
    (case f of (name, value) \<Rightarrow>
       let out = write_prefix_int out 3 0x20 (of_nat (length name));
           out = out @ as_bytes name;
           out = write_prefix_int out 7 0x00 (of_nat (length value))
       in out @ as_bytes value)"

definition encode_field_section :: "(string \<times> string) list \<Rightarrow> bytes \<Rightarrow> bytes" where
  "encode_field_section flds out = foldl encode_field (out @ [0] @ [0]) flds"

section \<open>Decoder\<close>

definition decoder_new :: "bytes \<Rightarrow> (decoder, qpack_error) result" where
  "decoder_new buf =
    (case bindP (read_prefix_int buf 8) (\<lambda>required_insert_count.
       bindP (read_prefix_int buf 7) (\<lambda>delta_base.
       if required_insert_count \<noteq> 0 then failP DynamicTable else returnP ())) 0 of
       (Inl e, _) \<Rightarrow> Inl e
     | (Inr _, pos) \<Rightarrow> Inr \<lparr>d_buf = buf, d_pos = pos\<rparr>)"

definition static_entry :: "u64 \<Rightarrow> (string \<times> string) reader" where
  "static_entry idx = liftP (ok_or (get STATIC_TABLE (unat idx)) (BadIndex idx))"

text \<open>\<open>raw = &buf[pos..pos + len]\<close> with the bounds check before it; \<open>usize\<close> is 64 bits wide.\<close>

definition take_raw :: "bytes \<Rightarrow> u64 \<Rightarrow> bytes reader" where
  "take_raw buf len pos =
    (if pos + unat len \<ge> 2 ^ 64 then (Inl Truncated, pos)
     else let end = pos + unat len in
       if end > length buf then (Inl Truncated, pos)
       else (Inr (take (end - pos) (drop pos buf)), end))"

text \<open>The value string of the two literal forms: H bit, 7-bit length prefix, raw bytes.\<close>

definition read_value :: "bytes \<Rightarrow> value_ref reader" where
  "read_value buf pos =
    (case get buf pos of
       None \<Rightarrow> (Inl Truncated, pos)
     | Some first \<Rightarrow>
         let huffman = (first AND 0x80 \<noteq> 0) in
         bindP (read_prefix_int buf 7) (\<lambda>len.
         bindP (take_raw buf len) (\<lambda>raw.
         returnP (ValueWire raw huffman))) pos)"

definition decode_line :: "bytes \<Rightarrow> u8 \<Rightarrow> field_line reader" where
  "decode_line buf b pos =
    (if b AND 0x80 \<noteq> 0 then
       if b AND 0x40 = 0 then (Inl DynamicTable, pos + 1)
       else
         bindP (read_prefix_int buf 6) (\<lambda>idx.
         bindP (static_entry idx) (\<lambda>(name, value).
         returnP \<lparr>fl_name = NameStatic name, fl_value = ValueStatic value\<rparr>)) pos
     else if b AND 0xC0 = 0x40 then
       if b AND 0x10 = 0 then (Inl DynamicTable, pos + 1)
       else
         bindP (read_prefix_int buf 4) (\<lambda>idx.
         bindP (static_entry idx) (\<lambda>(name, _).
         bindP (read_value buf) (\<lambda>v.
         returnP \<lparr>fl_name = NameStatic name, fl_value = v\<rparr>))) pos
     else if b AND 0xE0 = 0x20 then
       let huffman_name = (b AND 0x08 \<noteq> 0) in
       bindP (read_prefix_int buf 3) (\<lambda>name_len.
       bindP (take_raw buf name_len) (\<lambda>raw_name.
       bindP (liftP (if huffman_name then map_err HuffmanE (huffman_decode raw_name) else Inr raw_name)) (\<lambda>name.
       bindP (read_value buf) (\<lambda>v.
       returnP \<lparr>fl_name = NameWire name, fl_value = v\<rparr>)))) pos
     else (Inl DynamicTable, pos + 1))"

definition decoder_next :: "decoder \<Rightarrow> ((field_line, qpack_error) result \<times> decoder) option" where
  "decoder_next d =
    (if d_pos d \<ge> length (d_buf d) then None
     else case decode_line (d_buf d) (d_buf d ! d_pos d) (d_pos d) of
       (r, pos) \<Rightarrow> Some (r, d\<lparr>d_pos := pos\<rparr>))"

section \<open>Progress and bounds\<close>

text \<open>A reader that stays inside the buffer and never moves back.\<close>

definition forward :: "bytes \<Rightarrow> 'a reader \<Rightarrow> bool" where
  "forward buf m \<longleftrightarrow> (\<forall>pos. pos \<le> length buf \<longrightarrow> pos \<le> snd (m pos) \<and> snd (m pos) \<le> length buf)"

lemma forward_bindP [intro]: "forward buf m \<Longrightarrow> (\<And>a. forward buf (f a)) \<Longrightarrow> forward buf (bindP m f)"
  unfolding forward_def bindP_def by (auto split: prod.splits sum.splits) (metis le_trans snd_conv)+

lemma forward_simps [intro]: "forward buf (returnP a)" "forward buf (failP e)" "forward buf (liftP r)"
    "forward buf (static_entry i)"
  by (simp_all add: forward_def returnP_def failP_def liftP_def static_entry_def)

lemma read_prefix_loop_forward:
  "pos \<le> length buf \<Longrightarrow> pos \<le> snd (read_prefix_loop buf shift v pos)
    \<and> snd (read_prefix_loop buf shift v pos) \<le> length buf"
proof (induction buf shift v pos rule: read_prefix_loop.induct)
  case (1 buf shift v pos)
  then show ?case
    by (subst (1 2) read_prefix_loop.simps) (fastforce split: option.splits)
qed

lemma read_prefix_int_advances:
  "pos < length buf \<Longrightarrow> pos < snd (read_prefix_int buf n pos) \<and> snd (read_prefix_int buf n pos) \<le> length buf"
  using read_prefix_loop_forward [of "pos + 1" buf 0]
  by (auto simp: read_prefix_int_def Let_def split: option.splits) (metis Suc_eq_plus1 Suc_le_eq)+

lemma forward_read_prefix_int [intro]: "forward buf (read_prefix_int buf n)"
  unfolding forward_def
proof (intro allI impI)
  fix pos
  assume "pos \<le> length buf"
  then show "pos \<le> snd (read_prefix_int buf n pos) \<and> snd (read_prefix_int buf n pos) \<le> length buf"
    using read_prefix_int_advances [of pos buf n]
    by (cases "pos < length buf") (auto simp: read_prefix_int_def split: option.splits)
qed

lemma forward_take_raw [intro]: "forward buf (take_raw buf len)"
  by (auto simp: forward_def take_raw_def Let_def)

lemma forward_read_value [intro]: "forward buf (read_value buf)"
proof -
  have "forward buf (bindP (read_prefix_int buf 7) (\<lambda>len. bindP (take_raw buf len)
      (\<lambda>raw. returnP (ValueWire raw h))))" for h
    by auto
  then show ?thesis
    by (auto simp: forward_def read_value_def Let_def split: option.splits)
qed

lemma bindP_advances:
  assumes "pos < length buf" and "\<And>a. forward buf (f a)"
  shows "pos < snd (bindP (read_prefix_int buf n) f pos) \<and> snd (bindP (read_prefix_int buf n) f pos) \<le> length buf"
proof (cases "read_prefix_int buf n pos")
  case (Pair r p)
  show ?thesis
  proof (cases r)
    case (Inl e)
    with Pair read_prefix_int_advances [OF assms(1), of n] show ?thesis by (simp add: bindP_def)
  next
    case (Inr a)
    with Pair read_prefix_int_advances [OF assms(1), of n] assms(2) [of a] show ?thesis
      by (auto simp: bindP_def forward_def intro: less_le_trans)
  qed
qed

lemma decode_line_advances:
  assumes "pos < length buf"
  shows "pos < snd (decode_line buf b pos) \<and> snd (decode_line buf b pos) \<le> length buf"
proof -
  note * = bindP_advances [OF assms]
  show ?thesis
    using assms unfolding decode_line_def Let_def
    by (auto intro!: * forward_bindP split: prod.split)
qed

text \<open>
  The field-line iterator always makes progress and stays in its buffer: a step that yields a line
  or an error moves the position strictly forward and not past the end, so no slice or index of
  \<open>next\<close> is out of range and the iteration ends after at most as many steps as the section has
  bytes.
\<close>

lemma decoder_next_progress:
  "case decoder_next d of
     None \<Rightarrow> d_pos d \<ge> length (d_buf d)
   | Some (r, d') \<Rightarrow> d_buf d' = d_buf d \<and> d_pos d < d_pos d' \<and> d_pos d' \<le> length (d_buf d)"
  using decode_line_advances [of "d_pos d" "d_buf d" "d_buf d ! d_pos d"]
  by (auto simp: decoder_next_def split: prod.split)

section \<open>Prefix integers: round trip\<close>

lemma unat_and_7F: "unat (x AND 0x7F :: u8) = unat x mod 128"
proof -
  have "x AND 0x7F = take_bit 7 x" by (simp add: take_bit_eq_mask mask_eq_exp_minus_1)
  then have "unat (x AND 0x7F) = take_bit 7 (unat x)" by (simp only: unsigned_take_bit_eq)
  then show ?thesis by (simp add: take_bit_eq_mod)
qed

lemma unat_ucast_u8: "unat (ucast (v :: u64) :: u8) = unat v mod 256"
  by (simp only: unsigned_ucast_eq take_bit_eq_mod) simp

lemma unat_ucast_u64: "unat (ucast (b :: u8) :: u64) = unat b"
  using u8_less_256 [of b] by (simp add: unsigned_ucast_eq take_bit_nat_eq_self)

lemma top_bit_u8: "(x :: u8) AND 0x80 = 0 \<longleftrightarrow> \<not> bit x 7"
  using and_bit_eq_0 [of x 7] by simp

lemma unat_bit_7: "bit (x :: u8) 7 \<longleftrightarrow> 128 \<le> unat x"
proof -
  have "bit x 7 \<longleftrightarrow> bit (unat x) 7" by (simp add: bit_unsigned_iff)
  also have "\<dots> \<longleftrightarrow> odd (unat x div 128)" by (simp add: bit_iff_odd)
  also have "\<dots> \<longleftrightarrow> 128 \<le> unat x"
  proof (cases "128 \<le> unat x")
    case True
    then have "unat x div 128 = 1" using u8_less_256 [of x] by (intro div_nat_eqI) simp_all
    with True show ?thesis by simp
  qed simp
  finally show ?thesis .
qed

lemma read_prefix_loop_tail:
  assumes "shift \<le> 56" "7 dvd shift" "unat v < 2 ^ (63 - shift)"
    and "unat acc + unat v * 2 ^ shift < 2 ^ 64" and "length pre = pos"
  shows "\<exists>r. read_prefix_loop (pre @ prefix_int_tail v @ rest) shift acc pos
      = (Inr r, pos + length (prefix_int_tail v)) \<and> unat r = unat acc + unat v * 2 ^ shift"
  using assms
proof (induction v arbitrary: shift acc pre pos rule: prefix_int_tail.induct)
  case (1 v)
  let ?s = "2 ^ shift :: nat"
  have chunk: "unat (push_bit shift (ucast (x AND 0x7F)) :: u64) = unat v mod 128 * ?s"
    if x: "unat (x AND 0x7F) = unat v mod 128" for x :: u8
  proof -
    have "unat v mod 128 * ?s \<le> unat v * ?s" by simp
    with 1(5) have "unat v mod 128 * ?s < 2 ^ 64" by linarith
    then show ?thesis
      using unat_push_or [of 0 shift "ucast (x AND 0x7F) :: u64"] x by (simp add: unat_ucast_u64)
  qed
  have sum: "unat v mod 128 * ?s + unat v div 128 * (128 * ?s) = unat v * ?s"
  proof -
    have "unat v * ?s = (unat v div 128 * 128 + unat v mod 128) * ?s" by simp
    also have "\<dots> = unat v div 128 * (128 * ?s) + unat v mod 128 * ?s"
      by (simp only: distrib_right mult.assoc)
    finally show ?thesis by (simp only: add.commute)
  qed
  then have "unat v mod 128 * ?s \<le> unat v * ?s" by linarith
  with 1(5) have small: "unat acc + unat v mod 128 * ?s < 2 ^ 64" by linarith
  have add: "\<exists>acc'. checked_add acc (push_bit shift (ucast (x AND 0x7F))) = Some acc'
      \<and> unat acc' = unat acc + unat v mod 128 * ?s" if "unat (x AND 0x7F) = unat v mod 128" for x :: u8
    using chunk [OF that] small by (simp add: checked_add_def unat_word_ariths)
  show ?case
  proof (cases "v \<ge> 128")
    case True
    let ?b = "(ucast v AND 0x7F) OR 0x80 :: u8"
    have tail: "prefix_int_tail v = ?b # prefix_int_tail (drop_bit 7 v)"
      using True by (subst prefix_int_tail.simps) simp
    have b: "?b AND 0x7F = ucast v AND 0x7F" "?b AND 0x80 \<noteq> 0"
      by (simp_all add: bit.conj_disj_distrib2 top_bit_u8 bit_or_iff)
    then have "unat (?b AND 0x7F) = unat v mod 128" by (simp add: unat_and_7F unat_ucast_u8 mod_mod_cancel)
    from add [OF this] obtain acc' where acc': "checked_add acc (push_bit shift (ucast (?b AND 0x7F))) = Some acc'"
      "unat acc' = unat acc + unat v mod 128 * ?s" by blast
    have v128: "128 \<le> unat v" using True by (simp add: word_le_nat_alt)
    have shift: "shift + 7 \<le> 56"
    proof (rule ccontr)
      assume "\<not> shift + 7 \<le> 56"
      with 1(2,3) have "shift = 56" by (auto elim!: dvdE)
      with 1(4) v128 show False by simp
    qed
    have d: "unat (drop_bit 7 v) = unat v div 128"
      by (simp only: unat_drop_bit_eq) (simp add: drop_bit_eq_div)
    have "unat v div 128 < 2 ^ (63 - (shift + 7))"
    proof -
      have "63 - shift = (63 - (shift + 7)) + 7" using shift by simp
      then have "(2 :: nat) ^ (63 - shift) = 2 ^ (63 - (shift + 7)) * 2 ^ 7"
        by (simp only: power_add)
      with 1(4) show ?thesis by (simp add: div_less_iff_less_mult)
    qed
    moreover have "unat acc' + unat v div 128 * 2 ^ (shift + 7) = unat acc + unat v * ?s"
      using acc'(2) sum by (simp add: power_add mult.commute)
    ultimately have "\<exists>r. read_prefix_loop ((pre @ [?b]) @ prefix_int_tail (drop_bit 7 v) @ rest) (shift + 7) acc' (pos + 1)
        = (Inr r, pos + 1 + length (prefix_int_tail (drop_bit 7 v))) \<and> unat r = unat acc + unat v * ?s"
      using 1(1) [OF True, of "shift + 7" acc' "pre @ [?b]" "pos + 1"] shift 1(3,5,6) d by simp
    then show ?thesis
      using b(2) acc'(1) shift 1(6) unfolding tail
      by (subst read_prefix_loop.simps) (auto simp: get_def nth_append)
  next
    case False
    have tail: "prefix_int_tail v = [ucast v]" using False by (subst prefix_int_tail.simps) simp
    from False have v: "unat v < 128" by (simp add: word_le_nat_alt)
    have b: "(ucast v :: u8) AND 0x80 = 0" using v by (simp add: top_bit_u8 unat_bit_7 unat_ucast_u8)
    have "unat ((ucast v :: u8) AND 0x7F) = unat v mod 128"
      by (simp add: unat_and_7F unat_ucast_u8 mod_mod_cancel)
    from add [OF this] b v 1(6) show ?thesis
      unfolding tail by (subst read_prefix_loop.simps) (auto simp: get_def nth_append)
  qed
qed

lemma ones_u64: "n \<le> 8 \<Longrightarrow> unat (push_bit n 1 - 1 :: u64) = 2 ^ n - 1"
proof -
  assume n: "n \<le> 8"
  have "int (unat (push_bit n 1 - 1 :: u64)) = int (2 ^ n - 1)"
    unfolding int_unat using n by (subst uint_ones) (simp_all add: of_nat_diff)
  then show ?thesis by (simp only: of_nat_eq_iff)
qed

lemma and_ones_u64: "n \<le> 8 \<Longrightarrow> unat (ucast (b :: u8) AND (push_bit n 1 - 1) :: u64) = unat b mod 2 ^ n"
proof -
  assume n: "n \<le> 8"
  have "(push_bit n 1 - 1 :: u64) = mask n" by (simp add: mask_eq_exp_minus_1)
  then have "unat (ucast b AND (push_bit n 1 - 1) :: u64) = take_bit n (unat (ucast b :: u64))"
    by (simp only: take_bit_eq_mask [symmetric] unsigned_take_bit_eq)
  then show ?thesis by (simp only: unat_ucast_u64 take_bit_eq_mod)
qed

text \<open>Or-ing a short value into a first byte whose low bits are clear.\<close>

lemma first_byte_low:
  assumes "n \<le> 8" "take_bit n (first :: u8) = 0" "unat x < 2 ^ n"
  shows "unat (first OR ucast (x :: u64)) mod 2 ^ n = unat x"
proof -
  have "take_bit n (unat (first OR ucast x)) = unat (take_bit n (first OR ucast x))"
    by (simp only: unsigned_take_bit_eq)
  also have "\<dots> = unat (take_bit n (ucast x :: u8))" using assms(2) by (simp only: take_bit_or or.left_neutral)
  also have "\<dots> = take_bit n (unat x mod 256)" by (simp only: unsigned_take_bit_eq unat_ucast_u8)
  also have "\<dots> = unat x"
  proof -
    have "(2 :: nat) ^ n \<le> 2 ^ 8" using assms(1) by (intro power_increasing) simp_all
    with assms(3) show ?thesis by (simp add: take_bit_eq_mod)
  qed
  finally show ?thesis by (simp only: take_bit_eq_mod)
qed

text \<open>The decoder as the codec interface has it: value and bytes consumed, from the start.\<close>

definition prefix_int_dec :: "nat \<Rightarrow> bytes \<Rightarrow> (u64 \<times> usize) option" where
  "prefix_int_dec n buf = (case read_prefix_int buf n 0 of (Inr v, k) \<Rightarrow> Some (v, k) | _ \<Rightarrow> None)"

lemma write_prefix_int_append: "write_prefix_int out n f v = out @ write_prefix_int [] n f v"
  by (simp add: write_prefix_int_def Let_def)

lemma read_write_prefix_int:
  assumes n: "1 \<le> n" "n \<le> 8" and f: "take_bit n first = 0" and v: "unat v < 2 ^ 63 + (2 ^ n - 1)"
  shows "read_prefix_int (pre @ write_prefix_int [] n first v @ rest) n (length pre)
    = (Inr v, length pre + length (write_prefix_int [] n first v))"
proof -
  let ?m = "push_bit n 1 - 1 :: u64"
  have m: "unat ?m = 2 ^ n - 1" using n by (intro ones_u64) simp
  have lt: "v < ?m \<longleftrightarrow> unat v < 2 ^ n - 1" by (simp only: word_less_nat_alt m)
  have pos: "(1 :: nat) \<le> 2 ^ n - 1"
  proof -
    have "(2 :: nat) ^ 1 \<le> 2 ^ n" using n(1) by (intro power_increasing) simp_all
    then show ?thesis by simp
  qed
  show ?thesis
  proof (cases "v < ?m")
    case True
    let ?b = "first OR ucast v :: u8"
    have "unat v < 2 ^ n - 1" using True lt by blast
    then have "unat (ucast ?b AND ?m) = unat v"
      using first_byte_low [OF n(2) f, of v] by (simp only: and_ones_u64 [OF n(2)])
    then have "ucast ?b AND ?m = v" by (simp only: word_unat_eq_iff)
    with True show ?thesis
      by (simp add: write_prefix_int_def read_prefix_int_def Let_def)
  next
    case False
    let ?b = "first OR ucast ?m :: u8" and ?v = "v - ?m"
    have ge: "2 ^ n - 1 \<le> unat v" using False lt by simp
    have "unat (ucast ?b AND ?m) = unat ?m"
      using first_byte_low [OF n(2) f, of ?m] m pos by (simp add: and_ones_u64 [OF n(2)] del: push_bit_of_1)
    then have b: "ucast ?b AND ?m = ?m" by (simp only: word_unat_eq_iff)
    have sub: "unat ?v = unat v - (2 ^ n - 1)"
      using ge unfolding m [symmetric] by (simp only: unat_sub word_le_nat_alt)
    have w: "write_prefix_int [] n first v = ?b # prefix_int_tail ?v"
      using False by (simp add: write_prefix_int_def Let_def)
    have "unat ?m + unat ?v * 2 ^ 0 < 2 ^ 64"
      using unsigned_less [where 'a = nat, of v] sub m ge by simp
    moreover have "unat ?v < 2 ^ (63 - 0)" using v sub by simp
    ultimately obtain r where
      r: "read_prefix_loop ((pre @ [?b]) @ prefix_int_tail ?v @ rest) 0 ?m (length pre + 1)
        = (Inr r, length pre + 1 + length (prefix_int_tail ?v))" "unat r = unat ?m + unat ?v * 2 ^ 0"
      using read_prefix_loop_tail [of 0 ?v ?m "pre @ [?b]" "length pre + 1" rest] by auto
    from r(2) sub m ge have "r = v" by (simp add: word_unat_eq_iff)
    with r(1) b show ?thesis unfolding w
      by (simp add: read_prefix_int_def Let_def)
  qed
qed

interpretation name_len: prefix_codec "write_prefix_int [] 3 0x20" "prefix_int_dec 3" "\<lambda>v. unat v < 2 ^ 63 + 7"
  by unfold_locales (use read_write_prefix_int [of 3 "0x20" _ "[]"] in \<open>simp add: prefix_int_dec_def\<close>)

interpretation value_len: prefix_codec "write_prefix_int [] 7 0" "prefix_int_dec 7" "\<lambda>v. unat v < 2 ^ 63 + 127"
  by unfold_locales (use read_write_prefix_int [of 7 0 _ "[]"] in \<open>simp add: prefix_int_dec_def\<close>)

text \<open>
  Prefix integers round trip at every prefix width from 1 to 8, after any prefix of the buffer and
  before anything that follows: the reader returns the written value and stops right after it. The bound
  on the value is what the reader's nine continuation bytes can carry.
\<close>

lemma prefix_int_roundtrip:
  assumes "1 \<le> n" "n \<le> 8" and "take_bit n first = 0" and "unat v < 2 ^ 63 + (2 ^ n - 1)"
  shows "read_prefix_int (write_prefix_int out n first v @ rest) n (length out)
    = (Inr v, length (write_prefix_int out n first v))"
  using read_write_prefix_int [OF assms, of out rest]
  by (subst (1 2) write_prefix_int_append) simp

lemma prefix_int_roundtrip_witness:
  "read_prefix_int (write_prefix_int [] 5 0xE0 1337 @ [42]) 5 0
    = (Inr 1337, length (write_prefix_int [] 5 0xE0 1337))"
proof -
  have "take_bit 5 (0xE0 :: u8) = 0" by simp
  from prefix_int_roundtrip [of 5 "0xE0" 1337 "[]" "[42]", OF _ _ this] show ?thesis by simp
qed

section \<open>Field sections: round trip\<close>

text \<open>All lines of a section, or the first error: \<open>collect\<close> on the iterator.\<close>

function field_lines :: "decoder \<Rightarrow> (field_line list, qpack_error) result" where
  "field_lines d =
    (case decoder_next d of
       None \<Rightarrow> Inr []
     | Some (Inl e, d') \<Rightarrow> Inl e
     | Some (Inr l, d') \<Rightarrow> bindE (field_lines d') (\<lambda>ls. Inr (l # ls)))"
  by pat_completeness auto
termination
proof (relation "measure (\<lambda>d. length (d_buf d) - d_pos d)")
  fix d x r d' l
  assume "decoder_next d = Some x" "(r, d') = x" "r = Inr l"
  with decode_line_advances [of "d_pos d" "d_buf d" "d_buf d ! d_pos d"]
  show "(d', d) \<in> measure (\<lambda>d. length (d_buf d) - d_pos d)"
    by (auto simp: decoder_next_def split: if_splits prod.splits)
qed simp

declare field_lines.simps [simp del]

definition literal_line :: "string \<times> string \<Rightarrow> field_line" where
  "literal_line f = (case f of (name, v) \<Rightarrow>
     \<lparr>fl_name = NameWire (as_bytes name), fl_value = ValueWire (as_bytes v) False\<rparr>)"

lemma encode_field_append: "encode_field out f = out @ encode_field [] f"
  by (cases f) (simp add: encode_field_def Let_def write_prefix_int_append [of out]
      write_prefix_int_append [of "_ @ _"])

lemma small_u64_cases:
  assumes "unat (x :: u64) \<le> 7"
  shows "x \<in> {0, 1, 2, 3, 4, 5, 6, 7}"
proof -
  from assms have "unat x \<in> {0, 1, 2, 3, 4, 5, 6, 7}" by auto
  then show ?thesis by (auto simp: word_unat_eq_iff)
qed

text \<open>The first byte of a literal line written by the encoder selects the third form, without Huffman.\<close>

lemma name_first_byte:
  "\<exists>b t. write_prefix_int [] 3 0x20 v = b # t \<and> b AND 0x80 = 0 \<and> b AND 0xC0 \<noteq> 0x40 \<and> b AND 0xE0 = 0x20
    \<and> b AND 0x08 = 0"
proof -
  have "\<exists>x t. write_prefix_int [] 3 0x20 v = (0x20 OR ucast (x :: u64)) # t \<and> unat x \<le> 7"
  proof (cases "v < 7")
    case True
    then have "unat v \<le> 7" by (simp add: word_less_nat_alt)
    with True show ?thesis by (auto simp: write_prefix_int_def)
  next
    case False
    then show ?thesis by (intro exI [of _ 7]) (simp add: write_prefix_int_def)
  qed
  then obtain x :: u64 and t where x: "write_prefix_int [] 3 0x20 v = (0x20 OR ucast x) # t" "unat x \<le> 7"
    by blast
  from small_u64_cases [OF x(2)] show ?thesis
    unfolding x(1) by auto
qed

lemma value_first_byte: "\<exists>b t. write_prefix_int [] 7 0 v = b # t \<and> b AND 0x80 = 0"
proof (cases "v < 127")
  case True
  then have "unat v < 127" by (simp add: word_less_nat_alt)
  with True show ?thesis
    by (simp add: write_prefix_int_def top_bit_u8 unat_bit_7 unat_ucast_u8)
next
  case False
  then show ?thesis by (simp add: write_prefix_int_def)
qed

lemma take_raw_append:
  assumes "length (pre @ x @ rest) < 2 ^ 63" and "length pre = pos"
  shows "take_raw (pre @ x @ rest) (of_nat (length x)) pos = (Inr x, pos + length x)"
proof -
  have "unat (of_nat (length x) :: u64) = length x"
    using assms by (intro unat_of_nat_u64) simp
  with assms show ?thesis by (auto simp: take_raw_def)
qed

lemma read_value_append:
  assumes "length (pre @ write_prefix_int [] 7 0 (of_nat (length v)) @ v @ rest) < 2 ^ 63" and "length pre = pos"
  shows "read_value (pre @ write_prefix_int [] 7 0 (of_nat (length v)) @ v @ rest) pos
    = (Inr (ValueWire v False), pos + length (write_prefix_int [] 7 0 (of_nat (length v))) + length v)"
proof -
  let ?w = "write_prefix_int [] 7 0 (of_nat (length v))"
  let ?buf = "pre @ ?w @ v @ rest"
  obtain b t where b: "?w = b # t" "b AND 0x80 = 0" using value_first_byte by blast
  have g: "get ?buf pos = Some b" using assms(2) b(1) by (auto simp: nth_append)
  have "unat (of_nat (length v) :: u64) = length v" using assms by (intro unat_of_nat_u64) simp
  with assms have "read_prefix_int ?buf 7 pos = (Inr (of_nat (length v)), pos + length ?w)"
    using read_write_prefix_int [of 7 0 "of_nat (length v)" pre "v @ rest"] by auto
  moreover have "take_raw ?buf (of_nat (length v)) (pos + length ?w) = (Inr v, pos + length ?w + length v)"
    using take_raw_append [of "pre @ ?w" v rest] assms by simp
  ultimately show ?thesis using g b(2)
    by (simp add: read_value_def bindP_def returnP_def get_def)
qed

lemma decode_line_append:
  assumes len: "length (pre @ encode_field [] (name, v) @ rest) < 2 ^ 63"
  defines "buf \<equiv> pre @ encode_field [] (name, v) @ rest"
  shows "decode_line buf (buf ! length pre) (length pre)
    = (Inr (literal_line (name, v)), length pre + length (encode_field [] (name, v)))"
proof -
  let ?nl = "of_nat (length name) :: u64"
  let ?wn = "write_prefix_int [] 3 0x20 ?nl"
  let ?wv = "write_prefix_int [] 7 0 (of_nat (length (as_bytes v)))"
  have enc: "encode_field [] (name, v) = ?wn @ as_bytes name @ ?wv @ as_bytes v"
    by (simp add: encode_field_def Let_def write_prefix_int_append [of "_ @ _"])
  have buf: "buf = pre @ ?wn @ as_bytes name @ ?wv @ as_bytes v @ rest" by (simp add: buf_def enc)
  have short: "length buf < 2 ^ 63" using len by (simp add: buf_def)
  obtain b t where b: "?wn = b # t" "b AND 0x80 = 0" "b AND 0xC0 \<noteq> 0x40" "b AND 0xE0 = 0x20" "b AND 0x08 = 0"
    using name_first_byte by blast
  have first: "buf ! length pre = b" unfolding buf b(1) by simp
  have "unat ?nl = length name" using short by (intro unat_of_nat_u64) (simp add: buf)
  moreover have "length name < 2 ^ 63" using short by (simp add: buf)
  ultimately have r1: "read_prefix_int buf 3 (length pre) = (Inr ?nl, length pre + length ?wn)"
    unfolding buf by (intro read_write_prefix_int) simp_all
  have r2: "take_raw buf ?nl (length pre + length ?wn) = (Inr (as_bytes name), length pre + length ?wn + length name)"
    using take_raw_append [of "pre @ ?wn" "as_bytes name" "?wv @ as_bytes v @ rest"] short by (simp add: buf)
  have r3: "read_value buf (length pre + length ?wn + length name)
      = (Inr (ValueWire (as_bytes v) False), length pre + length ?wn + length name + length ?wv + length v)"
    using read_value_append [of "pre @ ?wn @ as_bytes name" "as_bytes v" rest] short by (simp add: buf add.assoc)
  show ?thesis
    unfolding first using b(2-5) r1 r2 r3
    by (simp add: decode_line_def bindP_def returnP_def liftP_def literal_line_def enc)
qed

lemma encode_field_nonempty: "encode_field [] f \<noteq> []"
proof -
  obtain name v where f: "f = (name, v)" by (cases f)
  obtain b t where "write_prefix_int [] 3 0x20 (of_nat (length name)) = b # t" using name_first_byte by blast
  then show ?thesis by (simp add: f encode_field_def Let_def write_prefix_int_append [of "_ # _"])
qed

lemma field_lines_append:
  assumes "length (pre @ concat (map (encode_field []) flds)) < 2 ^ 63"
  shows "field_lines \<lparr>d_buf = pre @ concat (map (encode_field []) flds), d_pos = length pre\<rparr>
    = Inr (map literal_line flds)"
  using assms
proof (induction flds arbitrary: pre)
  case Nil
  then show ?case by (subst field_lines.simps) (simp add: decoder_next_def)
next
  case (Cons f fs)
  let ?rest = "concat (map (encode_field []) fs)"
  let ?buf = "pre @ encode_field [] f @ ?rest"
  obtain name v where f: "f = (name, v)" by (cases f)
  have "decode_line ?buf (?buf ! length pre) (length pre)
      = (Inr (literal_line f), length (pre @ encode_field [] f))"
    using decode_line_append [of pre name v ?rest] Cons.prems by (simp add: f)
  moreover have "length pre < length ?buf" using encode_field_nonempty [of f] by simp
  ultimately have "decoder_next \<lparr>d_buf = ?buf, d_pos = length pre\<rparr>
      = Some (Inr (literal_line f), \<lparr>d_buf = (pre @ encode_field [] f) @ ?rest, d_pos = length (pre @ encode_field [] f)\<rparr>)"
    by (simp add: decoder_next_def)
  moreover have "field_lines \<lparr>d_buf = (pre @ encode_field [] f) @ ?rest, d_pos = length (pre @ encode_field [] f)\<rparr>
      = Inr (map literal_line fs)"
    using Cons.prems by (intro Cons.IH) simp
  ultimately show ?case by (subst field_lines.simps) simp
qed

lemma encode_field_section_eq:
  "encode_field_section flds out = out @ [0, 0] @ concat (map (encode_field []) flds)"
proof -
  have "foldl encode_field o1 flds = o1 @ concat (map (encode_field []) flds)" for o1
  proof (induction flds arbitrary: o1)
    case (Cons f fs)
    show ?case using Cons.IH [of "encode_field o1 f"] encode_field_append [of o1 f] by simp
  qed simp
  then show ?thesis by (simp add: encode_field_section_def)
qed

lemma decoder_new_plain: "decoder_new (0 # 0 # rest) = Inr \<lparr>d_buf = 0 # 0 # rest, d_pos = 2\<rparr>"
  by (simp add: decoder_new_def read_prefix_int_def bindP_def returnP_def get_def)

lemma field_section_decodes:
  assumes "length (encode_field_section flds []) < 2 ^ 63"
  shows "bindE (decoder_new (encode_field_section flds [])) field_lines = Inr (map literal_line flds)"
proof -
  let ?body = "concat (map (encode_field []) flds)"
  have "field_lines \<lparr>d_buf = [0, 0] @ ?body, d_pos = length [0, 0 :: u8]\<rparr> = Inr (map literal_line flds)"
    by (rule field_lines_append) (use assms in \<open>simp add: encode_field_section_eq\<close>)
  then show ?thesis by (simp add: encode_field_section_eq decoder_new_plain numeral_2_eq_2)
qed

text \<open>
  C24. A field section written by the encoder is read back by the decoder as exactly the fields given, in
  order, each as a literal line without Huffman coding, whatever the strings are (the only bound is the
  length of a buffer that fits in memory).
\<close>

theorem field_section_roundtrip:
  assumes "length (encode_field_section flds []) < 2 ^ 63"
  shows "bindE (decoder_new (encode_field_section flds [])) field_lines = Inr (map literal_line flds)"
  using assms by (rule field_section_decodes)

theorem field_section_roundtrip_witness:
  "bindE (decoder_new (encode_field_section [('':status'', ''200'')] [])) field_lines
    = Inr [literal_line ('':status'', ''200'')]"
proof -
  have "length (encode_field_section [('':status'', ''200'')] []) < 2 ^ 63"
    by (simp add: encode_field_section_def encode_field_def write_prefix_int_def prefix_int_tail.simps)
  from field_section_roundtrip [OF this] show ?thesis by simp
qed

text \<open>
  With a dynamic table of capacity zero advertised, every representation that refers to it is refused:
  an indexed line with T = 0, a name reference with T = 0 and the two post-base forms all give
  \<open>DynamicTable\<close>, consuming one byte.
\<close>

lemma dynamic_table_rejected:
  assumes "d_pos d < length (d_buf d)"
    and "let b = d_buf d ! d_pos d in b AND 0xC0 = 0x80 \<or> b AND 0xD0 = 0x40 \<or> b AND 0xE0 = 0"
  shows "decoder_next d = Some (Inl DynamicTable, d\<lparr>d_pos := d_pos d + 1\<rparr>)"
proof -
  define b where "b = d_buf d ! d_pos d"
  have narrow: "b AND k = c AND k" if "b AND m = c" "m AND k = k" for m c k :: u8
    using that by (metis and.assoc)
  from assms(2) consider "b AND 0xC0 = 0x80" | "b AND 0xD0 = 0x40" | "b AND 0xE0 = 0"
    by (auto simp: Let_def b_def)
  then have "decode_line (d_buf d) b (d_pos d) = (Inl DynamicTable, d_pos d + 1)"
  proof cases
    case 1
    from narrow [OF 1, of "0x80"] narrow [OF 1, of "0x40"] show ?thesis by (simp add: decode_line_def)
  next
    case 2
    from narrow [OF 2, of "0x80"] narrow [OF 2, of "0xC0"] narrow [OF 2, of "0x10"] show ?thesis
      by (simp add: decode_line_def)
  next
    case 3
    from narrow [OF 3, of "0x80"] narrow [OF 3, of "0xC0"] 3 show ?thesis by (simp add: decode_line_def)
  qed
  with assms(1) show ?thesis by (simp add: decoder_next_def b_def)
qed

lemma dynamic_table_rejected_witness:
  "decoder_next \<lparr>d_buf = [0, 0, 0x80], d_pos = 2\<rparr>
    = Some (Inl DynamicTable, \<lparr>d_buf = [0, 0, 0x80], d_pos = 2\<rparr>\<lparr>d_pos := 2 + 1\<rparr>)"
  using dynamic_table_rejected [of "\<lparr>d_buf = [0, 0, 0x80], d_pos = 2\<rparr>"] by simp

end
