(* ===== verification/H3.thy ===== *)
theory H3
  imports Qpack
begin

text \<open>
  \<^verbatim>\<open>src/pkgs/microdoh3/src/h3.rs\<close>: QUIC variable-length integers, the client preamble and
  requests, the incremental frame parser, and the per-connection HTTP/3 state with its operations
  \<open>register_request\<close>, \<open>feed\<close>, \<open>finish\<close> and \<open>reset\<close>. The event vector that the operations push to
  is threaded as a list.
\<close>

section \<open>Variable-length integers\<close>

definition varint_encode :: "u64 \<Rightarrow> bytes \<Rightarrow> bytes" where
  "varint_encode v out =
    (if v < push_bit 6 1 then out @ [ucast v]
     else if v < push_bit 14 1 then out @ u16_to_be (ucast v OR 0x4000)
     else if v < push_bit 30 1 then out @ u32_to_be (ucast v OR 0x80000000)
     else out @ u64_to_be (v OR 0xC000000000000000))"

definition varint_decode :: "bytes \<Rightarrow> (u64 \<times> usize) option" where
  "varint_decode buf =
    (case buf of
       [] \<Rightarrow> None
     | first # _ \<Rightarrow>
         let len = 2 ^ unat (drop_bit 6 first) in
         if length buf < len then None
         else Some (foldl (\<lambda>v b. push_bit 8 v OR ucast b) (ucast (first AND 0x3F))
                (take (len - 1) (drop 1 buf)), len))"

section \<open>Constants and outbound encoding\<close>

definition FRAME_DATA :: u64 where "FRAME_DATA = 0x00"
definition FRAME_HEADERS :: u64 where "FRAME_HEADERS = 0x01"
definition FRAME_SETTINGS :: u64 where "FRAME_SETTINGS = 0x04"
definition FRAME_GOAWAY :: u64 where "FRAME_GOAWAY = 0x07"
definition STREAM_TYPE_CONTROL :: u64 where "STREAM_TYPE_CONTROL = 0x00"
definition SETTINGS_QPACK_MAX_TABLE_CAPACITY :: u64 where "SETTINGS_QPACK_MAX_TABLE_CAPACITY = 0x01"
definition SETTINGS_QPACK_BLOCKED_STREAMS :: u64 where "SETTINGS_QPACK_BLOCKED_STREAMS = 0x07"

lemmas h3_consts = FRAME_DATA_def FRAME_HEADERS_def FRAME_SETTINGS_def FRAME_GOAWAY_def
  STREAM_TYPE_CONTROL_def SETTINGS_QPACK_MAX_TABLE_CAPACITY_def SETTINGS_QPACK_BLOCKED_STREAMS_def

definition client_preamble :: bytes where
  "client_preamble =
    (let out = varint_encode STREAM_TYPE_CONTROL [];
         payload = varint_encode SETTINGS_QPACK_MAX_TABLE_CAPACITY [];
         payload = varint_encode 0 payload;
         payload = varint_encode SETTINGS_QPACK_BLOCKED_STREAMS payload;
         payload = varint_encode 0 payload;
         out = varint_encode FRAME_SETTINGS out;
         out = varint_encode (of_nat (length payload)) out
     in out @ payload)"

text \<open>The field list of \<open>encode_request\<close>, then the request itself.\<close>

definition request_fields :: "string \<Rightarrow> string \<Rightarrow> string \<Rightarrow> string option \<Rightarrow> (string \<times> string) list" where
  "request_fields meth authority path token =
    [('':method'', meth), ('':scheme'', ''https''), ('':authority'', authority), ('':path'', path),
     (''accept'', ''application/dns-message'')]
    @ (case token of None \<Rightarrow> [] | Some t \<Rightarrow> [(''authorization'', ''Bearer '' @ t)])"

definition encode_request ::
  "bytes \<Rightarrow> string \<Rightarrow> string \<Rightarrow> string \<Rightarrow> string option \<Rightarrow> bytes option \<Rightarrow> bytes" where
  "encode_request out meth authority path token body =
    (let block = encode_field_section (request_fields meth authority path token) [];
         out = varint_encode FRAME_HEADERS out;
         out = varint_encode (of_nat (length block)) out;
         out = out @ block
     in case body of
          None \<Rightarrow> out
        | Some b \<Rightarrow>
            let out = varint_encode FRAME_DATA out;
                out = varint_encode (of_nat (length b)) out
            in out @ b)"

section \<open>Incremental frame parser\<close>

record frame_parser =
  fp_buf :: bytes

definition parser_default :: frame_parser where
  "parser_default = \<lparr>fp_buf = []\<rparr>"

definition parser_feed :: "frame_parser \<Rightarrow> bytes \<Rightarrow> frame_parser" where
  "parser_feed p data = p\<lparr>fp_buf := fp_buf p @ data\<rparr>"

definition next_frame :: "frame_parser \<Rightarrow> ((u64 \<times> bytes) \<times> frame_parser) option" where
  "next_frame p =
    (case varint_decode (fp_buf p) of
       None \<Rightarrow> None
     | Some (ty, n1) \<Rightarrow>
         let rest = drop n1 (fp_buf p) in
         (case varint_decode rest of
            None \<Rightarrow> None
          | Some (len, n2) \<Rightarrow>
              let len = unat len; start = n1 + n2 in
              if length (fp_buf p) < start + len then None
              else Some ((ty, take len (drop start (fp_buf p))),
                     p\<lparr>fp_buf := drop (start + len) (fp_buf p)\<rparr>)))"

lemma varint_decode_len:
  "varint_decode buf = Some (v, n) \<Longrightarrow> 1 \<le> n \<and> n \<le> length buf"
  by (auto simp: varint_decode_def Let_def split: list.splits if_splits)

lemma next_frame_shrinks:
  assumes "next_frame p = Some (f, p')"
  shows "length (fp_buf p') < length (fp_buf p)"
proof -
  obtain ty n1 where v: "varint_decode (fp_buf p) = Some (ty, n1)"
    using assms by (auto simp: next_frame_def split: option.splits)
  with assms have "n1 \<le> length (fp_buf p) - length (fp_buf p') \<or> length (fp_buf p) = 0"
    by (auto simp: next_frame_def Let_def split: option.splits if_splits)
  with varint_decode_len [OF v] show ?thesis by linarith
qed

text \<open>\<open>while let Some((ty, payload)) = parser.next_frame()\<close> with a loop body on the state \<open>s\<close>.\<close>

function frame_loop :: "(u64 \<Rightarrow> bytes \<Rightarrow> 's \<Rightarrow> 's) \<Rightarrow> frame_parser \<Rightarrow> 's \<Rightarrow> 's \<times> frame_parser" where
  "frame_loop step p s =
    (case next_frame p of
       None \<Rightarrow> (s, p)
     | Some ((ty, payload), p') \<Rightarrow> frame_loop step p' (step ty payload s))"
  by pat_completeness auto
termination
  by (relation "measure (\<lambda>(step, p, s). length (fp_buf p))") (auto dest: next_frame_shrinks)

declare frame_loop.simps [simp del]

section \<open>Connection state\<close>

record response =
  r_parser :: frame_parser
  r_status :: "u16 option"
  r_body :: bytes
  r_got_data :: bool
  r_failed :: bool

datatype stream_state =
    ServerUni "u64 option" frame_parser
  | Sink
  | Response response

datatype h3_event =
    ResponseEv u64 bytes
  | FailedEv u64
  | GoawayEv

record h3 =
  streams :: "u64 \<Rightarrow> stream_state option"
  goaway :: bool

definition h3_new :: h3 where
  "h3_new = \<lparr>streams = Map.empty, goaway = False\<rparr>"

definition register_request :: "h3 \<Rightarrow> u64 \<Rightarrow> h3" where
  "register_request h stream =
    h\<lparr>streams := (streams h)(stream \<mapsto>
      Response \<lparr>r_parser = parser_default, r_status = None, r_body = [], r_got_data = False, r_failed = False\<rparr>)\<rparr>"

definition remove :: "h3 \<Rightarrow> u64 \<Rightarrow> h3" where
  "remove h stream = h\<lparr>streams := (streams h)(stream := None)\<rparr>"

text \<open>\<open>for line in dec\<close> of \<open>parse_status\<close>.\<close>

function parse_status_loop :: "decoder \<Rightarrow> (u16, qpack_error) result" where
  "parse_status_loop d =
    (case decoder_next d of
       None \<Rightarrow> Inr 0
     | Some (Inl e, d') \<Rightarrow> Inl e
     | Some (Inr line, d') \<Rightarrow>
         if name_bytes (fl_name line) = as_bytes '':status'' then
           bindE (value_decode (fl_value line)) (\<lambda>v.
             let s = (if utf8_valid v then v else as_bytes ''0'') in
             Inr (case parse_u16 s of None \<Rightarrow> 0 | Some n \<Rightarrow> n))
         else parse_status_loop d')"
  by pat_completeness auto
termination
proof (relation "measure (\<lambda>d. length (d_buf d) - d_pos d)")
  fix d x r d' l
  assume "decoder_next d = Some x" "(r, d') = x" "r = Inr l"
  with decode_line_advances [of "d_pos d" "d_buf d" "d_buf d ! d_pos d"]
  show "(d', d) \<in> measure (\<lambda>d. length (d_buf d) - d_pos d)"
    by (auto simp: decoder_next_def split: if_splits prod.splits)
qed simp

declare parse_status_loop.simps [simp del]

definition parse_status :: "bytes \<Rightarrow> (u16, qpack_error) result" where
  "parse_status section = bindE (decoder_new section) parse_status_loop"

definition uni_frame :: "u64 \<Rightarrow> bytes \<Rightarrow> bool \<times> h3_event list \<Rightarrow> bool \<times> h3_event list" where
  "uni_frame fty payload = (\<lambda>(g, events).
     if fty = FRAME_GOAWAY then (True, events @ [GoawayEv]) else (g, events))"

definition process_server_uni :: "h3 \<Rightarrow> u64 \<Rightarrow> h3_event list \<Rightarrow> h3 \<times> h3_event list" where
  "process_server_uni h stream events =
    (case streams h stream of
       Some (ServerUni ty parser) \<Rightarrow>
         if ty \<noteq> Some STREAM_TYPE_CONTROL then (h, events)
         else (case frame_loop uni_frame parser (goaway h, events) of
                 ((g, events'), parser') \<Rightarrow>
                   (h\<lparr>streams := (streams h)(stream \<mapsto> ServerUni ty parser'), goaway := g\<rparr>, events'))
     | _ \<Rightarrow> (h, events))"

definition response_frame :: "u64 \<Rightarrow> bytes \<Rightarrow> u16 option \<times> bytes \<times> bool \<times> bool \<Rightarrow> u16 option \<times> bytes \<times> bool \<times> bool" where
  "response_frame fty payload = (\<lambda>(st, bd, gd, fl).
     if fty = FRAME_HEADERS then
       (case parse_status payload of Inr code \<Rightarrow> (Some code, bd, gd, fl) | Inl _ \<Rightarrow> (st, bd, gd, True))
     else if fty = FRAME_DATA then (st, bd @ payload, True, fl)
     else (st, bd, gd, fl))"

definition set_stream :: "h3 \<Rightarrow> u64 \<Rightarrow> stream_state \<Rightarrow> h3" where
  "set_stream h stream st = h\<lparr>streams := (streams h)(stream \<mapsto> st)\<rparr>"

definition h3_feed :: "h3 \<Rightarrow> u64 \<Rightarrow> bytes \<Rightarrow> h3_event list \<Rightarrow> h3 \<times> h3_event list" where
  "h3_feed h stream data events =
    (let state = (case streams h stream of None \<Rightarrow> ServerUni None parser_default | Some s \<Rightarrow> s);
         h = set_stream h stream state
     in case state of
       ServerUni None parser \<Rightarrow>
         (case varint_decode data of
            Some (t, n) \<Rightarrow>
              if t = STREAM_TYPE_CONTROL then
                process_server_uni (set_stream h stream (ServerUni (Some t) (parser_feed parser (drop n data)))) stream events
              else (set_stream h stream Sink, events)
          | None \<Rightarrow>
              if data = [] then (h, events)
              else
                let parser = parser_feed parser data in
                (case varint_decode (fp_buf parser) of
                   None \<Rightarrow> (set_stream h stream (ServerUni None parser), events)
                 | Some (t, n) \<Rightarrow>
                     let rest = drop n (fp_buf parser) in
                     if t = STREAM_TYPE_CONTROL then
                       process_server_uni (set_stream h stream (ServerUni (Some t) (parser_feed parser_default rest))) stream events
                     else (set_stream h stream Sink, events)))
     | ServerUni (Some t) parser \<Rightarrow>
         process_server_uni (set_stream h stream (ServerUni (Some t) (parser_feed parser data))) stream events
     | Response r \<Rightarrow>
         (case frame_loop response_frame (parser_feed (r_parser r) data)
                 (r_status r, r_body r, r_got_data r, r_failed r) of
            ((st, bd, gd, fl), parser) \<Rightarrow>
              (set_stream h stream (Response \<lparr>r_parser = parser, r_status = st, r_body = bd,
                 r_got_data = gd, r_failed = fl\<rparr>), events))
     | Sink \<Rightarrow> (h, events))"

definition finish :: "h3 \<Rightarrow> u64 \<Rightarrow> h3_event list \<Rightarrow> h3 \<times> h3_event list" where
  "finish h stream events =
    (remove h stream,
     case streams h stream of
       Some (Response r) \<Rightarrow>
         if r_failed r then events @ [FailedEv stream]
         else if r_got_data r \<and> r_status r = Some 200 then events @ [ResponseEv stream (r_body r)]
         else events @ [FailedEv stream]
     | _ \<Rightarrow> events)"

definition reset :: "h3 \<Rightarrow> u64 \<Rightarrow> h3_event list \<Rightarrow> h3 \<times> h3_event list" where
  "reset h stream events =
    (remove h stream,
     case streams h stream of
       Some (Response r) \<Rightarrow> if \<not> r_failed r then events @ [FailedEv stream] else events
     | _ \<Rightarrow> events)"

section \<open>Variable-length integers: round trip\<close>

definition be_nat :: "bytes \<Rightarrow> nat" where
  "be_nat bs = foldl (\<lambda>a b. a * 256 + unat b) 0 bs"

lemma foldl_be: "foldl (\<lambda>a b. a * 256 + unat b) a bs = a * 256 ^ length bs + be_nat bs"
proof (induction bs arbitrary: a)
  case (Cons b bs)
  show ?case
    using Cons [of "a * 256 + unat b"] Cons [of "unat b"] by (simp add: be_nat_def algebra_simps)
qed (simp add: be_nat_def)

lemma be_nat_Cons: "be_nat (b # bs) = unat b * 256 ^ length bs + be_nat bs"
  using foldl_be [of "unat b" bs] by (simp add: be_nat_def)

lemma be_nat_less: "be_nat bs < 256 ^ length bs"
proof (induction bs)
  case (Cons b bs)
  have "unat b * 256 ^ length bs + be_nat bs < (unat b + 1) * 256 ^ length bs"
    using Cons by simp
  also have "\<dots> \<le> 256 * 256 ^ length bs"
    using u8_less_256 [of b] by (intro mult_right_mono) simp_all
  finally show ?case by (simp add: be_nat_Cons)
qed (simp add: be_nat_def)

lemma div_byte_step: "n div 2 ^ (k + 8) * 256 + n div 2 ^ k mod 256 = n div (2 ^ k :: nat)"
  using div_mult_mod_eq [of "n div 2 ^ k" 256] by (simp add: power_add div_mult2_eq)

lemma unat_byte: "k + 8 \<le> LENGTH('a) \<Longrightarrow>
    unat (ucast (drop_bit k (w :: 'a :: len word)) :: u8) = unat w div 2 ^ k mod 256"
  by (simp only: unsigned_ucast_eq unat_drop_bit_eq) (simp add: take_bit_eq_mod drop_bit_eq_div)

lemma unat_low_byte: "8 \<le> LENGTH('a) \<Longrightarrow> unat (ucast (w :: 'a :: len word) :: u8) = unat w mod 256"
  using unat_byte [of 0 w] by simp

lemma top_byte: "n < 2 ^ (k + 8) \<Longrightarrow> n div 2 ^ k mod 256 = n div (2 ^ k :: nat)"
  using div_byte_step [of n k] by simp

lemma be_nat_u16: "be_nat (u16_to_be w) = unat w"
  using div_byte_step [of "unat w" 0] top_byte [of "unat w" 8] unsigned_less [where 'a = nat, of w]
  by (simp add: u16_to_be_def be_nat_def unat_byte unat_low_byte [of w])

lemma be_nat_u32: "be_nat (u32_to_be w) = unat w"
  using div_byte_step [of "unat w" 0] div_byte_step [of "unat w" 8] div_byte_step [of "unat w" 16]
    top_byte [of "unat w" 24] unsigned_less [where 'a = nat, of w]
  by (simp add: u32_to_be_def be_nat_def unat_byte unat_low_byte [of w])

lemma be_nat_u64: "be_nat (u64_to_be w) = unat w"
  using div_byte_step [of "unat w" 0] div_byte_step [of "unat w" 8] div_byte_step [of "unat w" 16]
    div_byte_step [of "unat w" 24] div_byte_step [of "unat w" 32] div_byte_step [of "unat w" 40]
    div_byte_step [of "unat w" 48] top_byte [of "unat w" 56] unsigned_less [where 'a = nat, of w]
  by (simp add: u64_to_be_def be_nat_def unat_byte unat_low_byte [of w])

text \<open>The decoding loop reads the remaining bytes in big-endian order.\<close>

lemma varint_fold:
  assumes "unat v * 256 ^ length bs + be_nat bs < 2 ^ 64"
  shows "unat (foldl (\<lambda>v b. push_bit 8 v OR ucast b) (v :: u64) bs) = unat v * 256 ^ length bs + be_nat bs"
  using assms
proof (induction bs arbitrary: v)
  case (Cons b bs)
  let ?v = "push_bit 8 v OR ucast b :: u64"
  have "unat v * 256 * 1 \<le> unat v * 256 * 256 ^ length bs" by (rule mult_left_mono) simp_all
  also have "\<dots> < 2 ^ 64" using Cons.prems by simp
  finally have "unat v * 2 ^ 8 < 2 ^ 64" by simp
  then have v: "unat ?v = unat v * 256 + unat b"
    using unat_push_or [of "ucast b :: u64" 8 v] u8_less_256 [of b] by (simp add: unat_ucast_u64)
  with Cons.prems have "unat ?v * 256 ^ length bs + be_nat bs < 2 ^ 64"
    by (simp add: be_nat_Cons algebra_simps)
  from Cons.IH [OF this] v show ?case by (simp add: be_nat_Cons algebra_simps)
qed (simp add: be_nat_def)

lemma unat_and_3F: "unat (x AND 0x3F :: u8) = unat x mod 64"
proof -
  have "x AND 0x3F = take_bit 6 x" by (simp add: take_bit_eq_mask mask_eq_exp_minus_1)
  then have "unat (x AND 0x3F) = take_bit 6 (unat x)" by (simp only: unsigned_take_bit_eq)
  then show ?thesis by (simp add: take_bit_eq_mod)
qed

lemma unat_drop_6: "unat (drop_bit 6 x :: u8) = unat x div 64"
  by (simp only: unat_drop_bit_eq) (simp add: drop_bit_eq_div)

lemma varint_decode_be:
  assumes len: "length bs = 2 ^ k" and k: "k < 4"
    and val: "be_nat bs = (k * 64) * 256 ^ (2 ^ k - 1) + unat v" and v: "unat v < 64 * 256 ^ (2 ^ k - 1)"
  shows "varint_decode (bs @ rest) = Some (v, 2 ^ k)"
proof -
  obtain b tl where bs: "bs = b # tl" using len by (cases bs) simp_all
  let ?P = "256 ^ length tl :: nat"
  have tl: "length tl = 2 ^ k - 1" using len bs by simp
  have eq: "unat b * ?P + be_nat tl = (k * 64) * ?P + unat v" using val by (simp add: bs be_nat_Cons tl)
  have lt: "be_nat tl < ?P" by (rule be_nat_less)
  have "unat b = (unat b * ?P + be_nat tl) div ?P" using lt by simp
  also have "\<dots> = k * 64 + unat v div ?P" unfolding eq by simp
  finally have b: "unat b = k * 64 + unat v div ?P" .
  have "unat v div ?P < 64" using v by (simp add: tl less_mult_imp_div_less)
  with b have tag: "unat b div 64 = k" and low: "unat b mod 64 = unat v div ?P" by simp_all
  have "be_nat tl = (unat b * ?P + be_nat tl) mod ?P" using lt by simp
  also have "\<dots> = unat v mod ?P" unfolding eq by simp
  finally have all: "unat b mod 64 * ?P + be_nat tl = unat v" by (simp only: low div_mult_mod_eq)
  have "unat (ucast (b AND 0x3F) :: u64) = unat b mod 64" by (simp add: unat_ucast_u64 unat_and_3F)
  with varint_fold [of "ucast (b AND 0x3F)" tl] all unsigned_less [where 'a = nat, of v]
  have "foldl (\<lambda>v b. push_bit 8 v OR ucast b) (ucast (b AND 0x3F)) tl = v"
    by (simp add: word_unat_eq_iff)
  with tag tl show ?thesis by (simp add: bs varint_decode_def Let_def unat_drop_6)
qed

lemma varint_encode_append: "varint_encode v out = out @ varint_encode v []"
  by (simp add: varint_encode_def)

lemma unat_or_tag:
  assumes "unat x < 2 ^ n" "unat t * 2 ^ n < 2 ^ LENGTH('a)"
  shows "unat (x OR push_bit n (t :: 'a :: len word)) = unat t * 2 ^ n + unat x"
  using unat_push_or [OF assms] by (simp add: or.commute)

lemma varint_decode_encode:
  assumes v: "unat v < 2 ^ 62"
  shows "varint_decode (varint_encode v [] @ rest) = Some (v, length (varint_encode v []))"
proof -
  consider "unat v < 2 ^ 6" | "2 ^ 6 \<le> unat v" "unat v < 2 ^ 14"
    | "2 ^ 14 \<le> unat v" "unat v < 2 ^ 30" | "2 ^ 30 \<le> unat v" by linarith
  then show ?thesis
  proof cases
    case 1
    then have "be_nat [ucast v] = unat v" by (simp add: be_nat_def unat_low_byte)
    with 1 varint_decode_be [of "[ucast v]" 0 v rest] show ?thesis by (simp add: varint_encode_def word_less_nat_alt)
  next
    case 2
    let ?w = "ucast v OR push_bit 14 1 :: u16"
    have "unat ?w = 2 ^ 14 + unat v"
      using unat_or_tag [of "ucast v :: u16" 14 1] 2 by (simp add: unsigned_ucast_eq take_bit_eq_mod)
    with 2 varint_decode_be [of "u16_to_be ?w" 1 v rest] show ?thesis
      by (simp add: varint_encode_def word_less_nat_alt be_nat_u16)
  next
    case 3
    let ?w = "ucast v OR push_bit 30 2 :: u32"
    have "unat ?w = 2 ^ 31 + unat v"
      using unat_or_tag [of "ucast v :: u32" 30 2] 3 by (simp add: unsigned_ucast_eq take_bit_eq_mod)
    with 3 varint_decode_be [of "u32_to_be ?w" 2 v rest] show ?thesis
      by (simp add: varint_encode_def word_less_nat_alt be_nat_u32)
  next
    case 4
    let ?w = "v OR push_bit 62 3 :: u64"
    have "unat ?w = 3 * 2 ^ 62 + unat v"
      using unat_or_tag [of v 62 3] v by simp
    with 4 v varint_decode_be [of "u64_to_be ?w" 3 v rest] show ?thesis
      by (simp add: varint_encode_def word_less_nat_alt be_nat_u64)
  qed
qed

lemma varint_decode_extend: "varint_decode buf = Some x \<Longrightarrow> varint_decode (buf @ r) = Some x"
  by (auto simp: varint_decode_def Let_def split: list.splits if_splits)

lemma varint_decode_short:
  assumes "varint_decode buf = Some (v, n)" "prefix p buf" "length p < n"
  shows "varint_decode p = None"
  using assms by (auto simp: varint_decode_def Let_def prefix_def split: list.splits if_splits)

interpretation varint: streaming_codec "\<lambda>v. varint_encode v []" varint_decode "\<lambda>v. unat v < 2 ^ 62"
proof
  fix a :: u64 and rest p
  assume a: "unat a < 2 ^ 62"
  then show "varint_decode (varint_encode a [] @ rest) = Some (a, length (varint_encode a []))"
    by (rule varint_decode_encode)
  assume "strict_prefix p (varint_encode a [])"
  then show "varint_decode p = None"
    using varint_decode_encode [OF a, of "[]"]
    by (intro varint_decode_short) (auto simp: strict_prefix_def prefix_length_less)
qed

text \<open>
  QUIC variable-length integers round trip through any buffer: appended to what \<open>out\<close> holds and
  followed by anything, the encoding of a value below \<open>2 ^ 62\<close> is decoded to that value and exactly its
  own bytes are consumed, and every cut inside the encoding makes the decoder wait instead of returning a
  value.
\<close>

lemma varint_roundtrip:
  assumes "unat v < 2 ^ 62"
  shows "varint_decode (drop (length out) (varint_encode v out) @ rest)
      = Some (v, length (varint_encode v out) - length out)
    \<and> (\<forall>n < length (varint_encode v []). varint_decode (take n (varint_encode v [])) = None)"
proof
  show "varint_decode (drop (length out) (varint_encode v out) @ rest)
      = Some (v, length (varint_encode v out) - length out)"
    by (subst (1 2) varint_encode_append) (simp add: varint.dec_enc [OF assms])
  show "\<forall>n < length (varint_encode v []). varint_decode (take n (varint_encode v [])) = None"
  proof (intro allI impI)
    fix n assume "n < length (varint_encode v [])"
    then have "strict_prefix (take n (varint_encode v [])) (varint_encode v [])"
      by (metis length_take min.absorb4 nat_less_le prefix_order.le_less take_is_prefix)
    then show "varint_decode (take n (varint_encode v [])) = None"
      by (rule varint.dec_partial [OF assms])
  qed
qed

lemma varint_roundtrip_witness:
  "varint_decode (drop 1 (varint_encode 15293 [9]) @ [1, 2]) = Some (15293, 2)
    \<and> varint_decode (take 1 (varint_encode 15293 [])) = None"
proof -
  have len: "length (varint_encode 15293 [9]) = 3" "length (varint_encode 15293 []) = 2"
    by (simp_all add: varint_encode_def)
  show ?thesis using varint_roundtrip [of 15293 "[9]" "[1, 2]"] by (simp add: len)
qed

section \<open>Frames\<close>

abbreviation parser_of :: "bytes \<Rightarrow> frame_parser" where
  "parser_of b \<equiv> \<lparr>fp_buf = b\<rparr>"

lemma parser_feed_of [simp]: "parser_feed (parser_of a) b = parser_of (a @ b)"
  by (simp add: parser_feed_def)

lemma parser_eq_of: "p = parser_of (fp_buf p)"
  by simp

text \<open>A frame as the sender writes it, and the parser's step as a decoder.\<close>

definition frame_enc :: "u64 \<times> bytes \<Rightarrow> bytes" where
  "frame_enc f = varint_encode (fst f) [] @ varint_encode (of_nat (length (snd f))) [] @ snd f"

definition frame_valid :: "u64 \<times> bytes \<Rightarrow> bool" where
  "frame_valid f \<longleftrightarrow> unat (fst f) < 2 ^ 62 \<and> length (snd f) < 2 ^ 62"

definition frame_dec :: "bytes \<Rightarrow> ((u64 \<times> bytes) \<times> usize) option" where
  "frame_dec buf = map_option (\<lambda>(f, p). (f, length buf - length (fp_buf p))) (next_frame (parser_of buf))"

lemma next_frame_enc:
  assumes "frame_valid f"
  shows "next_frame (parser_of (frame_enc f @ rest)) = Some (f, parser_of rest)"
proof -
  obtain ty pl where f: "f = (ty, pl)" by (cases f)
  let ?t = "varint_encode ty []" and ?l = "varint_encode (of_nat (length pl)) []"
  have v: "unat ty < 2 ^ 62" "unat (of_nat (length pl) :: u64) = length pl" "length pl < 2 ^ 62"
    using assms by (simp_all add: f frame_valid_def unat_of_nat_u64)
  have "varint_decode (?t @ ?l @ pl @ rest) = Some (ty, length ?t)"
    using v(1) by (rule varint.dec_enc)
  moreover have "varint_decode (?l @ pl @ rest) = Some (of_nat (length pl), length ?l)"
    using v(2,3) by (intro varint.dec_enc) simp
  ultimately show ?thesis by (simp add: f frame_enc_def next_frame_def v(2))
qed

lemma next_frame_extend:
  assumes "next_frame p = Some (f, p')"
  shows "next_frame (parser_feed p d) = Some (f, parser_feed p' d)"
proof -
  obtain ty n1 len n2 where v: "varint_decode (fp_buf p) = Some (ty, n1)"
      "varint_decode (drop n1 (fp_buf p)) = Some (len, n2)"
    using assms by (auto simp: next_frame_def split: option.splits)
  have n1: "n1 \<le> length (fp_buf p)" using varint_decode_len [OF v(1)] by simp
  from v(1) have "varint_decode (fp_buf p @ d) = Some (ty, n1)" by (rule varint_decode_extend)
  moreover have "varint_decode (drop n1 (fp_buf p @ d)) = Some (len, n2)"
    using varint_decode_extend [OF v(2), of d] n1 by simp
  ultimately show ?thesis
    using assms v by (auto simp: next_frame_def Let_def parser_feed_def split: if_splits)
qed

lemma next_frame_partial:
  assumes "frame_valid f" "strict_prefix p (frame_enc f)"
  shows "next_frame (parser_of p) = None"
proof (rule ccontr)
  assume "next_frame (parser_of p) \<noteq> None"
  then obtain g q where g: "next_frame (parser_of p) = Some (g, q)" by auto
  obtain r where r: "frame_enc f = p @ r" "r \<noteq> []" using assms(2) by (auto simp: strict_prefix_def prefix_def)
  from next_frame_extend [OF g, of r] next_frame_enc [OF assms(1), of "[]"]
  show False using r by (cases q) (simp add: parser_feed_def)
qed

interpretation frame: streaming_codec frame_enc frame_dec frame_valid
proof
  fix f rest p
  assume f: "frame_valid f"
  then show "frame_dec (frame_enc f @ rest) = Some (f, length (frame_enc f))"
    by (simp add: frame_dec_def next_frame_enc)
  assume "strict_prefix p (frame_enc f)"
  with f show "frame_dec p = None" by (simp add: frame_dec_def next_frame_partial)
qed

text \<open>The loop over a concatenation of frames runs its body once per frame, in order.\<close>

definition run_frames :: "(u64 \<Rightarrow> bytes \<Rightarrow> 's \<Rightarrow> 's) \<Rightarrow> (u64 \<times> bytes) list \<Rightarrow> 's \<Rightarrow> 's" where
  "run_frames step fs = fold (\<lambda>(ty, payload). step ty payload) fs"

lemma frame_loop_frames:
  assumes "list_all frame_valid fs"
  shows "frame_loop step (parser_of (concat (map frame_enc fs) @ rest)) s
    = frame_loop step (parser_of rest) (run_frames step fs s)"
  using assms
proof (induction fs arbitrary: s)
  case (Cons f fs)
  then have "frame_valid f" by simp
  from next_frame_enc [OF this, of "concat (map frame_enc fs) @ rest"] Cons show ?case
    by (subst frame_loop.simps) (simp add: run_frames_def split: prod.splits)
qed (simp add: run_frames_def)

lemma frame_loop_done [simp]: "next_frame p = None \<Longrightarrow> frame_loop step p s = (s, p)"
  by (subst frame_loop.simps) simp

lemma next_frame_empty [simp]: "next_frame (parser_of []) = None"
  by (simp add: next_frame_def varint_decode_def)

text \<open>Input can arrive in any pieces: what the loop left over, extended, continues the same run.\<close>

lemma frame_loop_feed:
  "frame_loop step p s = (s', p') \<Longrightarrow>
    frame_loop step (parser_feed p d) s = frame_loop step (parser_feed p' d) s'"
proof (induction step p s rule: frame_loop.induct)
  case (1 step p s)
  show ?case
  proof (cases "next_frame p")
    case None
    with "1.prems" show ?thesis by simp
  next
    case (Some x)
    then obtain ty pl q where x: "next_frame p = Some ((ty, pl), q)" by (cases x) auto
    then have "frame_loop step q (step ty pl s) = (s', p')"
      using "1.prems" by (subst (asm) frame_loop.simps) simp
    from "1.IH" [OF x refl refl this] next_frame_extend [OF x, of d] show ?thesis
      by (subst frame_loop.simps) simp
  qed
qed

section \<open>Requests\<close>

definition collect_frames :: "bytes \<Rightarrow> (u64 \<times> bytes) list \<times> frame_parser" where
  "collect_frames b = frame_loop (\<lambda>ty payload acc. acc @ [(ty, payload)]) (parser_of b) []"

lemma run_frames_collect: "run_frames (\<lambda>ty payload acc. acc @ [(ty, payload)]) fs acc = acc @ fs"
  by (induction fs arbitrary: acc) (auto simp: run_frames_def)

lemma collect_frames_enc:
  "list_all frame_valid fs \<Longrightarrow> collect_frames (concat (map frame_enc fs)) = (fs, parser_of [])"
  using frame_loop_frames [of fs "\<lambda>ty payload acc. acc @ [(ty, payload)]" "[]"] by (simp add: collect_frames_def run_frames_collect)

lemma encode_request_eq:
  "encode_request out meth authority path token body =
     out @ frame_enc (FRAME_HEADERS, encode_field_section (request_fields meth authority path token) [])
       @ (case body of None \<Rightarrow> [] | Some b \<Rightarrow> frame_enc (FRAME_DATA, b))"
  by (auto simp: encode_request_def frame_enc_def Let_def varint_encode_append [of _ out]
      varint_encode_append [of _ "_ @ _"] split: option.split)

lemma encode_request_frames:
  assumes "length (encode_request [] meth authority path token body) < 2 ^ 62"
  shows "let block = encode_field_section (request_fields meth authority path token) [] in
    collect_frames (encode_request [] meth authority path token body)
      = ((FRAME_HEADERS, block) # (case body of None \<Rightarrow> [] | Some b \<Rightarrow> [(FRAME_DATA, b)]), parser_of [])
    \<and> bindE (decoder_new block) field_lines = Inr (map literal_line (request_fields meth authority path token))"
proof -
  let ?block = "encode_field_section (request_fields meth authority path token) []"
  let ?fs = "(FRAME_HEADERS, ?block) # (case body of None \<Rightarrow> [] | Some b \<Rightarrow> [(FRAME_DATA, b)])"
  have enc: "encode_request [] meth authority path token body = concat (map frame_enc ?fs)"
    by (cases body) (simp_all add: encode_request_eq)
  have len: "length ?block < 2 ^ 62" "\<forall>b. body = Some b \<longrightarrow> length b < 2 ^ 62"
    using assms by (auto simp: encode_request_eq frame_enc_def)
  then have "list_all frame_valid ?fs"
    by (cases body) (simp_all add: frame_valid_def h3_consts)
  then have "collect_frames (encode_request [] meth authority path token body) = (?fs, parser_of [])"
    unfolding enc by (rule collect_frames_enc)
  moreover have "bindE (decoder_new ?block) field_lines
      = Inr (map literal_line (request_fields meth authority path token))"
    using len(1) by (intro field_section_decodes) simp
  ultimately show ?thesis by (simp add: Let_def)
qed



text \<open>The preamble is the control stream type followed by one SETTINGS frame.\<close>

lemma client_preamble_bytes: "client_preamble = [0x00, 0x04, 0x04, 0x01, 0x00, 0x07, 0x00]"
  by (simp add: client_preamble_def varint_encode_def h3_consts)

section \<open>Statuses\<close>

text \<open>What \<open>parse_status\<close> makes of a list of field lines: the first \<open>:status\<close>, zero without one.\<close>

definition status_value :: "bytes \<Rightarrow> u16" where
  "status_value v = (case parse_u16 (if utf8_valid v then v else as_bytes ''0'') of None \<Rightarrow> 0 | Some n \<Rightarrow> n)"

fun lines_status :: "field_line list \<Rightarrow> (u16, qpack_error) result" where
  "lines_status [] = Inr 0"
| "lines_status (l # ls) =
    (if name_bytes (fl_name l) = as_bytes '':status''
     then bindE (value_decode (fl_value l)) (\<lambda>v. Inr (status_value v)) else lines_status ls)"

lemma parse_status_lines: "field_lines d = Inr ls \<Longrightarrow> parse_status_loop d = lines_status ls"
proof (induction ls arbitrary: d)
  case Nil
  then have "decoder_next d = None"
    by (subst (asm) field_lines.simps) (auto simp: bindE_eq_Inr split: option.splits prod.splits sum.splits)
  then show ?case by (subst parse_status_loop.simps) simp
next
  case (Cons l ls)
  then obtain d' where "decoder_next d = Some (Inr l, d')" "field_lines d' = Inr ls"
    by (subst (asm) field_lines.simps) (auto simp: bindE_eq_Inr split: option.splits prod.splits sum.splits)
  with Cons.IH show ?case by (subst parse_status_loop.simps) (simp add: status_value_def Let_def)
qed

lemma lines_status_literal:
  "lines_status (map literal_line flds)
    = Inr (case map_of flds '':status'' of None \<Rightarrow> 0 | Some v \<Rightarrow> status_value (as_bytes v))"
  by (induction flds) (auto simp: literal_line_def)

lemma parse_status_section:
  assumes "length (encode_field_section flds []) < 2 ^ 63"
  shows "parse_status (encode_field_section flds [])
    = Inr (case map_of flds '':status'' of None \<Rightarrow> 0 | Some v \<Rightarrow> status_value (as_bytes v))"
proof -
  obtain d where "decoder_new (encode_field_section flds []) = Inr d" "field_lines d = Inr (map literal_line flds)"
    using field_section_decodes [OF assms] by (auto simp: bindE_eq_Inr)
  with parse_status_lines lines_status_literal show ?thesis by (simp add: parse_status_def)
qed

section \<open>Responses\<close>

text \<open>A stream whose kind is settled: every stream but a server uni stream that still waits for its type.\<close>

definition resolved :: "h3 \<Rightarrow> u64 \<Rightarrow> bool" where
  "resolved h s \<longleftrightarrow> (case streams h s of None \<Rightarrow> False | Some (ServerUni ty p) \<Rightarrow> ty \<noteq> None | Some _ \<Rightarrow> True)"

definition feed_all :: "h3 \<Rightarrow> u64 \<Rightarrow> bytes list \<Rightarrow> h3_event list \<Rightarrow> h3 \<times> h3_event list" where
  "feed_all h s chunks ev = foldl (\<lambda>(h, ev) c. h3_feed h s c ev) (h, ev) chunks"

lemma set_stream_simps [simp]:
  "streams (set_stream h s x) s = Some x"
  "set_stream (set_stream h s x) s y = set_stream h s y"
  "goaway (set_stream h s x) = goaway h"
  "remove (set_stream h s x) s = remove h s"
  by (simp_all add: set_stream_def remove_def)

lemma process_set_stream:
  "process_server_uni (set_stream h s (ServerUni ty p)) s ev =
    (if ty \<noteq> Some STREAM_TYPE_CONTROL then (set_stream h s (ServerUni ty p), ev)
     else case frame_loop uni_frame p (goaway h, ev) of ((g, ev'), p') \<Rightarrow>
       (set_stream (h\<lparr>goaway := g\<rparr>) s (ServerUni ty p'), ev'))"
  by (auto simp: process_server_uni_def set_stream_def split: prod.splits)

text \<open>The two feed branches of a settled stream, as equations.\<close>

lemma feed_response:
  "streams h s = Some (Response r) \<Longrightarrow> h3_feed h s d ev =
    (case frame_loop response_frame (parser_feed (r_parser r) d) (r_status r, r_body r, r_got_data r, r_failed r) of
       ((st, bd, gd, fl), p) \<Rightarrow> (set_stream h s (Response \<lparr>r_parser = p, r_status = st, r_body = bd,
          r_got_data = gd, r_failed = fl\<rparr>), ev))"
  by (simp add: h3_feed_def split: prod.split)

lemma feed_uni:
  "streams h s = Some (ServerUni (Some t) p) \<Longrightarrow>
    h3_feed h s d ev = process_server_uni (set_stream h s (ServerUni (Some t) (parser_feed p d))) s ev"
  by (simp add: h3_feed_def)

lemma feed_sink: "streams h s = Some Sink \<Longrightarrow> h3_feed h s d ev = (set_stream h s Sink, ev)"
  by (simp add: h3_feed_def)

lemma parser_feed_feed [simp]: "parser_feed (parser_feed p a) b = parser_feed p (a @ b)"
  by (simp add: parser_feed_def)

lemma feed_twice:
  assumes "resolved h s"
  shows "(case h3_feed h s a ev of (h', ev') \<Rightarrow> h3_feed h' s b ev') = h3_feed h s (a @ b) ev"
proof -
  consider r where "streams h s = Some (Response r)" | t p where "streams h s = Some (ServerUni (Some t) p)"
    | "streams h s = Some Sink"
    using assms by (auto simp: resolved_def split: option.splits stream_state.splits)
  then show ?thesis
  proof cases
    case (1 r)
    obtain st bd gd fl p where
      l: "frame_loop response_frame (parser_feed (r_parser r) a) (r_status r, r_body r, r_got_data r, r_failed r)
        = ((st, bd, gd, fl), p)"
      by (metis surj_pair)
    from frame_loop_feed [OF l, of b] l show ?thesis
      by (simp add: feed_response [OF 1] feed_response [of "set_stream _ _ _"])
  next
    case (2 t p)
    obtain g ev' q where l: "frame_loop uni_frame (parser_feed p a) (goaway h, ev) = ((g, ev'), q)"
      by (metis surj_pair)
    from frame_loop_feed [OF l, of b] l show ?thesis
      by (simp add: feed_uni [OF 2] process_set_stream feed_uni [of "set_stream _ _ _"]
          split: prod.split)
  next
    case 3
    then show ?thesis by (simp add: feed_sink)
  qed
qed

lemma feed_all_concat:
  assumes "resolved h s"
  shows "feed_all h s (c # cs) ev = h3_feed h s (c @ concat cs) ev"
  using assms
proof (induction cs arbitrary: c)
  case (Cons d cs)
  have "feed_all h s (c # d # cs) ev = feed_all h s ((c @ d) # cs) ev"
    using feed_twice [OF Cons.prems, where a = c and b = d and ev = ev] by (simp add: feed_all_def split: prod.splits)
  with Cons.IH [of "c @ d"] Cons.prems show ?case by simp
qed (simp add: feed_all_def)

text \<open>
  C21. How the transport cuts a stream into chunks does not matter: once the kind of a stream is settled
  (a request, the control stream, or a drained stream), feeding any sequence of chunks leaves exactly the
  state and the events of feeding their concatenation at once.
\<close>

theorem feed_segmentation:
  assumes "resolved h s" and "concat cs = concat ds" and "cs \<noteq> []" and "ds \<noteq> []"
  shows "feed_all h s cs ev = feed_all h s ds ev"
  using assms feed_all_concat [OF assms(1)] by (cases cs; cases ds) auto

theorem feed_segmentation_witness:
  "feed_all (register_request h3_new 0) 0 [[0], [2, 7], [8]] [] = feed_all (register_request h3_new 0) 0 [[0, 2, 7, 8]] []"
proof -
  have "resolved (register_request h3_new 0) 0" by (simp add: resolved_def register_request_def)
  from feed_segmentation [OF this, of "[[0], [2, 7], [8]]" "[[0, 2, 7, 8]]"] show ?thesis by simp
qed

text \<open>
  Reference semantics of a response: the payloads of its DATA frames joined, provided there is one, every
  HEADERS frame decodes, and the last one carries status 200.
\<close>

definition header_statuses :: "(u64 \<times> bytes) list \<Rightarrow> (u16, qpack_error) result list" where
  "header_statuses fs = [parse_status (snd f). f \<leftarrow> fs, fst f = FRAME_HEADERS]"

definition data_payloads :: "(u64 \<times> bytes) list \<Rightarrow> bytes list" where
  "data_payloads fs = [snd f. f \<leftarrow> fs, fst f = FRAME_DATA]"

definition delivered :: "(u64 \<times> bytes) list \<Rightarrow> bytes option" where
  "delivered fs =
    (if data_payloads fs \<noteq> [] \<and> header_statuses fs \<noteq> [] \<and> (\<forall>r \<in> set (header_statuses fs). \<not> isl r)
        \<and> last (header_statuses fs) = Inr 200
     then Some (concat (data_payloads fs)) else None)"

definition final_status :: "(u16, qpack_error) result list \<Rightarrow> u16 option" where
  "final_status rs =
    (let os = filter (\<lambda>r. \<not> isl r) rs in if os = [] then None else Some (projr (last os)))"

lemma final_status_snoc: "final_status (rs @ [Inr c]) = Some c" "final_status (rs @ [Inl e]) = final_status rs"
  by (auto simp: final_status_def)

lemma response_frame_simp:
  "response_frame fty payload (st, bd, gd, fl) =
    (if fty = FRAME_HEADERS then
       (case parse_status payload of Inr code \<Rightarrow> (Some code, bd, gd, fl) | Inl _ \<Rightarrow> (st, bd, gd, True))
     else if fty = FRAME_DATA then (st, bd @ payload, True, fl)
     else (st, bd, gd, fl))"
  by (simp add: response_frame_def)

lemma run_response_frames:
  "run_frames response_frame fs (None, [], False, False)
    = (final_status (header_statuses fs), concat (data_payloads fs), data_payloads fs \<noteq> [],
       \<exists>r \<in> set (header_statuses fs). isl r)"
proof (induction fs rule: rev_induct)
  case Nil
  then show ?case by (simp add: run_frames_def final_status_def header_statuses_def data_payloads_def)
next
  case (snoc f fs)
  have "run_frames response_frame (fs @ [f]) x = response_frame (fst f) (snd f) (run_frames response_frame fs x)" for x
    by (cases f) (simp add: run_frames_def)
  moreover have "header_statuses (fs @ [f]) = header_statuses fs @ (if fst f = FRAME_HEADERS then [parse_status (snd f)] else [])"
      "data_payloads (fs @ [f]) = data_payloads fs @ (if fst f = FRAME_DATA then [snd f] else [])"
    by (simp_all add: header_statuses_def data_payloads_def)
  moreover have "FRAME_DATA \<noteq> FRAME_HEADERS" by (simp add: h3_consts)
  ultimately show ?case
    using snoc.IH by (auto simp: response_frame_simp final_status_snoc split: sum.split)
qed

lemma final_status_all_ok:
  "rs \<noteq> [] \<Longrightarrow> \<forall>r \<in> set rs. \<not> isl r \<Longrightarrow> final_status rs = Some (projr (last rs))"
  by (cases rs rule: rev_cases) (auto simp: final_status_def)

lemma delivered_iff:
  "delivered fs = (if \<not> (\<exists>r \<in> set (header_statuses fs). isl r) \<and> data_payloads fs \<noteq> []
      \<and> final_status (header_statuses fs) = Some 200 then Some (concat (data_payloads fs)) else None)"
proof (cases "header_statuses fs = [] \<or> (\<exists>r \<in> set (header_statuses fs). isl r)")
  case True
  then show ?thesis by (auto simp: delivered_def final_status_def)
next
  case False
  then have "\<not> isl (last (header_statuses fs))" by simp
  then have "last (header_statuses fs) = Inr 200 \<longleftrightarrow> projr (last (header_statuses fs)) = 200"
    by (cases "last (header_statuses fs)") simp_all
  with False show ?thesis by (auto simp: delivered_def final_status_all_ok)
qed

lemma finish_set_response:
  "finish (set_stream h s (Response r)) s ev =
    (remove h s, ev @ [if \<not> r_failed r \<and> r_got_data r \<and> r_status r = Some 200
       then ResponseEv s (r_body r) else FailedEv s])"
  by (simp add: finish_def)

lemma register_request_set:
  "register_request h s = set_stream h s (Response \<lparr>r_parser = parser_default, r_status = None, r_body = [],
     r_got_data = False, r_failed = False\<rparr>)"
  by (simp add: register_request_def set_stream_def)

lemma response_event:
  assumes "list_all frame_valid fs" and "next_frame (parser_of tail) = None"
    and "concat chunks = concat (map frame_enc fs) @ tail"
  shows "(case feed_all (register_request h s) s chunks ev of (h', ev') \<Rightarrow> finish h' s ev')
    = (remove h s, ev @ [case delivered fs of Some body \<Rightarrow> ResponseEv s body | None \<Rightarrow> FailedEv s])"
proof (cases chunks)
  case Nil
  then have "delivered fs = None"
    using assms(3) by (cases fs) (auto simp: frame_enc_def varint_encode_def u64_to_be_def u32_to_be_def
        u16_to_be_def delivered_def data_payloads_def split: if_splits)
  with Nil show ?thesis by (simp add: feed_all_def register_request_set finish_set_response)
next
  case (Cons c cs)
  let ?r = "Response \<lparr>r_parser = parser_default, r_status = None, r_body = [], r_got_data = False, r_failed = False\<rparr>"
  let ?fin = "Response \<lparr>r_parser = parser_of tail, r_status = final_status (header_statuses fs),
      r_body = concat (data_payloads fs), r_got_data = data_payloads fs \<noteq> [],
      r_failed = (\<exists>r \<in> set (header_statuses fs). isl r)\<rparr>"
  have "resolved (register_request h s) s" by (simp add: resolved_def register_request_def)
  then have "feed_all (register_request h s) s chunks ev
      = h3_feed (register_request h s) s (concat (map frame_enc fs) @ tail) ev"
    using feed_all_concat assms(3) Cons by simp
  also have "\<dots> = (set_stream h s ?fin, ev)"
    using frame_loop_frames [OF assms(1), of response_frame tail "(None, [], False, False)"] assms(2)
    by (simp add: register_request_set feed_response [of "set_stream _ _ _"] parser_default_def
        run_response_frames)
  finally show ?thesis by (auto simp: finish_set_response delivered_iff)
qed

text \<open>
  C8. A request stream delivers exactly what the server sent, however it was cut into chunks: after the
  frames \<open>fs\<close> and possibly an incomplete last frame, the FIN produces one event and forgets the
  stream. The event is the joined DATA payloads when there is at least one DATA frame, every HEADERS
  frame decodes and the last one carries status 200, and a failure in every other case.
\<close>

theorem response_reassembly:
  assumes "list_all frame_valid fs" and "next_frame (parser_of tail) = None"
    and "concat chunks = concat (map frame_enc fs) @ tail"
  shows "(case feed_all (register_request h s) s chunks ev of (h', ev') \<Rightarrow> finish h' s ev')
    = (remove h s, ev @ [case delivered fs of Some body \<Rightarrow> ResponseEv s body | None \<Rightarrow> FailedEv s])"
  using assms by (rule response_event)

lemma status_200: "status_value (as_bytes ''200'') = 200"
  by (simp add: status_value_def parse_u16_def parse_uint_def as_bytes_def)

lemma short_section: "length (encode_field_section [('':status'', ''200'')] []) = 15"
    "length (encode_field_section [(''x-t'', ''1'')] []) = 8"
  by (simp_all add: encode_field_section_def encode_field_def write_prefix_int_def prefix_int_tail.simps)

lemma section_statuses:
  "parse_status (encode_field_section [('':status'', ''200'')] []) = Inr 200"
  "parse_status (encode_field_section [(''x-t'', ''1'')] []) = Inr 0"
  by (subst parse_status_section; simp add: short_section status_200)+

theorem response_reassembly_witness:
  "let fs = [(FRAME_HEADERS, encode_field_section [('':status'', ''200'')] []), (FRAME_DATA, [7, 8, 9])];
       chunks = map (\<lambda>b. [b]) (concat (map frame_enc fs))
   in (case feed_all (register_request h3_new 4) 4 chunks [] of (h', ev') \<Rightarrow> finish h' 4 ev')
     = (remove h3_new 4, [ResponseEv 4 [7, 8, 9]])"
proof -
  let ?fs = "[(FRAME_HEADERS, encode_field_section [('':status'', ''200'')] []), (FRAME_DATA, [7, 8, 9])]"
  have "delivered ?fs = Some [7, 8, 9]"
    by (simp add: delivered_def data_payloads_def header_statuses_def section_statuses h3_consts)
  moreover have "list_all frame_valid ?fs"
    by (simp add: frame_valid_def short_section h3_consts)
  ultimately show ?thesis
    using response_reassembly [of ?fs "[]" "map (\<lambda>b. [b]) (concat (map frame_enc ?fs))", where h = h3_new and s = 4 and ev = "[]"]
    by (simp add: Let_def concat_map_singleton)
qed


text \<open>
  A malformed HEADERS frame marks the stream as failed without reporting it (only the FIN does), so a
  reset that follows forgets the stream silently: no event ever tells the worker that this request failed.
\<close>

lemma reset_after_malformed_headers:
  "case h3_feed (register_request h s) s (frame_enc (FRAME_HEADERS, [])) ev of
     (h', ev') \<Rightarrow> ev' = ev \<and> reset h' s ev' = (remove h s, ev) \<and> finish h' s ev' = (remove h s, ev @ [FailedEv s])"
proof -
  have "frame_valid (FRAME_HEADERS, [])" by (simp add: frame_valid_def h3_consts)
  then have "frame_loop response_frame (parser_of (frame_enc (FRAME_HEADERS, []))) (None, [], False, False)
      = ((None, [], False, True), parser_of [])"
    using frame_loop_frames [of "[(FRAME_HEADERS, [])]" response_frame "[]"]
    by (simp add: run_frames_def response_frame_def parse_status_def decoder_new_def read_prefix_int_def
        bindP_def get_def h3_consts)
  then show ?thesis
    by (simp add: register_request_set feed_response [of "set_stream _ _ _"] parser_default_def
        reset_def finish_set_response)
qed

text \<open>
  The type of a server stream is misread when it is split between two chunks: the reserved type
  \<open>0x800\<close> (a GREASE value, two bytes on the wire) is drained when it arrives whole, but when its second
  byte comes in a later chunk that byte is decoded alone, the stream is taken for the control stream and
  its payload is parsed as frames, here producing a GOAWAY that the server never sent.
\<close>

lemma split_stream_type_misread:
  "snd (feed_all h3_new 3 [[0x48, 0x00, 0x00, 0x00, 0x07, 0x00]] []) = []
   \<and> snd (feed_all h3_new 3 [[0x48], [0x00, 0x00, 0x00, 0x07, 0x00]] []) = [GoawayEv]"
  by code_simp

end
