(* ===== verification/Net.thy ===== *)
theory Net
  imports Prelude
begin

text \<open>
  IP and socket addresses of the standard library, as far as the program uses them, and the two
  helpers of \<^verbatim>\<open>src/pkgs/microdoh3/src/quic.rs\<close> that undo IPv4-mapped IPv6 addresses. An IPv4 address
  is its 32-bit value, an IPv6 address its 128-bit value; \<open>octets\<close> lists the bytes in network order.
\<close>

type_synonym ipv4 = u32
type_synonym ipv6 = "128 word"

datatype ip_addr = V4 ipv4 | V6 ipv6

record sock_addr =
  sa_ip :: ip_addr
  sa_port :: u16

definition octets :: "nat \<Rightarrow> 'a :: len word \<Rightarrow> bytes" where
  "octets k w = map (\<lambda>i. ucast (drop_bit (8 * (k - 1 - i)) w)) [0..<k]"

definition from_octets :: "bytes \<Rightarrow> 'a :: len word" where
  "from_octets bs = foldl (\<lambda>a b. push_bit 8 a OR ucast b) 0 bs"

lemma length_octets [simp]: "length (octets k w) = k"
  by (simp add: octets_def)

lemma nth_octets: "i < k \<Longrightarrow> octets k w ! i = ucast (drop_bit (8 * (k - 1 - i)) w)"
  by (simp add: octets_def)

lemma bit_from_octets:
  "bit (from_octets bs :: 'a :: len word) n \<longleftrightarrow>
     n < LENGTH('a) \<and> n < 8 * length bs \<and> bit (bs ! (length bs - 1 - n div 8)) (n mod 8)"
proof (induction bs arbitrary: n rule: rev_induct)
  case Nil
  then show ?case by (simp add: from_octets_def)
next
  case (snoc b bs)
  have split: "bit (from_octets (bs @ [b]) :: 'a word) n \<longleftrightarrow>
      n < LENGTH('a) \<and> (if n < 8 then bit b n else bit (from_octets bs :: 'a word) (n - 8))"
    by (auto simp: from_octets_def bit_simps dest: bit_imp_le_length)
  show ?case
  proof (cases "n < 8")
    case True
    with split show ?thesis by (simp add: nth_append)
  next
    case False
    then obtain m where n: "n = m + 8" by (metis add.commute le_Suc_ex not_less)
    have "(m + 8) div 8 = Suc (m div 8)" by simp
    moreover have "length bs - Suc (m div 8) < length bs" if "m < 8 * length bs" using that by auto
    ultimately show ?thesis using split snoc [of m] by (auto simp: n nth_append)
  qed
qed

lemma from_octets_octets: "LENGTH('a) = 8 * k \<Longrightarrow> from_octets (octets k w) = (w :: 'a :: len word)"
proof (rule bit_eqI)
  fix n
  assume k: "LENGTH('a) = 8 * k" and n: "possible_bit TYPE('a word) n"
  then have lt: "n < 8 * k" by simp
  then have "n div 8 < k" by (simp add: less_mult_imp_div_less mult.commute)
  then have "k - 1 - (k - 1 - n div 8) = n div 8" by simp
  moreover have "8 * (n div 8) + n mod 8 = n" by simp
  moreover have "n mod 8 < LENGTH(8)" using mod_less_divisor [of 8 n] by (simp only: len_of_numeral_defs)
  ultimately show "bit (from_octets (octets k w) :: 'a word) n \<longleftrightarrow> bit w n"
    using k lt by (simp add: bit_from_octets nth_octets bit_simps add.commute)
qed

section \<open>IPv4-mapped addresses\<close>

text \<open>\<open>Ipv6Addr::to_ipv4_mapped\<close>: the last four octets of \<open>::ffff:a.b.c.d\<close>.\<close>

definition to_ipv4_mapped :: "ipv6 \<Rightarrow> ipv4 option" where
  "to_ipv4_mapped w = (if drop_bit 32 w = 0xFFFF then Some (ucast w) else None)"

definition to_ipv6_mapped :: "ipv4 \<Rightarrow> ipv6" where
  "to_ipv6_mapped a = push_bit 32 0xFFFF OR ucast a"

definition unmap_ip :: "ip_addr \<Rightarrow> ip_addr" where
  "unmap_ip ip =
    (case ip of
       V6 v6 \<Rightarrow> (case to_ipv4_mapped v6 of Some v4 \<Rightarrow> V4 v4 | None \<Rightarrow> V6 v6)
     | V4 v4 \<Rightarrow> V4 v4)"

definition unmap_addr :: "sock_addr \<Rightarrow> sock_addr" where
  "unmap_addr a =
    (case sa_ip a of
       V6 v6 \<Rightarrow> (case to_ipv4_mapped v6 of Some v4 \<Rightarrow> \<lparr>sa_ip = V4 v4, sa_port = sa_port a\<rparr> | None \<Rightarrow> a)
     | V4 _ \<Rightarrow> a)"

lemma drop_mapped: "drop_bit 32 (to_ipv6_mapped a) = 0xFFFF"
proof -
  have "drop_bit 32 (push_bit 32 0xFFFF :: ipv6) = 0xFFFF" by simp
  moreover have "drop_bit 32 (ucast a :: ipv6) = 0"
    by (rule bit_eqI) (auto simp: bit_simps dest: bit_imp_le_length)
  ultimately show ?thesis by (simp only: to_ipv6_mapped_def drop_bit_or or.right_neutral)
qed

lemma ucast_mapped: "ucast (to_ipv6_mapped a) = a"
proof -
  have "ucast (push_bit 32 c OR ucast a :: ipv6) = a" for c
    by (rule bit_eqI) (auto simp: bit_simps)
  then show ?thesis by (simp only: to_ipv6_mapped_def)
qed

lemma unmap_ip_mapped: "unmap_ip (V6 (to_ipv6_mapped a)) = V4 a"
  by (simp add: unmap_ip_def to_ipv4_mapped_def drop_mapped ucast_mapped)

lemma unmap_ip_idem: "unmap_ip (unmap_ip ip) = unmap_ip ip"
  by (auto simp: unmap_ip_def split: ip_addr.splits option.splits)

lemma unmap_addr_ip: "sa_ip (unmap_addr a) = unmap_ip (sa_ip a)"
  by (auto simp: unmap_addr_def unmap_ip_def split: ip_addr.splits option.splits)

lemma unmap_addr_idem: "unmap_addr (unmap_addr a) = unmap_addr a"
  by (auto simp: unmap_addr_def split: ip_addr.splits option.splits)

end
