(* ===== verification/Shared.thy ===== *)
theory Shared
  imports Net
begin

text \<open>
  \<^verbatim>\<open>src/pkgs/microdoh3/src/shared.rs\<close>: the two shared pages between the supervisor and its workers.
  A page without its sequence counter is a record; the counter stands beside it. This theory has the
  sequential meaning of every operation (what it does when nothing else runs) and the selection of a
  worker's address from the published weights; the interleaved meaning is in \<open>Seqlock\<close>. The clock
  (\<open>CLOCK_MONOTONIC\<close> seconds) is an argument of the operations that read it.
\<close>

definition MAX_ADDRS :: usize where "MAX_ADDRS = 16"
definition MAX_WORKERS :: usize where "MAX_WORKERS = 32"
definition FLAG_CONNECTED :: u32 where "FLAG_CONNECTED = push_bit 0 1"
definition FLAG_HANDSHAKING :: u32 where "FLAG_HANDSHAKING = push_bit 1 1"
definition FLAG_ZERO_RTT :: u32 where "FLAG_ZERO_RTT = push_bit 2 1"

definition score_from_rtt :: "u32 \<Rightarrow> u32" where
  "score_from_rtt rtt_us = (if rtt_us = 0 then 0 else 1000000 div rtt_us)"

section \<open>Addresses in shared memory\<close>

record raw_addr =
  ra_bytes :: bytes
  ra_is_v6 :: u8

definition raw_default :: raw_addr where
  "raw_default = \<lparr>ra_bytes = replicate 16 0, ra_is_v6 = 0\<rparr>"

definition from_ip :: "ip_addr \<Rightarrow> raw_addr" where
  "from_ip ip =
    (let raw = raw_default in
     case ip of
       V4 v4 \<Rightarrow> raw\<lparr>ra_bytes := octets 4 v4 @ drop 4 (ra_bytes raw), ra_is_v6 := 0\<rparr>
     | V6 v6 \<Rightarrow> raw\<lparr>ra_bytes := octets 16 v6, ra_is_v6 := 1\<rparr>)"

definition to_ip :: "raw_addr \<Rightarrow> ip_addr" where
  "to_ip raw =
    (if ra_is_v6 raw = 1 then V6 (from_octets (ra_bytes raw))
     else V4 (from_octets [ra_bytes raw ! 0, ra_bytes raw ! 1, ra_bytes raw ! 2, ra_bytes raw ! 3]))"

section \<open>The resolve page\<close>

record resolve_page =
  rp_count :: u32
  rp_revision :: u32
  rp_workers :: u32
  rp_published :: u64
  rp_expires :: u64
  rp_addrs :: "raw_addr list"
  rp_weights :: "u32 list"

record shared_resolve =
  sr_seq :: u32
  sr_page :: resolve_page

record upstream_set =
  us_addrs :: "ip_addr list"
  us_weights :: "u32 list"
  us_revision :: u32
  us_workers :: u32
  us_published :: u64

text \<open>A fresh mapping is zero filled, and \<open>ResolveWriter::create\<close> stores sequence 0.\<close>

definition zero_page :: resolve_page where
  "zero_page = \<lparr>rp_count = 0, rp_revision = 0, rp_workers = 0, rp_published = 0, rp_expires = 0,
     rp_addrs = replicate MAX_ADDRS raw_default, rp_weights = replicate MAX_ADDRS 0\<rparr>"

definition resolve_create :: shared_resolve where
  "resolve_create = \<lparr>sr_seq = 0, sr_page = zero_page\<rparr>"

text \<open>What one publication carries: the arguments of \<open>publish\<close> and the three clock readings.\<close>

record publication =
  pb_addrs :: "ip_addr list"
  pb_weights :: "u32 list"
  pb_workers :: usize
  pb_now1 :: u64
  pb_now2 :: u64
  pb_ttl :: u64

definition weight_or :: "u32 list \<Rightarrow> usize \<Rightarrow> u32" where
  "weight_or ws i = (case get ws i of Some w \<Rightarrow> w | None \<Rightarrow> 1)"

definition publish_page :: "publication \<Rightarrow> resolve_page \<Rightarrow> resolve_page" where
  "publish_page pb p =
    (let n = min (length (pb_addrs pb)) MAX_ADDRS in
     p\<lparr>rp_count := of_nat n,
       rp_revision := rp_revision p + 1,
       rp_workers := of_nat (pb_workers pb),
       rp_addrs := map from_ip (take n (pb_addrs pb)) @ drop n (rp_addrs p),
       rp_weights := map (weight_or (pb_weights pb)) [0..<n] @ replicate (length (rp_weights p) - n) 0,
       rp_published := pb_now1 pb,
       rp_expires := pb_now2 pb + pb_ttl pb\<rparr>)"

definition publish :: "publication \<Rightarrow> shared_resolve \<Rightarrow> shared_resolve" where
  "publish pb sh =
    (let old = sr_seq sh;
         sh = sh\<lparr>sr_seq := old + 1\<rparr>;
         sh = sh\<lparr>sr_page := publish_page pb (sr_page sh)\<rparr>
     in sh\<lparr>sr_seq := old + 2\<rparr>)"

definition decode_page :: "resolve_page \<Rightarrow> upstream_set" where
  "decode_page p =
    (let count = min (rp_count p) (of_nat MAX_ADDRS) in
     \<lparr>us_addrs = map (\<lambda>i. to_ip (rp_addrs p ! i)) [0..<unat count],
      us_weights = map (\<lambda>i. rp_weights p ! i) [0..<unat count],
      us_revision = rp_revision p,
      us_workers = rp_workers p,
      us_published = rp_published p\<rparr>)"

text \<open>\<open>ResolveReader::read_if_changed\<close> with no concurrent writer: the second load sees the first value.\<close>

definition read_if_changed :: "shared_resolve \<Rightarrow> u32 \<Rightarrow> upstream_set option \<times> u32" where
  "read_if_changed sh last_seq =
    (let first = sr_seq sh in
     if first = last_seq \<or> first mod 2 = 1 then (None, last_seq)
     else (Some (decode_page (sr_page sh)), first))"

definition is_stale :: "shared_resolve \<Rightarrow> u64 \<Rightarrow> bool" where
  "is_stale sh mono_now \<longleftrightarrow> mono_now > rp_expires (sr_page sh)"

section \<open>Slot selection\<close>

fun slot_loop :: "u64 \<Rightarrow> u32 list \<Rightarrow> u64 \<Rightarrow> usize \<Rightarrow> usize option" where
  "slot_loop target [] acc i = None"
| "slot_loop target (w # ws) acc i =
    (let acc = acc + ucast w in if target < acc then Some i else slot_loop target ws acc (i + 1))"

definition total_weight :: "u32 list \<Rightarrow> u64" where
  "total_weight ws = foldl (\<lambda>a w. a + ucast w) 0 ws"

definition slot_for :: "upstream_set \<Rightarrow> usize \<Rightarrow> usize option" where
  "slot_for us idx =
    (let n = min (length (us_addrs us)) (length (us_weights us)) in
     if n = 0 then None
     else
       let workers = ucast (max (us_workers us) 1) :: u64;
           total = total_weight (take n (us_weights us))
       in
       if total = 0 then Some (unat ((of_nat idx :: u64) mod of_nat n))
       else
         let target = (2 * of_nat idx + 1) * total div (2 * workers) in
         (case slot_loop target (take n (us_weights us)) 0 0 of
            Some i \<Rightarrow> Some i
          | None \<Rightarrow> Some (n - 1)))"

definition weight_of :: "upstream_set \<Rightarrow> ip_addr \<Rightarrow> u32" where
  "weight_of us addr =
    (case position (\<lambda>a. a = addr) (us_addrs us) of
       None \<Rightarrow> 0
     | Some i \<Rightarrow> (case get (us_weights us) i of Some w \<Rightarrow> w | None \<Rightarrow> 0))"

section \<open>The scores page\<close>

record score_slot =
  ss_addr :: raw_addr
  ss_score :: u32
  ss_ok :: u32
  ss_fail :: u32
  ss_flags :: u32
  ss_updated :: u64

record score_sample =
  sm_addr :: "ip_addr option"
  sm_score :: u32
  sm_ok :: u32
  sm_fail :: u32
  sm_flags :: u32
  sm_updated :: u64

record locked_slot =
  ls_seq :: u32
  ls_slot :: score_slot

type_synonym shared_scores = "locked_slot list"

definition zero_slot :: locked_slot where
  "zero_slot = \<lparr>ls_seq = 0, ls_slot = \<lparr>ss_addr = raw_default, ss_score = 0, ss_ok = 0, ss_fail = 0,
     ss_flags = 0, ss_updated = 0\<rparr>\<rparr>"

definition scores_create :: shared_scores where
  "scores_create = replicate MAX_WORKERS zero_slot"

definition score_writer_idx :: "usize \<Rightarrow> usize" where
  "score_writer_idx idx = min idx (MAX_WORKERS - 1)"

text \<open>The fields of a slot after a write at clock \<open>now\<close>.\<close>

definition slot_of_sample :: "score_sample \<times> u64 \<Rightarrow> score_slot" where
  "slot_of_sample = (\<lambda>(sample, now).
     \<lparr>ss_addr = (case sm_addr sample of None \<Rightarrow> raw_default | Some a \<Rightarrow> from_ip a),
      ss_score = sm_score sample, ss_ok = sm_ok sample, ss_fail = sm_fail sample,
      ss_flags = sm_flags sample, ss_updated = now\<rparr>)"

definition score_write :: "shared_scores \<Rightarrow> usize \<Rightarrow> score_sample \<Rightarrow> u64 \<Rightarrow> shared_scores" where
  "score_write page idx sample now =
    (let i = score_writer_idx idx; old = ls_seq (page ! i)
     in page[i := \<lparr>ls_seq = old + 2, ls_slot = slot_of_sample (sample, now)\<rparr>])"

definition sample_of_slot :: "score_slot \<Rightarrow> score_sample" where
  "sample_of_slot s =
    \<lparr>sm_addr = (if list_all (\<lambda>b. b = 0) (ra_bytes (ss_addr s)) \<and> ra_is_v6 (ss_addr s) = 0 then None
                else Some (to_ip (ss_addr s))),
     sm_score = ss_score s, sm_ok = ss_ok s, sm_fail = ss_fail s, sm_flags = ss_flags s,
     sm_updated = ss_updated s\<rparr>"

definition score_read :: "shared_scores \<Rightarrow> usize \<Rightarrow> score_sample option" where
  "score_read page idx =
    (if idx \<ge> MAX_WORKERS then None
     else
       let first = ls_seq (page ! idx) in
       if first = 0 \<or> first mod 2 = 1 then None
       else Some (sample_of_slot (ls_slot (page ! idx))))"

section \<open>Round trips\<close>

lemma to_ip_from_ip [simp]: "to_ip (from_ip ip) = ip"
proof (cases ip)
  case (V4 a)
  have "[x ! 0, x ! 1, x ! 2, x ! 3] = x" if "length x = 4" for x :: bytes
    using that by (auto simp: list_eq_iff_nth_eq less_Suc_eq numeral_eq_Suc)
  from this [of "octets 4 a"] have "from_octets [octets 4 a ! 0, octets 4 a ! 1, octets 4 a ! 2, octets 4 a ! 3] = a"
    by (simp add: from_octets_octets)
  with V4 show ?thesis by (simp add: from_ip_def to_ip_def raw_default_def nth_append)
next
  case (V6 a)
  then show ?thesis by (simp add: from_ip_def to_ip_def raw_default_def from_octets_octets)
qed

text \<open>A stored address is all zero exactly for 0.0.0.0, the address the scores page cannot carry.\<close>

lemma octets_zero_iff:
  assumes "LENGTH('a) = 8 * k"
  shows "list_all (\<lambda>b. b = 0) (octets k (w :: 'a :: len word)) \<longleftrightarrow> w = 0"
proof
  assume "list_all (\<lambda>b. b = 0) (octets k w)"
  then have "octets k w = octets k (0 :: 'a word)"
    by (auto simp: list_eq_iff_nth_eq list_all_length nth_octets)
  then show "w = 0" using from_octets_octets [OF assms] by metis
qed (simp add: octets_def list_all_iff)

lemma list_all_replicate_0: "list_all (\<lambda>b. b = 0) (replicate n (0 :: u8))"
  by (simp add: list_all_iff)

lemma raw_zero_iff:
  "list_all (\<lambda>b. b = 0) (ra_bytes (from_ip ip)) \<and> ra_is_v6 (from_ip ip) = 0 \<longleftrightarrow> ip = V4 0"
  by (cases ip) (simp_all add: from_ip_def raw_default_def octets_zero_iff list_all_replicate_0)

definition page_ok :: "resolve_page \<Rightarrow> bool" where
  "page_ok p \<longleftrightarrow> length (rp_addrs p) = MAX_ADDRS \<and> length (rp_weights p) = MAX_ADDRS"

lemma page_ok_zero: "page_ok zero_page"
  by (simp add: page_ok_def zero_page_def)

lemma page_ok_publish: "page_ok p \<Longrightarrow> page_ok (publish_page pb p)"
  by (auto simp: page_ok_def publish_page_def Let_def)

lemma decode_publish:
  assumes "page_ok p"
  shows "decode_page (publish_page pb p) =
    \<lparr>us_addrs = take MAX_ADDRS (pb_addrs pb),
     us_weights = map (weight_or (pb_weights pb)) [0..<min (length (pb_addrs pb)) MAX_ADDRS],
     us_revision = rp_revision p + 1, us_workers = of_nat (pb_workers pb), us_published = pb_now1 pb\<rparr>"
proof -
  let ?n = "min (length (pb_addrs pb)) MAX_ADDRS"
  have n: "?n \<le> 16" by (simp add: MAX_ADDRS_def)
  then have "unat (min (of_nat ?n) (of_nat MAX_ADDRS) :: u32) = ?n"
    by (simp add: min_def word_le_nat_alt unat_of_nat MAX_ADDRS_def)
  then show ?thesis
    by (auto simp: decode_page_def publish_page_def Let_def nth_append list_eq_iff_nth_eq)
qed

section \<open>Slot selection without overflow\<close>

text \<open>The weights and the fleet as natural numbers.\<close>

definition cum :: "u32 list \<Rightarrow> nat \<Rightarrow> nat" where
  "cum ws i = sum_list (map unat (take i ws))"

definition set_weights :: "upstream_set \<Rightarrow> u32 list" where
  "set_weights us = take (min (length (us_addrs us)) (length (us_weights us))) (us_weights us)"

definition fleet :: "upstream_set \<Rightarrow> nat" where
  "fleet us = max (unat (us_workers us)) 1"

definition target_nat :: "upstream_set \<Rightarrow> usize \<Rightarrow> nat" where
  "target_nat us idx = (2 * idx + 1) * cum (set_weights us) (length (set_weights us)) div (2 * fleet us)"

lemma cum_0 [simp]: "cum ws 0 = 0"
  by (simp add: cum_def)

lemma cum_Suc: "i < length ws \<Longrightarrow> cum ws (Suc i) = cum ws i + unat (ws ! i)"
  by (simp add: cum_def take_Suc_conv_app_nth)

lemma cum_mono: "i \<le> j \<Longrightarrow> cum ws i \<le> cum ws j"
proof -
  assume "i \<le> j"
  then have "take j ws = take i ws @ take (j - i) (drop i ws)"
    by (metis le_add_diff_inverse take_add)
  then show ?thesis by (simp add: cum_def)
qed

lemma u32_less: "unat (w :: u32) < 2 ^ 32"
  using unsigned_less [where 'a = nat, of w] by simp

lemma cum_less: "cum ws i \<le> length ws * (2 ^ 32 - 1)"
proof -
  have "sum_list (map unat (xs :: u32 list)) \<le> length xs * (2 ^ 32 - 1)" for xs
  proof (induction xs)
    case (Cons x xs)
    then show ?case using u32_less [of x] by simp
  qed simp
  from this [of "take i ws"] show ?thesis
    unfolding cum_def by (rule order_trans) simp
qed

lemma unat_ucast_u32: "unat (ucast (w :: u32) :: u64) = unat w"
  using u32_less [of w] by (simp add: unsigned_ucast_eq take_bit_nat_eq_self)

lemma unat_add_u32:
  "unat (acc :: u64) + unat (w :: u32) < 2 ^ 64 \<Longrightarrow> unat (acc + ucast w) = unat acc + unat w"
  using unat_add_lem [of acc "ucast w"] by (simp add: unat_ucast_u32)

lemma total_weight_nat:
  assumes "length ws \<le> 16"
  shows "unat (total_weight ws) = cum ws (length ws)"
proof -
  have "unat (foldl (\<lambda>a w. a + ucast w) (acc :: u64) xs) = unat acc + sum_list (map unat xs)"
    if "unat acc + sum_list (map unat xs) < 2 ^ 64" for acc and xs :: "u32 list"
    using that
  proof (induction xs arbitrary: acc)
    case (Cons x xs)
    then have "unat (acc + ucast x) = unat acc + unat x" by (intro unat_add_u32) simp
    with Cons show ?case by simp
  qed simp
  from this [of 0 ws] show ?thesis
    using cum_less [of ws "length ws"] assms by (simp add: total_weight_def cum_def)
qed

text \<open>The loop stops in the interval that holds the target.\<close>

lemma slot_loop_iff:
  assumes "unat acc + cum ws (length ws) < 2 ^ 64" and "unat acc \<le> unat target"
  shows "slot_loop target ws acc i = Some k \<longleftrightarrow>
    (\<exists>j < length ws. k = i + j \<and> unat acc + cum ws j \<le> unat target \<and> unat target < unat acc + cum ws (Suc j))"
  using assms
proof (induction ws arbitrary: acc i)
  case (Cons w ws)
  let ?acc = "acc + ucast w"
  have c: "cum (w # ws) (Suc m) = unat w + cum ws m" for m by (simp add: cum_def)
  have acc: "unat ?acc = unat acc + unat w"
    using Cons.prems by (intro unat_add_u32) (simp add: cum_def)
  have lt: "target < ?acc \<longleftrightarrow> unat target < unat acc + unat w" by (simp only: word_less_nat_alt acc)
  show ?case
  proof (cases "target < ?acc")
    case True
    then show ?thesis
      using lt Cons.prems(2) by (auto simp: Ex_less_Suc2 c add.assoc [symmetric])
  next
    case False
    have "unat ?acc + cum ws (length ws) < 2 ^ 64" "unat ?acc \<le> unat target"
      using Cons.prems(1) False lt by (simp_all add: acc cum_def)
    from Cons.IH [OF this, of "i + 1"] False show ?thesis
      using lt by (simp add: acc Ex_less_Suc2 c add.assoc [symmetric])
  qed
qed simp

definition small_set :: "upstream_set \<Rightarrow> bool" where
  "small_set us \<longleftrightarrow> length (us_addrs us) \<le> MAX_ADDRS \<and> us_addrs us \<noteq> [] \<and> us_weights us \<noteq> []"

lemma set_weights_len:
  "small_set us \<Longrightarrow> length (set_weights us) \<le> 16 \<and> length (set_weights us) > 0
     \<and> length (set_weights us) = min (length (us_addrs us)) (length (us_weights us))"
  by (auto simp: small_set_def set_weights_def MAX_ADDRS_def)

lemma unat_fleet: "unat (ucast (max (us_workers us) 1) :: u64) = fleet us"
  by (auto simp: unat_ucast_u32 fleet_def max_def word_le_nat_alt)

lemma fleet_bounds: "1 \<le> fleet us" "fleet us < 2 ^ 32"
  using u32_less [of "us_workers us"] by (auto simp: fleet_def)

lemma target_exact:
  assumes "small_set us" "idx < 2 ^ 27"
  shows "unat ((2 * of_nat idx + 1) * total_weight (set_weights us) div (2 * ucast (max (us_workers us) 1)) :: u64)
    = target_nat us idx"
proof -
  let ?ws = "set_weights us" and ?t = "total_weight (set_weights us)" and ?a = "2 * of_nat idx + 1 :: u64"
  let ?d = "2 * ucast (max (us_workers us) 1) :: u64"
  have len: "length ?ws \<le> 16" using set_weights_len [OF assms(1)] by simp
  have t: "unat ?t = cum ?ws (length ?ws)" by (rule total_weight_nat [OF len])
  have "cum ?ws (length ?ws) \<le> length ?ws * (2 ^ 32 - 1)" by (rule cum_less)
  also have "\<dots> \<le> 16 * (2 ^ 32 - 1)" using len by (rule mult_right_mono) simp
  finally have T: "cum ?ws (length ?ws) \<le> 16 * (2 ^ 32 - 1)" .
  have a: "unat ?a = 2 * idx + 1"
  proof -
    have "?a = of_nat (2 * idx + 1)" by simp
    then show ?thesis using assms(2) unat_of_nat_u64 [of "2 * idx + 1"] by (simp only:) simp
  qed
  have "unat ?a * unat ?t \<le> 2 ^ 28 * (16 * (2 ^ 32 - 1))"
    unfolding a t using T assms(2) by (intro mult_mono) simp_all
  then have "unat ?a * unat ?t < 2 ^ LENGTH(64)" by (rule order_le_less_trans) simp
  then have m: "unat (?a * ?t) = unat ?a * unat ?t" by (rule unat_mult_lem [THEN iffD1])
  have "unat ?d = 2 * fleet us"
  proof -
    have "unat (2 :: u64) * unat (ucast (max (us_workers us) 1) :: u64) < 2 ^ LENGTH(64)"
      using fleet_bounds(2) [of us] by (simp add: unat_fleet)
    then show ?thesis by (simp only: unat_mult_lem [THEN iffD1] unat_fleet) simp
  qed
  then show ?thesis by (simp only: unat_div m a t target_nat_def)
qed

abbreviation total_of :: "upstream_set \<Rightarrow> nat" where
  "total_of us \<equiv> cum (set_weights us) (length (set_weights us))"

lemma target_less_iff: "target_nat us idx < c \<longleftrightarrow> (2 * idx + 1) * total_of us < 2 * fleet us * c"
  using fleet_bounds(1) [of us] by (simp add: target_nat_def div_less_iff_less_mult mult.commute)

lemma target_less_total: "idx < fleet us \<Longrightarrow> 0 < total_of us \<Longrightarrow> target_nat us idx < total_of us"
  unfolding target_less_iff by (rule mult_strict_right_mono) simp_all

lemma cum_interval: "t < cum ws n \<Longrightarrow> \<exists>j < n. cum ws j \<le> t \<and> t < cum ws (Suc j)"
proof (induction n)
  case (Suc n)
  show ?case
  proof (cases "t < cum ws n")
    case True
    with Suc.IH show ?thesis by (blast intro: less_SucI)
  next
    case False
    with Suc.prems show ?thesis by (intro exI [of _ n]) simp
  qed
qed simp

lemma cum_interval_unique:
  assumes "cum ws i \<le> t" "t < cum ws (Suc i)" "cum ws j \<le> t" "t < cum ws (Suc j)"
  shows "i = j"
proof (rule ccontr)
  assume "i \<noteq> j"
  then consider "Suc i \<le> j" | "Suc j \<le> i" by linarith
  then show False using assms cum_mono [of "Suc i" j ws] cum_mono [of "Suc j" i ws] by cases linarith+
qed

text \<open>The slot of a worker of the fleet: the interval of the cumulative weights that its midpoint falls in.\<close>

lemma slot_for_iff:
  assumes us: "small_set us" and idx: "idx < fleet us" "idx < 2 ^ 27" and T: "0 < total_of us"
  shows "slot_for us idx = Some j \<longleftrightarrow>
    j < length (set_weights us) \<and> cum (set_weights us) j \<le> target_nat us idx
      \<and> target_nat us idx < cum (set_weights us) (Suc j)"
proof -
  let ?ws = "set_weights us"
  let ?t = "(2 * of_nat idx + 1) * total_weight ?ws div (2 * ucast (max (us_workers us) 1)) :: u64"
  note len = set_weights_len [OF us]
  have t: "unat ?t = target_nat us idx" by (rule target_exact [OF us idx(2)])
  have "unat (total_weight ?ws) \<noteq> 0" using total_weight_nat [of ?ws] len T by simp
  then have nz: "total_weight ?ws \<noteq> 0" by auto
  have "unat (0 :: u64) + cum ?ws (length ?ws) < 2 ^ 64"
    using cum_less [of ?ws "length ?ws"] len by simp
  then have loop: "slot_loop ?t ?ws 0 0 = Some k \<longleftrightarrow>
      k < length ?ws \<and> cum ?ws k \<le> target_nat us idx \<and> target_nat us idx < cum ?ws (Suc k)" for k
    using slot_loop_iff [of 0 ?ws ?t 0 k] t by simp
  obtain k where k: "k < length ?ws" "cum ?ws k \<le> target_nat us idx" "target_nat us idx < cum ?ws (Suc k)"
    using cum_interval [OF target_less_total [OF idx(1) T]] by blast
  then have hit: "slot_loop ?t ?ws 0 0 = Some k" by (simp add: loop)
  have "set_weights us = take (min (length (us_addrs us)) (length (us_weights us))) (us_weights us)"
    by (simp add: set_weights_def)
  then have "slot_for us idx = Some k"
    using len nz hit by (auto simp: slot_for_def Let_def)
  with k show ?thesis by (auto dest: cum_interval_unique)
qed

lemma slot_for_exists:
  assumes "small_set us" "idx < fleet us" "idx < 2 ^ 27" "0 < total_of us"
  obtains j where "slot_for us idx = Some j" "j < length (set_weights us)" "0 < unat (set_weights us ! j)"
proof -
  obtain j where j: "j < length (set_weights us)" "cum (set_weights us) j \<le> target_nat us idx"
      "target_nat us idx < cum (set_weights us) (Suc j)"
    using cum_interval [OF target_less_total [OF assms(2,4)]] by blast
  moreover have "0 < unat (set_weights us ! j)" using j by (simp add: cum_Suc)
  moreover have "slot_for us idx = Some j" using j slot_for_iff [OF assms, of j] by simp
  ultimately show ?thesis using that by blast
qed

section \<open>How many workers a slot gets\<close>

definition below :: "upstream_set \<Rightarrow> nat \<Rightarrow> nat" where
  "below us c = card {k. k < fleet us \<and> target_nat us k < c}"

text \<open>The workers below a cumulative weight are an initial segment whose size is the rounded share.\<close>

lemma downset_segment:
  fixes S :: "nat set"
  assumes "finite S" and down: "\<And>k i. k \<in> S \<Longrightarrow> i \<le> k \<Longrightarrow> i \<in> S"
  shows "S = {..<card S}"
proof (cases "S = {}")
  case False
  have "S = {..Max S}" using down [OF Max_in [OF assms(1) False]] assms(1) by auto
  then show ?thesis by (metis card_atMost lessThan_Suc_atMost)
qed simp

lemma below_segment: "{k. k < fleet us \<and> target_nat us k < c} = {..<below us c}"
proof -
  let ?S = "{k. k < fleet us \<and> target_nat us k < c}"
  have "target_nat us i \<le> target_nat us k" if "i \<le> k" for i k
    unfolding target_nat_def using that by (intro div_le_mono mult_right_mono) simp_all
  then have down: "i \<in> ?S" if "k \<in> ?S" "i \<le> k" for i k
    using that by (auto intro: le_less_trans)
  have fin: "finite ?S" by (rule finite_subset [of _ "{..<fleet us}"]) auto
  have "?S = {..<card ?S}" using fin down by (rule downset_segment)
  then show ?thesis by (simp add: below_def)
qed

lemma below_bounds:
  assumes "c \<le> total_of us"
  shows "2 * fleet us * c \<le> (2 * below us c + 1) * total_of us"
    and "2 * below us c * total_of us \<le> 2 * fleet us * c + total_of us"
proof -
  let ?N = "below us c" and ?T = "total_of us" and ?W = "fleet us"
  have seg: "k < ?N \<longleftrightarrow> k < ?W \<and> (2 * k + 1) * ?T < 2 * ?W * c" for k
    using below_segment [of us c] by (auto simp: target_less_iff set_eq_iff)
  show "2 * ?W * c \<le> (2 * ?N + 1) * ?T"
  proof (cases "?N < ?W")
    case True
    then show ?thesis using seg [of ?N] by simp
  next
    case False
    have "2 * ?W * c \<le> 2 * ?W * ?T" using assms by simp
    also have "\<dots> \<le> (2 * ?N + 1) * ?T" using False by (intro mult_right_mono) simp_all
    finally show ?thesis .
  qed
  show "2 * ?N * ?T \<le> 2 * ?W * c + ?T"
  proof (cases ?N)
    case (Suc k)
    with seg [of k] have "(2 * k + 1) * ?T < 2 * ?W * c" by simp
    with Suc show ?thesis by (simp add: algebra_simps)
  qed simp
qed

lemma slot_workers:
  assumes "small_set us" "fleet us \<le> 2 ^ 27" "0 < total_of us" and j: "j < length (set_weights us)"
  shows "int (card {k. k < fleet us \<and> slot_for us k = Some j})
    = int (below us (cum (set_weights us) (Suc j))) - int (below us (cum (set_weights us) j))"
proof -
  let ?c = "cum (set_weights us)"
  have "{k. k < fleet us \<and> slot_for us k = Some j}
      = {k. k < fleet us \<and> target_nat us k < ?c (Suc j)} - {k. k < fleet us \<and> target_nat us k < ?c j}"
    using assms slot_for_iff by (auto simp: not_less)
  also have "\<dots> = {..<below us (?c (Suc j))} - {..<below us (?c j)}" by (simp only: below_segment)
  also have "\<dots> = {below us (?c j)..<below us (?c (Suc j))}" by auto
  finally have eq: "{k. k < fleet us \<and> slot_for us k = Some j} = {below us (?c j)..<below us (?c (Suc j))}" .
  have "below us (?c j) \<le> below us (?c (Suc j))"
    unfolding below_def using cum_mono [of j "Suc j" "set_weights us"]
    by (intro card_mono) (auto intro: finite_subset [of _ "{..<fleet us}"])
  with eq show ?thesis by (simp add: of_nat_diff)
qed

lemma half_difference: "2 * (x :: int) = a - b \<Longrightarrow> \<bar>a\<bar> \<le> t \<Longrightarrow> \<bar>b\<bar> \<le> t \<Longrightarrow> \<bar>x\<bar> \<le> t"
  by linarith

text \<open>
  C11. The fleet is split over the addresses in proportion to their weights: for every slot, the number of
  workers that choose it differs from its exact share (its weight times the workers, over the total) by at
  most one worker, and is exactly that share when the cumulative shares are whole numbers. This holds for
  any weights of a published set, with the 64-bit arithmetic of the code.
\<close>

theorem slot_for_proportional:
  assumes "small_set us" "fleet us \<le> 2 ^ 27" "0 < total_of us" "j < length (set_weights us)"
  shows "\<bar>int (card {k. k < fleet us \<and> slot_for us k = Some j}) * int (total_of us)
      - int (fleet us) * int (unat (set_weights us ! j))\<bar> \<le> int (total_of us)
    \<and> (total_of us dvd fleet us * cum (set_weights us) j
       \<and> total_of us dvd fleet us * cum (set_weights us) (Suc j)
       \<longrightarrow> card {k. k < fleet us \<and> slot_for us k = Some j} * total_of us = fleet us * unat (set_weights us ! j))"
proof -
  let ?c = "cum (set_weights us)" and ?T = "total_of us" and ?W = "fleet us"
  let ?n = "card {k. k < ?W \<and> slot_for us k = Some j}"
  define dev where "dev c = 2 * int (below us c) * int ?T - 2 * int ?W * int c" for c
  have le: "?c j \<le> ?T" "?c (Suc j) \<le> ?T" using assms(4) by (auto intro: cum_mono)
  have dev: "\<bar>dev c\<bar> \<le> int ?T" if "c \<le> ?T" for c
    using below_bounds [OF that] unfolding dev_def
    by (simp only: abs_le_iff of_nat_le_iff [symmetric, where ?'a = int]) (simp add: algebra_simps)
  have n: "int ?n = int (below us (?c (Suc j))) - int (below us (?c j))"
    by (rule slot_workers [OF assms])
  have w: "int (?c (Suc j)) = int (?c j) + int (unat (set_weights us ! j))"
    using assms(4) by (simp add: cum_Suc)
  have diff: "2 * (int ?n * int ?T - int ?W * int (unat (set_weights us ! j))) = dev (?c (Suc j)) - dev (?c j)"
    unfolding dev_def n w by (simp add: algebra_simps)
  have zero: "dev c = 0" if "c \<le> ?T" "?T dvd ?W * c" for c
  proof -
    from that(2) obtain m where m: "?W * c = ?T * m" by (elim dvdE)
    have "int ?W * int c = int ?T * int m" using m by (simp only: of_nat_mult [symmetric])
    then have "dev c = int ?T * (2 * (int (below us c) - int m))" by (simp add: dev_def algebra_simps)
    with dev [OF that(1)] assms(3) have "\<bar>2 * (int (below us c) - int m)\<bar> \<le> 1"
      by (simp add: abs_mult)
    then have "int (below us c) - int m = 0" by arith
    with \<open>dev c = int ?T * (2 * (int (below us c) - int m))\<close> show ?thesis by simp
  qed
  have "?n * ?T = ?W * unat (set_weights us ! j)" if "?T dvd ?W * ?c j" "?T dvd ?W * ?c (Suc j)"
  proof -
    have "int ?n * int ?T = int ?W * int (unat (set_weights us ! j))"
      using diff zero [OF le(1) that(1)] zero [OF le(2) that(2)] by simp
    then show ?thesis by (simp only: of_nat_mult [symmetric] of_nat_eq_iff)
  qed
  moreover have "\<bar>int ?n * int ?T - int ?W * int (unat (set_weights us ! j))\<bar> \<le> int ?T"
    by (rule half_difference [OF diff dev [OF le(2)] dev [OF le(1)]])
  ultimately show ?thesis by blast
qed

theorem slot_for_proportional_witness:
  "let us = \<lparr>us_addrs = [V4 1, V4 2, V4 3], us_weights = [300, 200, 100], us_revision = 1, us_workers = 6,
              us_published = 0\<rparr>
   in card {k. k < 6 \<and> slot_for us k = Some 0} = 3 \<and> small_set us"
proof -
  let ?us = "\<lparr>us_addrs = [V4 1, V4 2, V4 3], us_weights = [300, 200, 100], us_revision = 1, us_workers = 6,
              us_published = 0\<rparr>"
  have ws: "set_weights ?us = [300, 200, 100]" by (simp add: set_weights_def)
  have small: "small_set ?us" by (simp add: small_set_def MAX_ADDRS_def)
  have fl: "fleet ?us = 6" by (simp add: fleet_def)
  have c: "cum [300, 200, 100 :: u32] 3 = 600" "cum [300, 200, 100 :: u32] (Suc 0) = 300"
    by (simp_all add: cum_def)
  show ?thesis
    using slot_for_proportional [OF small, of 0] small by (simp add: ws fl c numeral_3_eq_3 [symmetric])
qed

text \<open>
  Every worker of the fleet gets an address, and never one of weight zero: for a published set with some
  positive weight, \<open>slot_for\<close> returns a slot inside both lists whose weight is positive. No intermediate
  value overflows.
\<close>

lemma slot_for_positive:
  assumes "small_set us" "idx < fleet us" "idx < 2 ^ 27" "0 < total_of us"
  shows "case slot_for us idx of
      None \<Rightarrow> False
    | Some j \<Rightarrow> j < length (us_addrs us) \<and> j < length (us_weights us) \<and> us_weights us ! j \<noteq> 0"
proof -
  obtain j where j: "slot_for us idx = Some j" "j < length (set_weights us)" "0 < unat (set_weights us ! j)"
    by (rule slot_for_exists [OF assms])
  moreover from j(2) have "set_weights us ! j = us_weights us ! j" by (simp add: set_weights_def)
  ultimately show ?thesis using set_weights_len [OF assms(1)] by auto
qed

lemma slot_for_positive_witness:
  "let us = \<lparr>us_addrs = [V4 1, V4 2], us_weights = [0, 7], us_revision = 1, us_workers = 1, us_published = 0\<rparr>
   in \<not> (slot_for us 0 = None \<or> slot_for us 0 = Some 0)"
proof -
  let ?us = "\<lparr>us_addrs = [V4 1, V4 2], us_weights = [0, 7], us_revision = 1, us_workers = 1, us_published = 0\<rparr>"
  have "small_set ?us" "0 < fleet ?us" "0 < total_of ?us"
    by (simp_all add: small_set_def MAX_ADDRS_def fleet_def cum_def set_weights_def)
  from slot_for_positive [OF this(1,2) _ this(3)] show ?thesis by (auto split: option.splits simp: less_Suc_eq)
qed

text \<open>
  What the supervisor publishes is what a worker reads: after a publication of at most sixteen addresses
  with a weight each, a reader that had seen the previous sequence gets exactly those addresses and
  weights, in order, with the next revision, and a second read reports no change; the sequence counter is
  even again and the page keeps its shape.
\<close>

lemma publish_read_roundtrip:
  assumes "page_ok (sr_page sh)" "sr_seq sh mod 2 = 0"
    and "length (pb_addrs pb) \<le> MAX_ADDRS" "length (pb_weights pb) = length (pb_addrs pb)"
  shows "let sh' = publish pb sh in
    read_if_changed sh' (sr_seq sh)
      = (Some \<lparr>us_addrs = pb_addrs pb, us_weights = pb_weights pb, us_revision = rp_revision (sr_page sh) + 1,
               us_workers = of_nat (pb_workers pb), us_published = pb_now1 pb\<rparr>, sr_seq sh + 2)
    \<and> read_if_changed sh' (sr_seq sh + 2) = (None, sr_seq sh + 2)
    \<and> page_ok (sr_page sh') \<and> sr_seq sh' mod 2 = 0"
proof -
  have "map (weight_or (pb_weights pb)) [0..<length (pb_weights pb)] = pb_weights pb"
    by (rule nth_equalityI) (simp_all add: weight_or_def get_def)
  then have "decode_page (publish_page pb (sr_page sh)) =
      \<lparr>us_addrs = pb_addrs pb, us_weights = pb_weights pb, us_revision = rp_revision (sr_page sh) + 1,
       us_workers = of_nat (pb_workers pb), us_published = pb_now1 pb\<rparr>"
    using assms(3,4) by (simp add: decode_publish [OF assms(1)] min_def)
  moreover have even: "(sr_seq sh + 2) mod 2 = 0"
  proof -
    have "even (sr_seq sh)" using assms(2) by (simp add: even_iff_mod_2_eq_zero)
    then have "even (sr_seq sh + 2)" by simp
    then show ?thesis by (simp only: even_iff_mod_2_eq_zero)
  qed
  moreover have "sr_seq sh + 2 \<noteq> sr_seq sh" by simp
  ultimately show ?thesis
    using page_ok_publish [OF assms(1)] by (simp add: publish_def read_if_changed_def Let_def)
qed

lemma publish_read_roundtrip_witness:
  "read_if_changed (publish \<lparr>pb_addrs = [V4 0x08080808], pb_weights = [70], pb_workers = 2, pb_now1 = 5,
      pb_now2 = 5, pb_ttl = 300\<rparr> resolve_create) 0
    = (Some \<lparr>us_addrs = [V4 0x08080808], us_weights = [70], us_revision = 1, us_workers = 2, us_published = 5\<rparr>, 2)"
  using publish_read_roundtrip [of resolve_create "\<lparr>pb_addrs = [V4 0x08080808], pb_weights = [70], pb_workers = 2,
      pb_now1 = 5, pb_now2 = 5, pb_ttl = 300\<rparr>"]
  by (simp add: resolve_create_def page_ok_zero zero_page_def [THEN arg_cong [where f = rp_revision]] MAX_ADDRS_def Let_def)

text \<open>
  A score written to a worker's slot is read back unchanged (with the clock of the write) and no other
  slot changes; the one address that cannot be told from "none" is 0.0.0.0. From worker 31 on, two workers
  share the last slot, so each overwrites the other's measurement.
\<close>

lemma score_write_read:
  assumes "idx < MAX_WORKERS" "length page = MAX_WORKERS" "ls_seq (page ! idx) mod 2 = 0"
    "ls_seq (page ! idx) + 2 \<noteq> 0"
  shows "score_read (score_write page idx sample now) idx
      = Some (sample\<lparr>sm_addr := (if sm_addr sample = Some (V4 0) then None else sm_addr sample), sm_updated := now\<rparr>)
    \<and> (\<forall>i \<noteq> idx. score_read (score_write page idx sample now) i = score_read page i)
    \<and> score_writer_idx 31 = score_writer_idx 32"
proof -
  have i: "score_writer_idx idx = idx" using assms(1) by (simp add: score_writer_idx_def MAX_WORKERS_def)
  have "even (ls_seq (page ! idx))" using assms(3) by (simp add: even_iff_mod_2_eq_zero)
  then have "even (ls_seq (page ! idx) + 2)" by simp
  then have odd: "(ls_seq (page ! idx) + 2) mod 2 \<noteq> 1" by (simp only: even_iff_mod_2_eq_zero) simp
  have "sample_of_slot (slot_of_sample (sample, now))
      = sample\<lparr>sm_addr := (if sm_addr sample = Some (V4 0) then None else sm_addr sample), sm_updated := now\<rparr>"
  proof (cases "sm_addr sample")
    case None
    then show ?thesis by (simp add: sample_of_slot_def slot_of_sample_def raw_default_def list_all_replicate_0)
  next
    case (Some a)
    with raw_zero_iff [of a] show ?thesis by (simp add: sample_of_slot_def slot_of_sample_def)
  qed
  then show ?thesis
    using assms odd by (auto simp: score_read_def score_write_def i Let_def score_writer_idx_def MAX_WORKERS_def)
qed

lemma score_write_read_witness:
  "score_read (score_write scores_create 2 \<lparr>sm_addr = Some (V4 0x68108405), sm_score = 83, sm_ok = 99, sm_fail = 1,
     sm_flags = FLAG_CONNECTED, sm_updated = 0\<rparr> 40) 2
   = Some \<lparr>sm_addr = Some (V4 0x68108405), sm_score = 83, sm_ok = 99, sm_fail = 1, sm_flags = FLAG_CONNECTED,
     sm_updated = 40\<rparr>"
  using score_write_read [of 2 scores_create "\<lparr>sm_addr = Some (V4 0x68108405), sm_score = 83, sm_ok = 99,
     sm_fail = 1, sm_flags = FLAG_CONNECTED, sm_updated = 0\<rparr>" 40]
  by (simp add: scores_create_def zero_slot_def MAX_WORKERS_def)

end
