(* ===== verification/Seqlock.thy ===== *)
theory Seqlock
  imports Shared
begin

text \<open>
  The seqlock discipline of \<^verbatim>\<open>src/pkgs/microdoh3/src/shared.rs\<close> with its interleavings: one writer and
  one reader of a page run as sequences of atomic steps (one store or load of a field, of an array element
  or of the sequence counter), in any order. \<open>ResolveWriter::publish\<close> and \<open>ScoreWriter::write\<close> are
  instances of the writer, \<open>ResolveReader::read_if_changed\<close> and \<open>ScoreReader::read\<close> of the reader.
  Memory is sequentially consistent here; \<open>Weak_Memory\<close> treats reordering. Ghost state: \<open>lk_ticks\<close> counts the
  stores to the sequence counter, \<open>lk_hist\<close> lists the committed publications.
\<close>

section \<open>The step relation\<close>

datatype 'a writer_pc =
    WIdle
  | WBusy (busy_arg: 'a) (busy_old: u32) (busy_done: nat)

datatype 'r reader_pc =
    RIdle u32
  | RReading u32 u32 nat nat 'r
  | RGot u32 'r

record ('p, 'a, 'r) lock_state =
  lk_seq :: u32
  lk_page :: 'p
  lk_writer :: "'a writer_pc"
  lk_reader :: "'r reader_pc"
  lk_ticks :: nat
  lk_hist :: "'a list"

definition run_writes :: "('p \<Rightarrow> 'p) list \<Rightarrow> 'p \<Rightarrow> 'p" where
  "run_writes fs p = fold (\<lambda>f. f) fs p"

definition run_reads :: "('p \<Rightarrow> 'r \<Rightarrow> 'r) list \<Rightarrow> 'p \<Rightarrow> 'r \<Rightarrow> 'r" where
  "run_reads fs p r = fold (\<lambda>f. f p) fs r"

inductive lock_step ::
  "('a \<Rightarrow> ('p \<Rightarrow> 'p) list) \<Rightarrow> ('p \<Rightarrow> 'r \<Rightarrow> 'r) list \<Rightarrow> 'r \<Rightarrow> (u32 \<Rightarrow> u32 \<Rightarrow> u32)
    \<Rightarrow> ('p, 'a, 'r) lock_state \<Rightarrow> ('p, 'a, 'r) lock_state \<Rightarrow> bool"
  for writes reads r0 next_last where
  w_begin: "lk_writer s = WIdle \<Longrightarrow>
    lock_step writes reads r0 next_last s
      (s\<lparr>lk_seq := lk_seq s + 1, lk_writer := WBusy a (lk_seq s) 0, lk_ticks := lk_ticks s + 1\<rparr>)"
| w_field: "lk_writer s = WBusy a old k \<Longrightarrow> k < length (writes a) \<Longrightarrow>
    lock_step writes reads r0 next_last s
      (s\<lparr>lk_page := (writes a ! k) (lk_page s), lk_writer := WBusy a old (k + 1)\<rparr>)"
| w_end: "lk_writer s = WBusy a old (length (writes a)) \<Longrightarrow>
    lock_step writes reads r0 next_last s
      (s\<lparr>lk_seq := old + 2, lk_writer := WIdle, lk_ticks := lk_ticks s + 1, lk_hist := lk_hist s @ [a]\<rparr>)"
| r_unchanged: "lk_reader s = RIdle last_seq \<Longrightarrow> lk_seq s = last_seq \<or> lk_seq s mod 2 = 1 \<Longrightarrow>
    lock_step writes reads r0 next_last s s"
| r_begin: "lk_reader s = RIdle last_seq \<Longrightarrow> lk_seq s \<noteq> last_seq \<Longrightarrow> lk_seq s mod 2 \<noteq> 1 \<Longrightarrow>
    lock_step writes reads r0 next_last s (s\<lparr>lk_reader := RReading last_seq (lk_seq s) (lk_ticks s) 0 r0\<rparr>)"
| r_field: "lk_reader s = RReading last_seq first t0 k acc \<Longrightarrow> k < length reads \<Longrightarrow>
    lock_step writes reads r0 next_last s
      (s\<lparr>lk_reader := RReading last_seq first t0 (k + 1) ((reads ! k) (lk_page s) acc)\<rparr>)"
| r_accept: "lk_reader s = RReading last_seq first t0 (length reads) acc \<Longrightarrow> lk_seq s = first \<Longrightarrow>
    lock_step writes reads r0 next_last s (s\<lparr>lk_reader := RGot (next_last last_seq first) acc\<rparr>)"
| r_torn: "lk_reader s = RReading last_seq first t0 (length reads) acc \<Longrightarrow> lk_seq s \<noteq> first \<Longrightarrow>
    lock_step writes reads r0 next_last s (s\<lparr>lk_reader := RIdle last_seq\<rparr>)"
| r_again: "lk_reader s = RGot last_seq acc \<Longrightarrow>
    lock_step writes reads r0 next_last s (s\<lparr>lk_reader := RIdle last_seq\<rparr>)"

definition lock_init :: "'p \<Rightarrow> ('p, 'a, 'r) lock_state" where
  "lock_init p = \<lparr>lk_seq = 0, lk_page = p, lk_writer = WIdle, lk_reader = RIdle 0, lk_ticks = 0, lk_hist = []\<rparr>"

definition lock_reach ::
  "('a \<Rightarrow> ('p \<Rightarrow> 'p) list) \<Rightarrow> ('p \<Rightarrow> 'r \<Rightarrow> 'r) list \<Rightarrow> 'r \<Rightarrow> (u32 \<Rightarrow> u32 \<Rightarrow> u32)
    \<Rightarrow> 'p \<Rightarrow> ('p, 'a, 'r) lock_state \<Rightarrow> bool" where
  "lock_reach writes reads r0 next_last p s \<longleftrightarrow> (lock_step writes reads r0 next_last)\<^sup>*\<^sup>* (lock_init p) s"

section \<open>The two pages\<close>

text \<open>The stores of \<open>publish\<close> between the two stores of the counter, in program order.\<close>

definition publish_writes :: "publication \<Rightarrow> (resolve_page \<Rightarrow> resolve_page) list" where
  "publish_writes pb =
    (let n = min (length (pb_addrs pb)) MAX_ADDRS in
     [\<lambda>p. p\<lparr>rp_count := of_nat n\<rparr>,
      \<lambda>p. p\<lparr>rp_revision := rp_revision p + 1\<rparr>,
      \<lambda>p. p\<lparr>rp_workers := of_nat (pb_workers pb)\<rparr>]
     @ concat (map (\<lambda>i.
         [\<lambda>p. p\<lparr>rp_addrs := (rp_addrs p)[i := from_ip (pb_addrs pb ! i)]\<rparr>,
          \<lambda>p. p\<lparr>rp_weights := (rp_weights p)[i := weight_or (pb_weights pb) i]\<rparr>]) [0..<n])
     @ map (\<lambda>i p. p\<lparr>rp_weights := (rp_weights p)[i := 0]\<rparr>) [n..<MAX_ADDRS]
     @ [\<lambda>p. p\<lparr>rp_published := pb_now1 pb\<rparr>,
        \<lambda>p. p\<lparr>rp_expires := pb_now2 pb + pb_ttl pb\<rparr>])"

text \<open>
  The loads of \<open>read_if_changed\<close> between the two loads of the counter. The accumulator holds the clamped
  count and the set built so far; the loop body for an index past the count does nothing.
\<close>

definition empty_set :: upstream_set where
  "empty_set = \<lparr>us_addrs = [], us_weights = [], us_revision = 0, us_workers = 0, us_published = 0\<rparr>"

definition resolve_reads :: "(resolve_page \<Rightarrow> usize \<times> upstream_set \<Rightarrow> usize \<times> upstream_set) list" where
  "resolve_reads =
    [\<lambda>p (n, us). (unat (min (rp_count p) (of_nat MAX_ADDRS)), us)]
    @ concat (map (\<lambda>i.
        [\<lambda>p (n, us). (n, if i < n then us\<lparr>us_addrs := us_addrs us @ [to_ip (rp_addrs p ! i)]\<rparr> else us),
         \<lambda>p (n, us). (n, if i < n then us\<lparr>us_weights := us_weights us @ [rp_weights p ! i]\<rparr> else us)])
        [0..<MAX_ADDRS])
    @ [\<lambda>p (n, us). (n, us\<lparr>us_revision := rp_revision p\<rparr>),
       \<lambda>p (n, us). (n, us\<lparr>us_workers := rp_workers p\<rparr>),
       \<lambda>p (n, us). (n, us\<lparr>us_published := rp_published p\<rparr>)]"

text \<open>The stores of \<open>ScoreWriter::write\<close> and the loads of \<open>ScoreReader::read\<close>.\<close>

definition score_writes :: "score_sample \<times> u64 \<Rightarrow> (score_slot \<Rightarrow> score_slot) list" where
  "score_writes = (\<lambda>(sample, now).
     [\<lambda>s. s\<lparr>ss_addr := (case sm_addr sample of None \<Rightarrow> raw_default | Some a \<Rightarrow> from_ip a)\<rparr>,
      \<lambda>s. s\<lparr>ss_score := sm_score sample\<rparr>,
      \<lambda>s. s\<lparr>ss_ok := sm_ok sample\<rparr>,
      \<lambda>s. s\<lparr>ss_fail := sm_fail sample\<rparr>,
      \<lambda>s. s\<lparr>ss_flags := sm_flags sample\<rparr>,
      \<lambda>s. s\<lparr>ss_updated := now\<rparr>])"

definition sample_default :: score_sample where
  "sample_default = \<lparr>sm_addr = None, sm_score = 0, sm_ok = 0, sm_fail = 0, sm_flags = 0, sm_updated = 0\<rparr>"

definition score_reads :: "(score_slot \<Rightarrow> score_sample \<Rightarrow> score_sample) list" where
  "score_reads =
    [\<lambda>s r. r\<lparr>sm_addr := (if list_all (\<lambda>b. b = 0) (ra_bytes (ss_addr s)) \<and> ra_is_v6 (ss_addr s) = 0 then None
                        else Some (to_ip (ss_addr s)))\<rparr>,
     \<lambda>s r. r\<lparr>sm_score := ss_score s\<rparr>,
     \<lambda>s r. r\<lparr>sm_ok := ss_ok s\<rparr>,
     \<lambda>s r. r\<lparr>sm_fail := ss_fail s\<rparr>,
     \<lambda>s r. r\<lparr>sm_flags := ss_flags s\<rparr>,
     \<lambda>s r. r\<lparr>sm_updated := ss_updated s\<rparr>]"

text \<open>
  \<open>read_if_changed\<close> remembers the sequence it accepted; \<open>ScoreReader::read\<close> always compares with 0.
\<close>

definition keep_first :: "u32 \<Rightarrow> u32 \<Rightarrow> u32" where "keep_first last_seq first = first"
definition keep_last :: "u32 \<Rightarrow> u32 \<Rightarrow> u32" where "keep_last last_seq first = last_seq"

section \<open>The contract of a page\<close>

lemma run_writes_simps [simp]: "run_writes [] p = p" "run_writes (f # fs) p = run_writes fs (f p)"
    "run_writes (fs @ gs) p = run_writes gs (run_writes fs p)"
  by (simp_all add: run_writes_def)

lemma run_reads_simps [simp]: "run_reads [] p r = r" "run_reads (f # fs) p r = run_reads fs p (f p r)"
    "run_reads (fs @ gs) p r = run_reads gs p (run_reads fs p r)"
  by (simp_all add: run_reads_def)

lemma run_writes_take: "k < length fs \<Longrightarrow> run_writes (take (Suc k) fs) p = (fs ! k) (run_writes (take k fs) p)"
  by (simp add: take_Suc_conv_app_nth)

lemma run_reads_take: "k < length fs \<Longrightarrow> run_reads (take (Suc k) fs) p r = (fs ! k) p (run_reads (take k fs) p r)"
  by (simp add: take_Suc_conv_app_nth)

text \<open>Within fewer than \<open>2 ^ 32\<close> stores the counter does not come back to the same value.\<close>

lemma ticks_eq:
  fixes t t0 :: nat
  assumes "t0 \<le> t" "t < t0 + 2 ^ 32" "(of_nat t :: u32) = of_nat t0"
  shows "t = t0"
proof -
  have "t mod 2 ^ 32 = t0 mod 2 ^ 32" using assms(3) by (simp add: word_of_nat_eq_iff take_bit_eq_mod)
  then have "(t - t0) mod 2 ^ 32 = 0" using assms(1) by (metis mod_eq_dvd_iff_nat mod_0_imp_dvd dvd_imp_mod_0)
  with assms(1,2) show ?thesis by simp
qed

text \<open>
  A page that can be published under the seqlock: the stores of one publication together have the
  effect of the operation, and the loads of one read, made with no store between them, decode the page.
\<close>

locale seqlock =
  fixes writes :: "'a \<Rightarrow> ('p \<Rightarrow> 'p) list"
    and reads :: "('p \<Rightarrow> 'r \<Rightarrow> 'r) list"
    and r0 :: 'r
    and next_last :: "u32 \<Rightarrow> u32 \<Rightarrow> u32"
    and pub :: "'a \<Rightarrow> 'p \<Rightarrow> 'p"
    and decode :: "'p \<Rightarrow> 'r"
    and shape :: "'p \<Rightarrow> bool"
  assumes writes_pub: "shape p \<Longrightarrow> run_writes (writes a) p = pub a p"
    and reads_decode: "shape p \<Longrightarrow> run_reads reads p r0 = decode p"
    and pub_shape: "shape p \<Longrightarrow> shape (pub a p)"
begin

definition committed :: "'p \<Rightarrow> 'a list \<Rightarrow> 'p" where
  "committed p hist = foldl (\<lambda>p a. pub a p) p hist"

lemma committed_snoc: "committed p (hist @ [a]) = pub a (committed p hist)"
  by (simp add: committed_def)

lemma committed_shape: "shape p \<Longrightarrow> shape (committed p hist)"
  by (induction hist rule: rev_induct) (simp_all add: committed_def pub_shape)

definition writer_inv :: "'p \<Rightarrow> ('p, 'a, 'r) lock_state \<Rightarrow> bool" where
  "writer_inv p s \<longleftrightarrow> lk_seq s = of_nat (lk_ticks s) \<and>
    (case lk_writer s of
       WIdle \<Rightarrow> lk_ticks s = 2 * length (lk_hist s) \<and> lk_page s = committed p (lk_hist s)
     | WBusy a old k \<Rightarrow> lk_ticks s = 2 * length (lk_hist s) + 1 \<and> old + 1 = lk_seq s \<and> k \<le> length (writes a)
         \<and> lk_page s = run_writes (take k (writes a)) (committed p (lk_hist s)))"

definition reader_inv :: "('p, 'a, 'r) lock_state \<Rightarrow> bool" where
  "reader_inv s \<longleftrightarrow>
    (case lk_reader s of
       RReading last_seq first t0 k acc \<Rightarrow>
         first = of_nat t0 \<and> even t0 \<and> t0 \<le> lk_ticks s \<and> k \<le> length reads
         \<and> (lk_ticks s = t0 \<longrightarrow> acc = run_reads (take k reads) (lk_page s) r0)
     | _ \<Rightarrow> True)"

lemma even_seq: "lk_seq s = of_nat (lk_ticks s) \<Longrightarrow> lk_seq s mod 2 \<noteq> 1 \<longleftrightarrow> even (lk_ticks s)"
  by (simp add: odd_iff_mod_2_eq_one [symmetric])

lemma writer_inv_step:
  assumes "shape p" "writer_inv p s" "lock_step writes reads r0 next_last s s'"
  shows "writer_inv p s'"
  using assms(3)
proof cases
  case (w_begin a)
  with assms(2) show ?thesis by (auto simp: writer_inv_def)
next
  case (w_field a old k)
  with assms(2) show ?thesis by (auto simp: writer_inv_def run_writes_take)
next
  case (w_end a old)
  then have "lk_page s = pub a (committed p (lk_hist s))" "old + 1 = lk_seq s"
      "lk_seq s = of_nat (lk_ticks s)" "lk_ticks s = 2 * length (lk_hist s) + 1"
    using assms(1,2) by (simp_all add: writer_inv_def writes_pub committed_shape)
  moreover from this(2,3) have "old + 2 = of_nat (lk_ticks s + 1)"
    by (metis (no_types, lifting) add.assoc of_nat_1 of_nat_add one_add_one)
  ultimately show ?thesis using w_end by (simp add: writer_inv_def committed_snoc)
qed (use assms(2) in \<open>auto simp: writer_inv_def split: writer_pc.splits\<close>)

lemma reader_inv_step:
  assumes "writer_inv p s" "reader_inv s" "lock_step writes reads r0 next_last s s'"
  shows "reader_inv s'"
  using assms(3)
proof cases
  case (w_begin a)
  with assms(2) show ?thesis by (auto simp: reader_inv_def split: reader_pc.splits)
next
  case (w_field a old k)
  with assms(1,2) show ?thesis by (auto simp: reader_inv_def writer_inv_def split: reader_pc.splits)
next
  case (w_end a old)
  with assms(2) show ?thesis by (auto simp: reader_inv_def split: reader_pc.splits)
next
  case (r_begin last_seq)
  with assms(1) show ?thesis by (auto simp: reader_inv_def writer_inv_def even_seq)
next
  case (r_field last_seq first t0 k acc)
  with assms(2) show ?thesis by (auto simp: reader_inv_def run_reads_take)
qed (use assms(2) in \<open>auto simp: reader_inv_def\<close>)

lemma reach_inv:
  assumes "shape p" "lock_reach writes reads r0 next_last p s"
  shows "writer_inv p s \<and> reader_inv s"
  using assms(2) unfolding lock_reach_def
proof (induction rule: rtranclp_induct)
  case base
  show ?case by (simp add: writer_inv_def reader_inv_def lock_init_def committed_def)
next
  case (step s s')
  then show ?case using writer_inv_step [OF assms(1)] reader_inv_step by blast
qed

text \<open>An accepted read is the decoding of the latest committed publication.\<close>

lemma accepted_read:
  assumes "shape p" "lock_reach writes reads r0 next_last p s"
    and pc: "lk_reader s = RReading last_seq first t0 (length reads) acc"
    and same: "lk_seq s = first" and bound: "lk_ticks s < t0 + 2 ^ 32"
  shows "lk_writer s = WIdle \<and> acc = decode (committed p (lk_hist s))"
proof -
  have inv: "writer_inv p s" "reader_inv s" using reach_inv [OF assms(1,2)] by simp_all
  have t0: "t0 \<le> lk_ticks s" "even t0" "first = of_nat t0"
    using inv(2) pc by (simp_all add: reader_inv_def)
  have "(of_nat (lk_ticks s) :: u32) = of_nat t0" using inv(1) same t0(3) by (simp add: writer_inv_def)
  with t0(1) bound have eq: "lk_ticks s = t0" by (rule ticks_eq)
  then have "lk_writer s = WIdle" using inv(1) t0(2) by (cases "lk_writer s") (simp_all add: writer_inv_def)
  moreover have "acc = run_reads reads (lk_page s) r0" using inv(2) pc eq by (simp add: reader_inv_def)
  ultimately show ?thesis
    using inv(1) assms(1) by (simp add: writer_inv_def reads_decode committed_shape)
qed

text \<open>The step that hands a result to the caller is \<open>r_accept\<close>, with its comparison of the counter.\<close>

lemma returned_read:
  assumes "shape p" "lock_reach writes reads r0 next_last p s" "lock_step writes reads r0 next_last s s'"
    and pc: "lk_reader s = RReading last_seq first t0 k acc" "lk_reader s' = RGot l res"
    and bound: "lk_ticks s < t0 + 2 ^ 32"
  shows "lk_writer s = WIdle \<and> res = decode (committed p (lk_hist s)) \<and> l = next_last last_seq (lk_seq s)
    \<and> lk_seq s = of_nat (2 * length (lk_hist s))"
  using assms(3)
proof cases
  case (r_accept last_seq' first' t0' acc')
  have "writer_inv p s" using reach_inv [OF assms(1,2)] by simp
  with r_accept show ?thesis
    using accepted_read [OF assms(1,2), of last_seq first t0 acc] pc bound by (auto simp: writer_inv_def)
qed (use pc in simp_all)

text \<open>A reader left alone after a commit it has not seen finishes and accepts.\<close>

lemma solo_fields:
  assumes "k \<le> length reads" "lk_reader s = RReading l f t k (run_reads (take k reads) (lk_page s) r0)"
  shows "(lock_step writes reads r0 next_last)\<^sup>*\<^sup>* s
    (s\<lparr>lk_reader := RReading l f t (length reads) (run_reads reads (lk_page s) r0)\<rparr>)"
  using assms
proof (induction "length reads - k" arbitrary: k s)
  case 0
  then have "s = s\<lparr>lk_reader := RReading l f t (length reads) (run_reads reads (lk_page s) r0)\<rparr>" by simp
  then show ?case by (metis rtranclp.rtrancl_refl)
next
  case (Suc n)
  then have k: "k < length reads" by simp
  let ?s = "s\<lparr>lk_reader := RReading l f t (k + 1) ((reads ! k) (lk_page s) (run_reads (take k reads) (lk_page s) r0))\<rparr>"
  have "lock_step writes reads r0 next_last s ?s" using Suc.prems k by (intro r_field) simp_all
  moreover have "(lock_step writes reads r0 next_last)\<^sup>*\<^sup>* ?s
      (?s\<lparr>lk_reader := RReading l f t (length reads) (run_reads reads (lk_page ?s) r0)\<rparr>)"
    using Suc k by (intro Suc.hyps(1) [of "k + 1"]) (simp_all add: run_reads_take)
  ultimately show ?case by (simp add: converse_rtranclp_into_rtranclp)
qed

lemma solo_read:
  assumes "shape p" "lock_reach writes reads r0 next_last p s"
    and "lk_writer s = WIdle" "lk_reader s = RIdle l" "lk_seq s \<noteq> l"
  shows "(lock_step writes reads r0 next_last)\<^sup>*\<^sup>* s
    (s\<lparr>lk_reader := RGot (next_last l (lk_seq s)) (decode (committed p (lk_hist s)))\<rparr>)"
proof -
  have w: "writer_inv p s" using reach_inv [OF assms(1,2)] by simp
  let ?s1 = "s\<lparr>lk_reader := RReading l (lk_seq s) (lk_ticks s) 0 r0\<rparr>"
  let ?s2 = "s\<lparr>lk_reader := RReading l (lk_seq s) (lk_ticks s) (length reads) (run_reads reads (lk_page s) r0)\<rparr>"
  let ?s3 = "s\<lparr>lk_reader := RGot (next_last l (lk_seq s)) (run_reads reads (lk_page s) r0)\<rparr>"
  have "lk_seq s mod 2 \<noteq> 1" using w assms(3) even_seq [of s] by (simp add: writer_inv_def)
  then have "lock_step writes reads r0 next_last s ?s1" using assms(4,5) by (intro r_begin)
  moreover have "(lock_step writes reads r0 next_last)\<^sup>*\<^sup>* ?s1 ?s2"
    using solo_fields [of 0 ?s1] by simp
  moreover have "lock_step writes reads r0 next_last ?s2 ?s3"
    using r_accept [of ?s2 l "lk_seq s" "lk_ticks s"] by simp
  ultimately have "(lock_step writes reads r0 next_last)\<^sup>*\<^sup>* s ?s3"
    by (meson converse_rtranclp_into_rtranclp rtranclp.rtrancl_into_rtrancl)
  moreover have "run_reads reads (lk_page s) r0 = decode (committed p (lk_hist s))"
    using w assms(1,3) by (simp add: writer_inv_def reads_decode committed_shape)
  ultimately show ?thesis by simp
qed

text \<open>A writer left alone commits its publication.\<close>

lemma solo_stores:
  assumes "k \<le> length (writes a)" "lk_writer s = WBusy a old k"
  shows "(lock_step writes reads r0 next_last)\<^sup>*\<^sup>* s
    (s\<lparr>lk_page := run_writes (drop k (writes a)) (lk_page s), lk_writer := WBusy a old (length (writes a))\<rparr>)"
  using assms
proof (induction "length (writes a) - k" arbitrary: k s)
  case 0
  then have "s = s\<lparr>lk_page := run_writes (drop k (writes a)) (lk_page s), lk_writer := WBusy a old (length (writes a))\<rparr>"
    by simp
  then show ?case by (metis rtranclp.rtrancl_refl)
next
  case (Suc n)
  then have k: "k < length (writes a)" by simp
  let ?s = "s\<lparr>lk_page := (writes a ! k) (lk_page s), lk_writer := WBusy a old (k + 1)\<rparr>"
  have "lock_step writes reads r0 next_last s ?s" using Suc.prems k by (intro w_field)
  moreover have "(lock_step writes reads r0 next_last)\<^sup>*\<^sup>* ?s
      (?s\<lparr>lk_page := run_writes (drop (k + 1) (writes a)) (lk_page ?s), lk_writer := WBusy a old (length (writes a))\<rparr>)"
    using Suc k by (intro Suc.hyps(1) [of "k + 1"]) simp_all
  moreover have "drop k (writes a) = writes a ! k # drop (k + 1) (writes a)"
    using k by (simp add: Cons_nth_drop_Suc)
  ultimately show ?case by (simp add: converse_rtranclp_into_rtranclp)
qed

lemma solo_publish:
  assumes "shape (lk_page s)" "lk_writer s = WIdle"
  shows "(lock_step writes reads r0 next_last)\<^sup>*\<^sup>* s
    (s\<lparr>lk_seq := lk_seq s + 2, lk_page := pub a (lk_page s), lk_ticks := lk_ticks s + 2, lk_hist := lk_hist s @ [a]\<rparr>)"
proof -
  let ?s1 = "s\<lparr>lk_seq := lk_seq s + 1, lk_writer := WBusy a (lk_seq s) 0, lk_ticks := lk_ticks s + 1\<rparr>"
  let ?s2 = "?s1\<lparr>lk_page := pub a (lk_page s), lk_writer := WBusy a (lk_seq s) (length (writes a))\<rparr>"
  let ?s3 = "?s2\<lparr>lk_seq := lk_seq s + 2, lk_writer := WIdle, lk_ticks := lk_ticks ?s2 + 1, lk_hist := lk_hist ?s2 @ [a]\<rparr>"
  have "lock_step writes reads r0 next_last s ?s1" using assms(2) by (rule w_begin)
  moreover have "(lock_step writes reads r0 next_last)\<^sup>*\<^sup>* ?s1 ?s2"
    using solo_stores [of 0 a ?s1 "lk_seq s"] assms(1) by (simp add: writes_pub)
  moreover have "lock_step writes reads r0 next_last ?s2 ?s3" by (rule w_end) simp
  ultimately have "(lock_step writes reads r0 next_last)\<^sup>*\<^sup>* s ?s3"
    by (rule converse_rtranclp_into_rtranclp [OF _ rtranclp.rtrancl_into_rtrancl])
  moreover have "?s3 = s\<lparr>lk_seq := lk_seq s + 2, lk_page := pub a (lk_page s), lk_ticks := lk_ticks s + 2,
      lk_hist := lk_hist s @ [a]\<rparr>" using assms(2) by simp
  ultimately show ?thesis by (simp only:)
qed

text \<open>Every sequence of publications can be made store by store.\<close>

lemma reach_history:
  assumes "shape p"
  shows "\<exists>s. lock_reach writes reads r0 next_last p s \<and> lk_hist s = hist \<and> lk_writer s = WIdle \<and> lk_reader s = RIdle 0"
proof (induction hist rule: rev_induct)
  case Nil
  show ?case by (intro exI [of _ "lock_init p"]) (simp add: lock_reach_def lock_init_def)
next
  case (snoc a hist)
  then obtain s where s: "lock_reach writes reads r0 next_last p s" "lk_hist s = hist" "lk_writer s = WIdle" "lk_reader s = RIdle 0"
    by blast
  then have "lk_page s = committed p hist" using reach_inv [OF assms s(1)] by (simp add: writer_inv_def)
  then have "shape (lk_page s)" using assms by (simp add: committed_shape)
  from solo_publish [OF this s(3), of a] s show ?case
    unfolding lock_reach_def by (intro exI conjI) (erule (1) rtranclp_trans, simp_all)
qed

lemma reach_one_publication:
  assumes "shape p"
  shows "lock_reach writes reads r0 next_last p
    \<lparr>lk_seq = 2, lk_page = pub a p, lk_writer = WIdle, lk_reader = RIdle 0, lk_ticks = 2, lk_hist = [a]\<rparr>"
  using solo_publish [of "lock_init p" a] assms by (simp add: lock_reach_def lock_init_def del: add_2_eq_Suc add_2_eq_Suc')

lemma reach_one_read:
  assumes "shape p"
  shows "lock_reach writes reads r0 next_last p
    \<lparr>lk_seq = 2, lk_page = pub a p, lk_writer = WIdle,
     lk_reader = RReading 0 2 2 (length reads) (run_reads reads (pub a p) r0), lk_ticks = 2, lk_hist = [a]\<rparr>"
proof -
  let ?a = "\<lparr>lk_seq = 2, lk_page = pub a p, lk_writer = WIdle, lk_reader = RIdle 0, lk_ticks = 2, lk_hist = [a]\<rparr>"
  let ?b = "\<lparr>lk_seq = 2, lk_page = pub a p, lk_writer = WIdle, lk_reader = RReading 0 2 2 0 r0,
     lk_ticks = 2, lk_hist = [a]\<rparr>"
  let ?c = "\<lparr>lk_seq = 2, lk_page = pub a p, lk_writer = WIdle,
     lk_reader = RReading 0 2 2 (length reads) (run_reads reads (pub a p) r0), lk_ticks = 2, lk_hist = [a]\<rparr>"
  have "lock_step writes reads r0 next_last ?a ?b" using r_begin [of ?a 0 writes reads r0 next_last] by simp
  moreover have "(lock_step writes reads r0 next_last)\<^sup>*\<^sup>* ?b ?c"
    using solo_fields [of 0 ?b] by simp
  ultimately show ?thesis
    using reach_one_publication [OF assms, of a] unfolding lock_reach_def
    by (meson rtranclp_trans rtranclp.rtrancl_into_rtrancl)
qed

end

section \<open>The pages keep the contract\<close>

lemma entry_writes:
  fixes p :: resolve_page
  assumes "n \<le> length (rp_addrs p)" "n \<le> length (rp_weights p)"
  shows "run_writes (concat (map (\<lambda>i. [\<lambda>p. p\<lparr>rp_addrs := (rp_addrs p)[i := f i]\<rparr>,
      \<lambda>p. p\<lparr>rp_weights := (rp_weights p)[i := g i]\<rparr>]) [0..<n])) p
    = p\<lparr>rp_addrs := map f [0..<n] @ drop n (rp_addrs p), rp_weights := map g [0..<n] @ drop n (rp_weights p)\<rparr>"
  using assms
proof (induction n)
  case (Suc n)
  have upd: "(map h [0..<n] @ drop n xs)[n := h n] = map h [0..<Suc n] @ drop (Suc n) xs"
    if "n < length xs" for h and xs :: "'z list"
  proof -
    have "drop n xs = xs ! n # drop (Suc n) xs" using that by (rule Cons_nth_drop_Suc [symmetric])
    then show ?thesis by (simp add: list_update_append)
  qed
  show ?case using Suc by (simp add: upd)
qed simp

lemma clear_writes:
  fixes p :: resolve_page
  assumes "n + d \<le> length (rp_weights p)"
  shows "run_writes (map (\<lambda>i p. p\<lparr>rp_weights := (rp_weights p)[i := 0]\<rparr>) [n..<n + d]) p
    = p\<lparr>rp_weights := take n (rp_weights p) @ replicate d 0 @ drop (n + d) (rp_weights p)\<rparr>"
  using assms
proof (induction d)
  case (Suc d)
  have "drop (n + d) (rp_weights p) = rp_weights p ! (n + d) # drop (Suc (n + d)) (rp_weights p)"
    using Suc.prems by (intro Cons_nth_drop_Suc [symmetric]) simp
  then have "(take n (rp_weights p) @ replicate d 0 @ drop (n + d) (rp_weights p))[n + d := 0]
      = take n (rp_weights p) @ replicate (Suc d) 0 @ drop (n + Suc d) (rp_weights p)"
    using Suc.prems by (simp add: list_update_append replicate_append_same)
  with Suc show ?case by simp
qed simp

lemma publish_writes_run: "page_ok p \<Longrightarrow> run_writes (publish_writes pb) p = publish_page pb p"
proof -
  assume ok: "page_ok p"
  define n where "n = min (length (pb_addrs pb)) MAX_ADDRS"
  have n: "n \<le> 16" "n + (16 - n) = 16" by (simp_all add: n_def MAX_ADDRS_def)
  let ?p1 = "p\<lparr>rp_count := of_nat n, rp_revision := rp_revision p + 1, rp_workers := of_nat (pb_workers pb)\<rparr>"
  have len: "n \<le> length (rp_addrs ?p1)" "n \<le> length (rp_weights ?p1)"
    using ok n by (simp_all add: page_ok_def MAX_ADDRS_def)
  have tk: "map from_ip (take n (pb_addrs pb)) = map (\<lambda>i. from_ip (pb_addrs pb ! i)) [0..<n]"
    by (rule nth_equalityI) (simp_all add: n_def)
  show ?thesis
    using ok n(1) clear_writes [of n "16 - n"] unfolding publish_writes_def publish_page_def Let_def n_def [symmetric] tk
    by (simp add: entry_writes [OF len, simplified] page_ok_def MAX_ADDRS_def n(2))
qed

lemma resolve_reads_run:
  "run_reads resolve_reads p (0, empty_set) = (unat (min (rp_count p) (of_nat MAX_ADDRS)), decode_page p)"
proof -
  define c where "c = unat (min (rp_count p) (of_nat MAX_ADDRS))"
  have c: "c \<le> MAX_ADDRS" by (auto simp: c_def min_def word_le_nat_alt MAX_ADDRS_def)
  have loop: "run_reads (concat (map (\<lambda>i.
        [\<lambda>p (n, us). (n, if i < n then us\<lparr>us_addrs := us_addrs us @ [to_ip (rp_addrs p ! i)]\<rparr> else us),
         \<lambda>p (n, us). (n, if i < n then us\<lparr>us_weights := us_weights us @ [rp_weights p ! i]\<rparr> else us)]) [0..<m])) p (c, us)
    = (c, us\<lparr>us_addrs := us_addrs us @ map (\<lambda>i. to_ip (rp_addrs p ! i)) [0..<min m c],
            us_weights := us_weights us @ map (\<lambda>i. rp_weights p ! i) [0..<min m c]\<rparr>)" for m us
    by (induction m) (auto simp: min_def not_less)
  show ?thesis
    unfolding resolve_reads_def by (simp add: c_def [symmetric] loop c min_absorb2 empty_set_def decode_page_def Let_def)
qed

interpretation resolve_lock: seqlock publish_writes resolve_reads "(0, empty_set)" keep_first publish_page
    "\<lambda>p. (unat (min (rp_count p) (of_nat MAX_ADDRS)), decode_page p)" page_ok
  by unfold_locales (simp_all add: publish_writes_run resolve_reads_run page_ok_publish)

interpretation score_lock: seqlock score_writes score_reads sample_default keep_last
    "\<lambda>a s. slot_of_sample a" sample_of_slot "\<lambda>s. True"
  by unfold_locales
    (auto simp: score_writes_def score_reads_def slot_of_sample_def sample_of_slot_def sample_default_def)

section \<open>No torn reads\<close>

abbreviation resolve_reach :: "(resolve_page, publication, usize \<times> upstream_set) lock_state \<Rightarrow> bool" where
  "resolve_reach \<equiv> lock_reach publish_writes resolve_reads (0, empty_set) keep_first zero_page"

abbreviation score_reach :: "score_slot \<Rightarrow> (score_slot, score_sample \<times> u64, score_sample) lock_state \<Rightarrow> bool" where
  "score_reach \<equiv> lock_reach score_writes score_reads sample_default keep_last"

text \<open>
  C4. A worker never acts on a torn upstream set: whatever the interleaving of the supervisor's stores with
  the worker's loads, at the step at which \<open>read_if_changed\<close> returns a set to its caller no publication is
  in progress, the set is exactly the page after all committed publications, and the sequence remembered
  for the next call is the one of that publication. The only bound is
  that fewer than \<open>2 ^ 32\<close> counter stores (\<open>2 ^ 31\<close> publications) fall into one read.
\<close>

theorem resolve_read_not_torn:
  assumes "resolve_reach s" and "lock_step publish_writes resolve_reads (0, empty_set) keep_first s s'"
    and "lk_reader s = RReading last_seq first t0 k acc" "lk_reader s' = RGot l res"
    and "lk_ticks s < t0 + 2 ^ 32"
  shows "lk_writer s = WIdle \<and> l = lk_seq s
    \<and> snd res = decode_page (foldl (\<lambda>p pb. publish_page pb p) zero_page (lk_hist s))"
  using resolve_lock.returned_read [OF page_ok_zero assms] by (simp add: resolve_lock.committed_def keep_first_def)

theorem resolve_read_not_torn_witness:
  "\<exists>s acc. resolve_reach s \<and> lk_reader s = RGot 2 acc \<and> snd acc = decode_page (publish_page \<lparr>pb_addrs = [V4 1], pb_weights = [3], pb_workers = 1, pb_now1 = 0,
         pb_now2 = 0, pb_ttl = 60\<rparr> zero_page)"
proof -
  let ?pb = "\<lparr>pb_addrs = [V4 1], pb_weights = [3], pb_workers = 1, pb_now1 = 0, pb_now2 = 0, pb_ttl = 60\<rparr> :: publication"
  let ?acc = "run_reads resolve_reads (publish_page ?pb zero_page) (0, empty_set)"
  let ?s = "\<lparr>lk_seq = 2, lk_page = publish_page ?pb zero_page, lk_writer = WIdle,
      lk_reader = RReading 0 2 2 (length resolve_reads) ?acc, lk_ticks = 2, lk_hist = [?pb]\<rparr>"
  let ?t = "?s\<lparr>lk_reader := RGot (keep_first 0 2) ?acc\<rparr>"
  have r: "resolve_reach ?s" using page_ok_zero by (rule resolve_lock.reach_one_read)
  have t: "lock_step publish_writes resolve_reads (0, empty_set) keep_first ?s ?t" by (rule r_accept) simp_all
  from resolve_read_not_torn [OF r t] have "snd ?acc = decode_page (publish_page ?pb zero_page)" by simp
  moreover have "resolve_reach ?t" using r t unfolding lock_reach_def by (rule rtranclp.rtrancl_into_rtrancl)
  ultimately show ?thesis by (intro exI [of _ ?t] exI [of _ ?acc] conjI) (simp_all add: keep_first_def)
qed

text \<open>
  The supervisor never acts on a torn score: at the step at which \<open>ScoreReader::read\<close> returns, the sample
  it returns is exactly the last one the worker committed to that slot.
\<close>

lemma score_read_not_torn:
  assumes "score_reach slot0 s" and "lock_step score_writes score_reads sample_default keep_last s s'"
    and "lk_reader s = RReading last_seq first t0 k acc" "lk_reader s' = RGot l res"
    and "lk_ticks s < t0 + 2 ^ 32"
  shows "lk_writer s = WIdle
    \<and> res = sample_of_slot (if lk_hist s = [] then slot0 else slot_of_sample (last (lk_hist s)))"
proof -
  have "foldl (\<lambda>s a. slot_of_sample a) slot0 h = (if h = [] then slot0 else slot_of_sample (last h))" for h
    by (cases h rule: rev_cases) simp_all
  then show ?thesis
    using score_lock.returned_read [OF TrueI assms] by (simp add: score_lock.committed_def)
qed

lemma score_read_not_torn_witness:
  "\<exists>s. score_reach (ls_slot zero_slot) s \<and> lk_hist s = [(sample_default\<lparr>sm_score := 5\<rparr>, 9)]
     \<and> lk_reader s = RReading 0 2 2 6 (sample_default\<lparr>sm_score := 5, sm_updated := 9\<rparr>)"
proof -
  let ?pb = "(sample_default\<lparr>sm_score := 5\<rparr>, 9 :: u64)"
  let ?c = "\<lparr>lk_seq = 2, lk_page = slot_of_sample ?pb, lk_writer = WIdle,
      lk_reader = RReading 0 2 2 (length score_reads) (run_reads score_reads (slot_of_sample ?pb) sample_default),
      lk_ticks = 2, lk_hist = [?pb]\<rparr>"
  have c: "score_reach (ls_slot zero_slot) ?c" by (rule score_lock.reach_one_read [OF TrueI])
  let ?acc = "run_reads score_reads (slot_of_sample ?pb) sample_default"
  have "lock_step score_writes score_reads sample_default keep_last ?c (?c\<lparr>lk_reader := RGot (keep_last 0 2) ?acc\<rparr>)"
    by (rule r_accept) simp_all
  from score_read_not_torn [OF c this] have "?acc = sample_of_slot (slot_of_sample ?pb)" by simp
  also have "\<dots> = sample_default\<lparr>sm_score := 5, sm_updated := 9\<rparr>"
    by (simp add: sample_of_slot_def slot_of_sample_def sample_default_def raw_default_def list_all_replicate_0)
  finally show ?thesis using c by (intro exI [of _ ?c] conjI) (simp_all add: score_reads_def)
qed

text \<open>
  A worker that has not seen the latest publication gets it: from any reachable state with no
  publication in progress and a counter the reader has not recorded, the reader's own steps lead to an
  accepted read of the committed set, whatever happened before.
\<close>

lemma resolve_read_completes:
  assumes "resolve_reach s" and "lk_writer s = WIdle" "lk_reader s = RIdle last_seq" "lk_seq s \<noteq> last_seq"
  shows "\<exists>n. (lock_step publish_writes resolve_reads (0, empty_set) keep_first)\<^sup>*\<^sup>* s
    (s\<lparr>lk_reader := RGot (lk_seq s) (n, decode_page (foldl (\<lambda>p pb. publish_page pb p) zero_page (lk_hist s)))\<rparr>)"
  using resolve_lock.solo_read [OF page_ok_zero assms]
  by (auto simp: resolve_lock.committed_def keep_first_def)

lemma resolve_read_completes_witness:
  "\<exists>s n. (lock_step publish_writes resolve_reads (0, empty_set) keep_first)\<^sup>*\<^sup>* (lock_init zero_page)
     (s\<lparr>lk_reader := RGot 2 (n, decode_page (publish_page \<lparr>pb_addrs = [V4 1], pb_weights = [3], pb_workers = 1,
        pb_now1 = 0, pb_now2 = 0, pb_ttl = 60\<rparr> zero_page))\<rparr>)"
proof -
  let ?step = "lock_step publish_writes resolve_reads (0, empty_set) keep_first"
  let ?pb = "\<lparr>pb_addrs = [V4 1], pb_weights = [3], pb_workers = 1, pb_now1 = 0, pb_now2 = 0, pb_ttl = 60\<rparr> :: publication"
  let ?a = "\<lparr>lk_seq = 2, lk_page = publish_page ?pb zero_page, lk_writer = WIdle, lk_reader = RIdle 0,
      lk_ticks = 2, lk_hist = [?pb]\<rparr>"
  have reach: "resolve_reach ?a" using page_ok_zero by (rule resolve_lock.reach_one_publication)
  from resolve_read_completes [OF reach, of 0] obtain n where
    "?step\<^sup>*\<^sup>* ?a (?a\<lparr>lk_reader := RGot 2 (n, decode_page (publish_page ?pb zero_page))\<rparr>)" by auto
  with reach show ?thesis unfolding lock_reach_def by (meson rtranclp_trans)
qed

end
