(* ===== verification/Weights.thy ===== *)
theory Weights
  imports Shared "HOL-Library.Multiset"
begin

text \<open>
  The selection policy of the supervisor in \<^verbatim>\<open>src/pkgs/microdoh3/src/main.rs\<close>: the candidate list
  (\<open>update_candidates\<close>) and the weights computed from the workers' scores (\<open>compute_weights\<close>).
  \<open>sort_by_key\<close> is a stable sort, as \<open>sort_key\<close> of the library is.
\<close>

definition update_candidates :: "ip_addr list \<Rightarrow> ip_addr list \<Rightarrow> bool \<Rightarrow> ip_addr list" where
  "update_candidates candidates resolved prefer_ipv4 =
    (let nxt = resolved;
         nxt = (if prefer_ipv4 then sort_key (\<lambda>a. case a of V6 _ \<Rightarrow> True | V4 _ \<Rightarrow> False) nxt else nxt);
         nxt = (if length nxt > MAX_ADDRS then take MAX_ADDRS nxt else nxt)
     in if nxt \<noteq> [] then nxt else candidates)"

text \<open>The loop over the samples: the best score and the measured flag of every candidate.\<close>

definition note_sample :: "ip_addr list \<Rightarrow> score_sample option \<Rightarrow> u32 list \<times> bool list \<Rightarrow> u32 list \<times> bool list" where
  "note_sample candidates s = (\<lambda>(best, measured).
     case s of
       None \<Rightarrow> (best, measured)
     | Some s \<Rightarrow>
         (case sm_addr s of
            None \<Rightarrow> (best, measured)
          | Some addr \<Rightarrow>
              (case position (\<lambda>a. a = addr) candidates of
                 None \<Rightarrow> (best, measured)
               | Some i \<Rightarrow> (best[i := max (best ! i) (sm_score s)], measured[i := True]))))"

definition compute_weights :: "ip_addr list \<Rightarrow> score_sample option list \<Rightarrow> usize \<Rightarrow> (ip_addr \<times> u32) list" where
  "compute_weights candidates samples worker_count =
    (let (best, measured) = fold (note_sample candidates) samples
           (replicate (length candidates) 0, replicate (length candidates) False);
         top = fold max best 0;
         workers = of_nat (max worker_count 1) :: u32;
         floor = max (top div (2 * workers)) 1;
         one_slot = top div workers;
         probe = position (\<lambda>m. \<not> m) measured;
         out = map (\<lambda>i.
           let w = max (best ! i) floor;
               w = (if Some i = probe then saturating_add w one_slot else w)
           in (candidates ! i, w)) [0..<length candidates]
     in sort_key (\<lambda>(_, w). - uint w) out)"

section \<open>The candidate list\<close>

lemma update_candidates_bound:
  "length candidates \<le> MAX_ADDRS \<Longrightarrow> length (update_candidates candidates resolved p) \<le> MAX_ADDRS"
  by (simp add: update_candidates_def Let_def)

lemma update_candidates_nonempty:
  "candidates \<noteq> [] \<Longrightarrow> update_candidates candidates resolved p \<noteq> []"
  by (simp add: update_candidates_def Let_def)

lemma update_candidates_empty [simp]: "update_candidates candidates [] p = candidates"
  by (simp add: update_candidates_def)

section \<open>The weights\<close>

text \<open>Reference: the scores reported for an address, its best score, and its weight.\<close>

definition reported :: "score_sample option list \<Rightarrow> ip_addr \<Rightarrow> u32 list" where
  "reported samples a = [sm_score (the s). s \<leftarrow> samples, s \<noteq> None \<and> sm_addr (the s) = Some a]"

definition best_score :: "score_sample option list \<Rightarrow> ip_addr \<Rightarrow> u32" where
  "best_score samples a = fold max (reported samples a) 0"

definition top_score :: "score_sample option list \<Rightarrow> ip_addr list \<Rightarrow> u32" where
  "top_score samples candidates = fold max (map (best_score samples) candidates) 0"

definition unmeasured :: "score_sample option list \<Rightarrow> ip_addr list \<Rightarrow> ip_addr option" where
  "unmeasured samples candidates = List.find (\<lambda>a. reported samples a = []) candidates"

definition weight_spec :: "ip_addr list \<Rightarrow> score_sample option list \<Rightarrow> usize \<Rightarrow> ip_addr \<Rightarrow> u32" where
  "weight_spec candidates samples worker_count a =
    (let workers = of_nat (max worker_count 1);
         top = top_score samples candidates;
         w = max (best_score samples a) (max (top div (2 * workers)) 1)
     in if unmeasured samples candidates = Some a then saturating_add w (top div workers) else w)"

lemma reported_snoc: "reported (samples @ [s]) a =
    reported samples a @ (case s of Some x \<Rightarrow> if sm_addr x = Some a then [sm_score x] else [] | None \<Rightarrow> [])"
  by (auto simp: reported_def split: option.split)

lemma scan_samples:
  assumes "distinct candidates"
  shows "fold (note_sample candidates) samples (replicate (length candidates) 0, replicate (length candidates) False)
    = (map (best_score samples) candidates, map (\<lambda>a. reported samples a \<noteq> []) candidates)"
proof (induction samples rule: rev_induct)
  case Nil
  then show ?case by (simp add: reported_def best_score_def map_replicate_const)
next
  case (snoc s samples)
  show ?case
  proof (cases "\<exists>x i. s = Some x \<and> i < length candidates \<and> sm_addr x = Some (candidates ! i)")
    case True
    then obtain x i where x: "s = Some x" "i < length candidates" "sm_addr x = Some (candidates ! i)" by blast
    have pos: "position (\<lambda>a. a = candidates ! i) candidates = Some i" by (rule position_distinct [OF assms x(2)])
    have b: "best_score (samples @ [s]) a = (if a = candidates ! i then max (sm_score x) (best_score samples a) else best_score samples a)" for a
      using x by (simp add: best_score_def reported_snoc)
    have r: "reported (samples @ [s]) a \<noteq> [] \<longleftrightarrow> a = candidates ! i \<or> reported samples a \<noteq> []" for a
      using x by (auto simp: reported_snoc)
    have "(map (best_score samples) candidates)[i := max (best_score samples (candidates ! i)) (sm_score x)]
        = map (best_score (samples @ [s])) candidates"
      using assms x(2) by (intro nth_equalityI) (auto simp: b nth_list_update nth_eq_iff_index_eq max.commute)
    moreover have "(map (\<lambda>a. reported samples a \<noteq> []) candidates)[i := True]
        = map (\<lambda>a. reported (samples @ [s]) a \<noteq> []) candidates"
      using assms x(2) by (intro nth_equalityI) (auto simp: r nth_list_update nth_eq_iff_index_eq)
    ultimately show ?thesis using snoc x pos by (simp add: note_sample_def)
  next
    case False
    have none: "reported (samples @ [s]) a = reported samples a" if "a \<in> set candidates" for a
      using False that by (auto simp: reported_snoc in_set_conv_nth split: option.split)
    have "note_sample candidates s y = y" for y
      using False by (auto simp: note_sample_def position_eq_Some split: option.split prod.split)
    then show ?thesis using snoc none by (simp add: best_score_def)
  qed
qed

lemma find_position: "List.find P xs = map_option ((!) xs) (position P xs)"
proof (induction xs)
  case (Cons x xs)
  then show ?case by (cases "position P xs") auto
qed simp

lemma position_map: "position P (map f xs) = position (\<lambda>x. P (f x)) xs"
  by (induction xs) auto



text \<open>Without any assumption on the candidates: a permutation of them, all weights positive, best first.\<close>

lemma saturating_add_ge: "a \<le> saturating_add a b"
proof (cases "unat a + unat b < 2 ^ 32")
  case True
  then have "unat (a + b) = unat a + unat b" by (intro unat_add_lem [THEN iffD1]) simp
  with True show ?thesis by (simp add: saturating_add_def word_le_nat_alt)
next
  case False
  then show ?thesis by (simp only: saturating_add_def if_False word_order.extremum)
qed

lemma compute_weights_addrs: "mset (map fst (compute_weights candidates samples n)) = mset candidates"
proof -
  have "mset (map fst (sort_key k (map (\<lambda>i. (candidates ! i, f i)) [0..<length candidates]))) = mset candidates"
    for k :: "ip_addr \<times> u32 \<Rightarrow> int" and f
  proof -
    let ?xs = "map (\<lambda>i. (candidates ! i, f i)) [0..<length candidates]"
    have "mset (map fst (sort_key k ?xs)) = mset (map fst ?xs)" by (simp only: mset_map mset_sort)
    also have "map fst ?xs = candidates" by (simp add: comp_def map_nth)
    finally show ?thesis .
  qed
  then show ?thesis by (simp add: compute_weights_def Let_def split: prod.split)
qed

lemma compute_weights_positive: "(a, w) \<in> set (compute_weights candidates samples n) \<Longrightarrow> 1 \<le> w"
proof -
  have m: "1 \<le> max b (max f 1)" for b f :: u32 by (simp add: le_max_iff_disj)
  have "1 \<le> saturating_add (max b (max f 1)) o1" for b f o1 :: u32
    using m saturating_add_ge by (rule order_trans)
  with m have "1 \<le> (if c then saturating_add (max b (max f 1)) o1 else max b (max f 1))" for c and b f o1 :: u32
    by simp
  then show "(a, w) \<in> set (compute_weights candidates samples n) \<Longrightarrow> 1 \<le> w"
    by (auto simp: compute_weights_def Let_def split: prod.splits)
qed

lemma compute_weights_length: "length (compute_weights candidates samples n) = length candidates"
  by (metis compute_weights_addrs length_map size_mset)

section \<open>From scores to workers\<close>

lemma cum_positive:
  assumes "ws \<noteq> []" "\<forall>w \<in> set ws. 1 \<le> w"
  shows "0 < cum ws (length ws)"
proof -
  obtain w ws' where ws: "ws = w # ws'" using assms(1) by (cases ws) auto
  have "1 \<le> unat w" using assms(2) ws by (simp add: word_le_nat_alt)
  then show ?thesis by (simp add: ws cum_def)
qed

text \<open>
  The whole path from measurements to a worker's address works: for any non-empty candidate list of at
  most sixteen addresses and any samples, the weights the supervisor computes and publishes give every
  worker of the fleet a slot, and the address in that slot is one of the candidates. No candidate is
  starved of weight, so no worker is left without an upstream.
\<close>

lemma weights_reach_fleet:
  assumes "candidates \<noteq> []" "length candidates \<le> MAX_ADDRS" "page_ok p" "idx < n" "n \<le> 2 ^ 27"
  shows "let fresh = compute_weights candidates samples n;
             us = decode_page (publish_page \<lparr>pb_addrs = map fst fresh, pb_weights = map snd fresh,
                    pb_workers = n, pb_now1 = t1, pb_now2 = t2, pb_ttl = t3\<rparr> p)
         in case slot_for us idx of None \<Rightarrow> False
            | Some j \<Rightarrow> j < length candidates \<and> us_addrs us ! j \<in> set candidates \<and> 1 \<le> us_weights us ! j"
proof -
  define fresh where "fresh = compute_weights candidates samples n"
  define pb where "pb = \<lparr>pb_addrs = map fst fresh, pb_weights = map snd fresh, pb_workers = n, pb_now1 = t1,
    pb_now2 = t2, pb_ttl = t3\<rparr>"
  define us where "us = decode_page (publish_page pb p)"
  have len: "length fresh = length candidates" by (simp add: fresh_def compute_weights_length)
  have "map (weight_or (map snd fresh)) [0..<length fresh] = map snd fresh"
    by (rule nth_equalityI) (simp_all add: weight_or_def get_def)
  then have us: "us_addrs us = map fst fresh" "us_weights us = map snd fresh" "us_workers us = of_nat n"
    using assms(2) len by (simp_all add: us_def pb_def decode_publish [OF assms(3)] min_def)
  have "unat (of_nat n :: u32) = n" using assms(5) by (simp add: unat_of_nat)
  then have fleet: "fleet us = n" using us(3) assms(4) by (simp add: fleet_def)
  have small: "small_set us" using us len assms(1,2) by (auto simp: small_set_def)
  have pos: "\<forall>w \<in> set (map snd fresh). 1 \<le> w" using compute_weights_positive by (auto simp: fresh_def)
  have "set_weights us = map snd fresh" by (simp add: set_weights_def us)
  moreover have "fresh \<noteq> []" using len assms(1) by auto
  ultimately have T: "0 < total_of us" using cum_positive [of "map snd fresh"] pos by simp
  obtain j where j: "slot_for us idx = Some j" "j < length (set_weights us)"
    by (rule slot_for_exists [OF small _ _ T, of idx]) (use assms(4,5) fleet in auto)
  then have jl: "j < length fresh" by (simp add: set_weights_def us)
  have "us_addrs us ! j \<in> set (map fst fresh)" using jl by (simp add: us)
  also have "set (map fst fresh) = set candidates"
    using compute_weights_addrs [of candidates samples n] by (metis fresh_def set_mset_mset)
  finally show ?thesis
    using j jl len pos unfolding fresh_def [symmetric] Let_def pb_def [symmetric] us_def [symmetric]
    by (simp add: us)
qed

lemma weights_reach_fleet_witness:
  "let fresh = compute_weights [V4 1] [] 1;
       us = decode_page (publish_page \<lparr>pb_addrs = map fst fresh, pb_weights = map snd fresh, pb_workers = 1,
              pb_now1 = 0, pb_now2 = 0, pb_ttl = 60\<rparr> zero_page)
   in \<exists>j. slot_for us 0 = Some j \<and> us_addrs us ! j \<in> set [V4 1]"
  using weights_reach_fleet [of "[V4 1]" zero_page 0 1 "[]" 0 0 60]
  by (simp add: Let_def MAX_ADDRS_def page_ok_zero split: option.splits)

end
