(* ===== verification/Ip_Text.thy ===== *)
theory Ip_Text
  imports Net
begin

text \<open>
  The textual IP addresses of the standard library, \<open>str::parse::<IpAddr>()\<close>, which
  \<^verbatim>\<open>bootstrap.rs\<close> uses to recognise an upstream host that is already an address. A parser takes the
  remaining bytes and either fails (the input is then unread, as \<open>read_atomically\<close> does) or returns a
  value and the rest.
\<close>

type_synonym 'a parser = "bytes \<Rightarrow> ('a \<times> bytes) option"

definition to_digit :: "nat \<Rightarrow> u8 \<Rightarrow> nat option" where
  "to_digit radix b =
    (let v = (if 48 \<le> b \<and> b \<le> 57 then unat b - 48
              else if 97 \<le> b \<and> b \<le> 122 then unat b - 87
              else if 65 \<le> b \<and> b \<le> 90 then unat b - 55
              else 99)
     in if v < radix then Some v else None)"

text \<open>The digit loop: \<open>bound\<close> is the number of values of the type, \<open>n\<close> the digits read so far.\<close>

fun read_digits :: "nat \<Rightarrow> nat \<Rightarrow> nat \<Rightarrow> bytes \<Rightarrow> nat \<Rightarrow> nat \<Rightarrow> (nat \<times> nat \<times> bytes) option" where
  "read_digits radix max_digits bound [] acc n = Some (acc, n, [])"
| "read_digits radix max_digits bound (b # bs) acc n =
    (case to_digit radix b of
       None \<Rightarrow> Some (acc, n, b # bs)
     | Some d \<Rightarrow>
         let v = acc * radix + d in
         if v < bound \<and> n + 1 \<le> max_digits then read_digits radix max_digits bound bs v (n + 1) else None)"

definition read_number :: "nat \<Rightarrow> nat \<Rightarrow> nat \<Rightarrow> bool \<Rightarrow> nat parser" where
  "read_number radix max_digits bound allow_zero_prefix bs =
    (case read_digits radix max_digits bound bs 0 0 of
       None \<Rightarrow> None
     | Some (v, n, rest) \<Rightarrow>
         if n = 0 then None
         else if \<not> allow_zero_prefix \<and> get bs 0 = Some 48 \<and> n > 1 then None
         else Some (v, rest))"

definition read_given_char :: "u8 \<Rightarrow> unit parser" where
  "read_given_char c bs = (case bs of [] \<Rightarrow> None | b # r \<Rightarrow> if b = c then Some ((), r) else None)"

definition read_separator :: "u8 \<Rightarrow> nat \<Rightarrow> 'a parser \<Rightarrow> 'a parser" where
  "read_separator sep index inner bs =
    (if index > 0 then (case read_given_char sep bs of None \<Rightarrow> None | Some (_, r) \<Rightarrow> inner r) else inner bs)"

fun read_ipv4_groups :: "nat \<Rightarrow> nat \<Rightarrow> bytes \<Rightarrow> (bytes \<times> bytes) option" where
  "read_ipv4_groups 0 i bs = Some ([], bs)"
| "read_ipv4_groups (Suc k) i bs =
    (case read_separator 46 i (read_number 10 3 256 False) bs of
       None \<Rightarrow> None
     | Some (v, r) \<Rightarrow>
         (case read_ipv4_groups k (i + 1) r of None \<Rightarrow> None | Some (vs, r') \<Rightarrow> Some (of_nat v # vs, r')))"

definition read_ipv4_addr :: "ipv4 parser" where
  "read_ipv4_addr bs = (case read_ipv4_groups 4 0 bs of None \<Rightarrow> None | Some (os, r) \<Rightarrow> Some (from_octets os, r))"

text \<open>
  \<open>read_groups\<close>: up to \<open>limit\<close> 16-bit groups; the result says whether the last two came from an embedded
  IPv4 address.
\<close>

function read_groups :: "nat \<Rightarrow> nat \<Rightarrow> bytes \<Rightarrow> u16 list \<times> bool \<times> bytes" where
  "read_groups limit i bs =
    (if limit \<le> i then ([], False, bs)
     else
       let hex = (\<lambda>_ :: unit.
         case read_separator 58 i (read_number 16 4 65536 True) bs of
           None \<Rightarrow> ([], False, bs)
         | Some (g, r) \<Rightarrow> (case read_groups limit (i + 1) r of (gs, v4, r') \<Rightarrow> (of_nat g # gs, v4, r')))
       in
       if i < limit - 1 then
         (case read_separator 58 i read_ipv4_addr bs of
            Some (v4, r) \<Rightarrow> ([ucast (drop_bit 16 v4), ucast v4], True, r)
          | None \<Rightarrow> hex ())
       else hex ())"
  by pat_completeness auto
termination by (relation "measure (\<lambda>(limit, i, bs). limit - i)") auto

declare read_groups.simps [simp del]

definition ipv6_of_groups :: "u16 list \<Rightarrow> ipv6" where
  "ipv6_of_groups gs = foldl (\<lambda>a g. push_bit 16 a OR ucast g) 0 gs"

definition read_ipv6_addr :: "ipv6 parser" where
  "read_ipv6_addr bs =
    (case read_groups 8 0 bs of
       (head, head_ipv4, r) \<Rightarrow>
         if length head = 8 then Some (ipv6_of_groups head, r)
         else if head_ipv4 then None
         else
           (case read_given_char 58 r of
              None \<Rightarrow> None
            | Some (_, r1) \<Rightarrow>
                (case read_given_char 58 r1 of
                   None \<Rightarrow> None
                 | Some (_, r2) \<Rightarrow>
                     (case read_groups (8 - (length head + 1)) 0 r2 of
                        (tail, _, r3) \<Rightarrow>
                          Some (ipv6_of_groups (head @ replicate (8 - length head - length tail) 0 @ tail), r3)))))"

definition parse_ip :: "bytes \<Rightarrow> ip_addr option" where
  "parse_ip s =
    (case (case read_ipv4_addr s of
             Some (v4, r) \<Rightarrow> Some (V4 v4, r)
           | None \<Rightarrow> (case read_ipv6_addr s of Some (v6, r) \<Rightarrow> Some (V6 v6, r) | None \<Rightarrow> None)) of
       Some (ip, []) \<Rightarrow> Some ip
     | _ \<Rightarrow> None)"

section \<open>Dotted quads\<close>

text \<open>The decimal text of a byte and of an IPv4 address; the parser reads it back.\<close>

definition digit :: "nat \<Rightarrow> u8" where
  "digit d = of_nat (48 + d)"

definition dec_byte :: "u8 \<Rightarrow> bytes" where
  "dec_byte b =
    (let n = unat b in
     (if n \<ge> 100 then [digit (n div 100)] else [])
     @ (if n \<ge> 10 then [digit (n div 10 mod 10)] else [])
     @ [digit (n mod 10)])"

fun dotted :: "bytes \<Rightarrow> bytes" where
  "dotted [] = []"
| "dotted [b] = dec_byte b"
| "dotted (b # c # bs) = dec_byte b @ 46 # dotted (c # bs)"

definition ipv4_text :: "ipv4 \<Rightarrow> bytes" where
  "ipv4_text a = dotted (octets 4 a)"

lemma unat_digit: "d < 10 \<Longrightarrow> unat (digit d) = 48 + d"
  unfolding digit_def by (subst unat_of_nat) simp

lemma to_digit_digit: "d < 10 \<Longrightarrow> to_digit 10 (digit d) = Some d"
  by (simp add: to_digit_def word_le_nat_alt unat_digit Let_def)

lemma digit_zero_iff: "d < 10 \<Longrightarrow> digit d = 48 \<longleftrightarrow> d = 0"
  by (simp add: word_unat_eq_iff unat_digit)

definition no_digit :: "bytes \<Rightarrow> bool" where
  "no_digit rest \<longleftrightarrow> (case rest of [] \<Rightarrow> True | b # _ \<Rightarrow> to_digit 10 b = None)"

lemma read_digits_stop:
  "no_digit rest \<Longrightarrow> read_digits 10 m bound rest acc n = Some (acc, n, rest)"
  by (cases rest) (simp_all add: no_digit_def)

lemma read_number_dec_byte:
  assumes "no_digit rest"
  shows "read_number 10 3 256 False (dec_byte b @ rest) = Some (unat b, rest)"
proof -
  define n where "n = unat b"
  have n: "n < 256" using u8_less_256 [of b] by (simp add: n_def)
  consider "n < 10" | "10 \<le> n" "n < 100" | "100 \<le> n" by linarith
  then show ?thesis
  proof cases
    case 1
    then show ?thesis
      using read_digits_stop [OF assms]
      by (simp add: read_number_def dec_byte_def n_def [symmetric] to_digit_digit Let_def)
  next
    case 2
    then have d: "n div 10 < 10" "n div 10 mod 10 = n div 10" "n div 10 \<noteq> 0" "n div 10 < 256" by simp_all
    have "n div 10 * 10 + n mod 10 = n" by simp
    with 2 d show ?thesis
      using read_digits_stop [OF assms] n
      by (auto simp: read_number_def dec_byte_def n_def [symmetric] to_digit_digit digit_zero_iff Let_def get_def)
  next
    case 3
    then have d: "n div 100 < 10" "n div 100 \<noteq> 0" using n by simp_all
    have sum: "(n div 100 * 10 + n div 10 mod 10) * 10 + n mod 10 = n"
    proof -
      have "n div 10 = n div 100 * 10 + n div 10 mod 10"
        using div_mult_mod_eq [of "n div 10" 10] by (simp add: div_mult2_eq [symmetric])
      then show ?thesis using div_mult_mod_eq [of n 10] by simp
    qed
    then have "n div 100 * 10 + n div 10 mod 10 < 256" using n by linarith
    with 3 d sum n show ?thesis
      using read_digits_stop [OF assms]
      by (simp add: read_number_def dec_byte_def n_def [symmetric] to_digit_digit digit_zero_iff Let_def get_def)
  qed
qed

lemma no_digit_dot: "no_digit (46 # r)"
  by (simp add: no_digit_def to_digit_def Let_def)

lemma read_ipv4_text: "no_digit rest \<Longrightarrow> read_ipv4_addr (ipv4_text a @ rest) = Some (a, rest)"
proof -
  assume rest: "no_digit rest"
  obtain p q r s where o: "octets 4 a = [p, q, r, s]"
    using octets_def [of 4 a] by (simp add: upt_rec)
  have four: "read_ipv4_groups 4 = read_ipv4_groups (Suc (Suc (Suc (Suc 0))))" by (simp add: eval_nat_numeral)
  have "from_octets [p, q, r, s] = a" using from_octets_octets [of 4 a] o by simp
  then show ?thesis
    using rest by (simp add: read_ipv4_addr_def ipv4_text_def o four read_separator_def
        read_given_char_def read_number_dec_byte no_digit_dot)
qed

end
