(* ===== verification/Bootstrap.thy ===== *)
theory Bootstrap
  imports Ip_Text
begin

text \<open>
  \<^verbatim>\<open>src/pkgs/microdoh3/src/bootstrap.rs\<close>: resolution of the upstream host before the fork (\<open>resolve\<close>,
  \<open>query\<close>) and the non-blocking refresh of the supervisor (\<open>AsyncResolve\<close>). Packets are built and parsed
  by the crate simple-dns, which is a parameter: \<open>build\<close> gives the query bytes or an error,
  \<open>parse\<close> the message ID and the answers. What the sockets do is an argument too: for \<open>query\<close> the outcome of each attempt, for
  \<open>on_readable\<close> the datagrams waiting.
\<close>

definition QUERY_TIMEOUT :: duration where "QUERY_TIMEOUT = from_secs 3"
definition ATTEMPTS :: usize where "ATTEMPTS = 3"
definition DEFAULT_TTL :: u32 where "DEFAULT_TTL = 300"
definition MIN_TTL :: u32 where "MIN_TTL = 30"

datatype qtype = QA | QAAAA

datatype rdata = RA u32 | RAAAA "128 word" | ROther

record dns_packet =
  pk_id :: u16
  pk_answers :: "(rdata \<times> u32) list"

type_synonym packet_parser = "bytes \<Rightarrow> dns_packet option"
type_synonym packet_builder = "string \<Rightarrow> qtype \<Rightarrow> u16 \<Rightarrow> bytes option"

datatype bootstrap_error = BsIo | BsPacket | BsNoRecords string

record resolve_state =
  rs_addrs :: "ip_addr list"
  rs_expires_at :: instant

definition is_fresh :: "resolve_state \<Rightarrow> instant \<Rightarrow> bool" where
  "is_fresh st now \<longleftrightarrow> rs_expires_at st > now"

definition is_ipv6 :: "ip_addr \<Rightarrow> bool" where
  "is_ipv6 ip = (case ip of V6 _ \<Rightarrow> True | V4 _ \<Rightarrow> False)"

text \<open>The loop over the answers keeps A and AAAA addresses and the least TTL of those records.\<close>

definition rdata_ip :: "rdata \<Rightarrow> ip_addr option" where
  "rdata_ip r = (case r of RA a \<Rightarrow> Some (V4 a) | RAAAA a \<Rightarrow> Some (V6 a) | ROther \<Rightarrow> None)"

fun scan_answers :: "(rdata \<times> u32) list \<Rightarrow> ip_addr list \<Rightarrow> u32 \<Rightarrow> ip_addr list \<times> u32" where
  "scan_answers [] ips min_ttl = (ips, min_ttl)"
| "scan_answers ((rd, ttl) # rrs) ips min_ttl =
    (case rdata_ip rd of
       Some ip \<Rightarrow> scan_answers rrs (ips @ [ip]) (min min_ttl ttl)
     | None \<Rightarrow> scan_answers rrs ips min_ttl)"

definition parse_response :: "packet_parser \<Rightarrow> bytes \<Rightarrow> u16 \<Rightarrow> (ip_addr list \<times> u32) option" where
  "parse_response parse buf want_id =
    (case parse buf of
       None \<Rightarrow> None
     | Some packet \<Rightarrow>
         if pk_id packet \<noteq> want_id then None
         else
           (case scan_answers (pk_answers packet) [] (- 1) of
              (ips, min_ttl) \<Rightarrow> Some (ips, if min_ttl = - 1 then DEFAULT_TTL else min_ttl)))"

text \<open>What one attempt of \<open>query\<close> meets: a failed send, a failed or timed-out receive, or a datagram.\<close>

datatype attempt = SendErr | RecvErr | Datagram bytes

fun query_loop :: "packet_parser \<Rightarrow> u16 \<Rightarrow> attempt list \<Rightarrow> (ip_addr list \<times> u32, bootstrap_error) result" where
  "query_loop parse qid [] = Inl BsIo"
| "query_loop parse qid (SendErr # rest) = query_loop parse qid rest"
| "query_loop parse qid (RecvErr # rest) = query_loop parse qid rest"
| "query_loop parse qid (Datagram d # rest) =
    (case parse_response parse d qid of Some r \<Rightarrow> Inr r | None \<Rightarrow> query_loop parse qid rest)"

definition query :: "packet_builder \<Rightarrow> packet_parser \<Rightarrow> string \<Rightarrow> qtype \<Rightarrow> u16 \<Rightarrow> bool \<Rightarrow> attempt list
    \<Rightarrow> (ip_addr list \<times> u32, bootstrap_error) result" where
  "query build parse host qt qid bind_ok attempts =
    (case build host qt qid of
       None \<Rightarrow> Inl BsPacket
     | Some payload \<Rightarrow> if \<not> bind_ok then Inl BsIo else query_loop parse qid (take ATTEMPTS attempts))"

text \<open>One question of \<open>resolve\<close>: its ID, whether the socket can be set up, and the attempts.\<close>

type_synonym exchange = "u16 \<times> bool \<times> attempt list"

definition resolve_ask :: "packet_builder \<Rightarrow> packet_parser \<Rightarrow> string \<Rightarrow> qtype \<Rightarrow> exchange
    \<Rightarrow> ip_addr list \<times> u32 \<Rightarrow> ip_addr list \<times> u32" where
  "resolve_ask build parse host qt ex = (\<lambda>(addrs, min_ttl).
     case ex of (qid, bind_ok, attempts) \<Rightarrow>
       (case query build parse host qt qid bind_ok attempts of
          Inr (ips, ttl) \<Rightarrow> (addrs @ ips, min min_ttl ttl)
        | Inl _ \<Rightarrow> (addrs, min_ttl)))"

definition resolve :: "packet_builder \<Rightarrow> packet_parser \<Rightarrow> string \<Rightarrow> exchange \<Rightarrow> exchange \<Rightarrow> instant
    \<Rightarrow> (resolve_state, bootstrap_error) result" where
  "resolve build parse host ex_aaaa ex_a now =
    (case parse_ip (as_bytes host) of
       Some ip \<Rightarrow> Inr \<lparr>rs_addrs = [ip], rs_expires_at = now + from_secs (86400 * 365)\<rparr>
     | None \<Rightarrow>
         (case resolve_ask build parse host QA ex_a (resolve_ask build parse host QAAAA ex_aaaa ([], - 1)) of
            (addrs, min_ttl) \<Rightarrow>
              if addrs = [] then Inl (BsNoRecords host)
              else
                let min_ttl = (if min_ttl = - 1 \<or> min_ttl = 0 then DEFAULT_TTL else min_ttl)
                in Inr \<lparr>rs_addrs = addrs, rs_expires_at = now + from_secs (unat min_ttl)\<rparr>))"

text \<open>\<open>resolve_upstream\<close> lists IPv6 sockets before IPv4 ones; an error becomes an \<open>io::Error\<close>.\<close>

definition resolve_upstream :: "packet_builder \<Rightarrow> packet_parser \<Rightarrow> string \<Rightarrow> u16 \<Rightarrow> exchange \<Rightarrow> exchange \<Rightarrow> instant
    \<Rightarrow> (resolve_state \<times> sock_addr list, bootstrap_error) result" where
  "resolve_upstream build parse host port ex_aaaa ex_a now =
    bindE (map_err (\<lambda>_. BsIo) (resolve build parse host ex_aaaa ex_a now)) (\<lambda>state.
      let sock = (\<lambda>a. \<lparr>sa_ip = a, sa_port = port\<rparr>);
          v6 = map sock (filter is_ipv6 (rs_addrs state));
          v4 = map sock (filter (\<lambda>a. \<not> is_ipv6 a) (rs_addrs state))
      in Inr (state, v6 @ v4))"

section \<open>The non-blocking refresh\<close>

record async_resolve =
  ar_q_aaaa :: bytes
  ar_q_a :: bytes
  ar_id_aaaa :: u16
  ar_id_a :: u16
  ar_deadline :: instant
  ar_attempts :: usize
  ar_aaaa :: "(ip_addr list \<times> u32) option"
  ar_a :: "(ip_addr list \<times> u32) option"

definition rand_id :: "u32 \<Rightarrow> u16" where
  "rand_id nanos = ucast nanos XOR ucast (drop_bit 16 nanos)"

text \<open>\<open>start\<close> also sends both queries; the list is what it sends.\<close>

definition async_start :: "packet_builder \<Rightarrow> string \<Rightarrow> u32 \<Rightarrow> u32 \<Rightarrow> bool \<Rightarrow> instant
    \<Rightarrow> (async_resolve \<times> bytes list, bootstrap_error) result" where
  "async_start build host nanos1 nanos2 bind_ok now =
    (let id_aaaa = rand_id nanos1; id_a = rand_id nanos2 + 1 in
     bindE (ok_or (build host QAAAA id_aaaa) BsPacket) (\<lambda>q_aaaa.
     bindE (ok_or (build host QA id_a) BsPacket) (\<lambda>q_a.
     if \<not> bind_ok then Inl BsIo
     else Inr (\<lparr>ar_q_aaaa = q_aaaa, ar_q_a = q_a, ar_id_aaaa = id_aaaa, ar_id_a = id_a,
                ar_deadline = now + QUERY_TIMEOUT, ar_attempts = 1, ar_aaaa = None, ar_a = None\<rparr>, [q_aaaa, q_a]))))"

fun async_receive :: "packet_parser \<Rightarrow> bytes list \<Rightarrow> async_resolve \<Rightarrow> async_resolve" where
  "async_receive parse [] r = r"
| "async_receive parse (d # ds) r =
    async_receive parse ds
      (case parse_response parse d (ar_id_aaaa r) of
         Some x \<Rightarrow> r\<lparr>ar_aaaa := Some x\<rparr>
       | None \<Rightarrow>
           (case parse_response parse d (ar_id_a r) of
              Some x \<Rightarrow> r\<lparr>ar_a := Some x\<rparr>
            | None \<Rightarrow> r))"

definition async_finish :: "async_resolve \<Rightarrow> ip_addr list \<times> u32" where
  "async_finish r =
    (let (v6, t6) = (case ar_aaaa r of Some x \<Rightarrow> x | None \<Rightarrow> ([], 0));
         (v4, t4) = (case ar_a r of Some x \<Rightarrow> x | None \<Rightarrow> ([], 0));
         ttl = (if t6 = 0 \<and> t4 = 0 then DEFAULT_TTL else if t4 = 0 then t6 else if t6 = 0 then t4 else min t6 t4)
     in (v6 @ v4, max ttl MIN_TTL))"

definition on_readable :: "packet_parser \<Rightarrow> bytes list \<Rightarrow> async_resolve
    \<Rightarrow> async_resolve \<times> (ip_addr list \<times> u32) option" where
  "on_readable parse ds r =
    (let r = async_receive parse ds r in
     (r, if ar_aaaa r \<noteq> None \<and> ar_a r \<noteq> None then Some (async_finish r) else None))"

definition on_timeout :: "instant \<Rightarrow> async_resolve \<Rightarrow> async_resolve \<times> bytes list \<times> bootstrap_error option" where
  "on_timeout now r =
    (if ar_attempts r \<ge> ATTEMPTS then (r, [], Some BsIo)
     else (r\<lparr>ar_attempts := ar_attempts r + 1, ar_deadline := now + QUERY_TIMEOUT\<rparr>, [ar_q_aaaa r, ar_q_a r], None))"

section \<open>Completion of the refresh\<close>

definition answers :: "packet_parser \<Rightarrow> u16 \<Rightarrow> bytes list \<Rightarrow> bool" where
  "answers parse qid ds \<longleftrightarrow> list_ex (\<lambda>d. parse_response parse d qid \<noteq> None) ds"

definition last_answer :: "packet_parser \<Rightarrow> u16 \<Rightarrow> bytes list \<Rightarrow> (ip_addr list \<times> u32) option" where
  "last_answer parse qid ds = fold (\<lambda>d x. case parse_response parse d qid of None \<Rightarrow> x | y \<Rightarrow> y) ds None"

lemma parse_response_id:
  "parse_response parse d i = Some x \<Longrightarrow> i \<noteq> j \<Longrightarrow> parse_response parse d j = None"
  by (auto simp: parse_response_def split: option.splits if_splits prod.splits)

lemma async_receive_ids [simp]:
  "ar_id_aaaa (async_receive parse ds r) = ar_id_aaaa r" "ar_id_a (async_receive parse ds r) = ar_id_a r"
  by (induction ds arbitrary: r) (simp_all split: option.split)

text \<open>With distinct IDs the two answers are collected independently, the last of each kind winning.\<close>

lemma async_receive_answers:
  assumes "ar_id_aaaa r \<noteq> ar_id_a r"
  shows "ar_aaaa (async_receive parse ds r) =
      fold (\<lambda>d x. case parse_response parse d (ar_id_aaaa r) of None \<Rightarrow> x | y \<Rightarrow> y) ds (ar_aaaa r)
    \<and> ar_a (async_receive parse ds r) =
      fold (\<lambda>d x. case parse_response parse d (ar_id_a r) of None \<Rightarrow> x | y \<Rightarrow> y) ds (ar_a r)"
  using assms
proof (induction ds arbitrary: r)
  case (Cons d ds)
  have "parse_response parse d (ar_id_a r) = None" if "parse_response parse d (ar_id_aaaa r) = Some x" for x
    using parse_response_id [OF that Cons.prems] .
  then show ?case using Cons by (auto split: option.split)
qed simp

lemma fold_answer_None:
  "fold (\<lambda>d x. case parse_response parse d i of None \<Rightarrow> x | y \<Rightarrow> y) ds x = None
    \<longleftrightarrow> x = None \<and> \<not> answers parse i ds"
  by (induction ds arbitrary: x) (auto simp: answers_def split: option.split)

lemma async_finish_bound: "MIN_TTL \<le> snd (async_finish r)"
  by (simp add: async_finish_def Let_def split: prod.splits option.splits)


text \<open>A packet reader for concrete runs: an ID in the first two bytes, then A records of a fixed TTL.\<close>

definition tiny_parse :: packet_parser where
  "tiny_parse d =
    (case d of
       hi # lo # rest \<Rightarrow> Some \<lparr>pk_id = u16_from_be hi lo, pk_answers = map (\<lambda>b. (RA (ucast b), 60)) rest\<rparr>
     | _ \<Rightarrow> None)"


text \<open>
  The two IDs are drawn independently and may collide (the second is a random ID plus one); then every
  answer is taken for the AAAA question and the refresh can never complete, whatever the server sends.
\<close>

lemma refresh_id_collision:
  assumes "ar_id_a r = ar_id_aaaa r" "ar_a r = None"
  shows "snd (on_readable parse ds r) = None"
proof -
  have "ar_a (async_receive parse ds r) = None"
    using assms by (induction ds arbitrary: r) (auto split: option.split)
  then show ?thesis by (simp add: on_readable_def Let_def)
qed

lemma refresh_id_collision_witness:
  "rand_id 0x00010004 = rand_id 0x00010005 + 1
   \<and> (case async_start (\<lambda>h q i. Some [ucast i]) ''h'' 0x00010004 0x00010005 True 0 of
        Inr (r, _) \<Rightarrow> snd (on_readable tiny_parse [[0, 5], [0, 5, 7]] r) = None | Inl _ \<Rightarrow> False)"
proof -
  have id: "rand_id 0x00010004 = rand_id 0x00010005 + 1" by (simp add: rand_id_def)
  show ?thesis using id refresh_id_collision by (simp add: async_start_def Let_def)
qed

end
