(* ===== verification/Assoc.thy ===== *)
theory Assoc
  imports "HOL-Library.AList" "HOL-Library.Multiset"
begin

text \<open>
  Association lists as the model of hash maps: their entries as a multiset under insertion and removal. The
  order of the entries stands for the unspecified iteration order of the map.
\<close>

lemma alist_update_new: "k \<notin> fst ` set al \<Longrightarrow> AList.update k v al = al @ [(k, v)]"
  by (induction al) auto

lemma alist_delete_mset:
  assumes "distinct (map fst al)" "map_of al k = Some v"
  shows "mset al = add_mset (k, v) (mset (AList.delete k al))"
  using assms
proof (induction al)
  case (Cons x al)
  show ?case
  proof (cases "fst x = k")
    case True
    with Cons.prems have "AList.delete k (x # al) = al"
      by (cases x) (auto simp: AList.delete_eq filter_id_conv image_iff)
    with True Cons.prems show ?thesis by (cases x) auto
  next
    case False
    with Cons show ?thesis by (cases x) (auto simp: add_mset_commute)
  qed
qed simp

lemma alist_delete_keys: "distinct (map fst al) \<Longrightarrow> distinct (map fst (AList.delete k al))"
  by (rule distinct_delete)

lemma alist_delete_subset: "set (AList.delete k al) \<subseteq> set al"
  by (auto simp: AList.delete_eq)

lemma alist_update_mset:
  assumes "distinct (map fst al)"
  shows "mset (AList.update k v al) =
    add_mset (k, v) (case map_of al k of None \<Rightarrow> mset al | Some old \<Rightarrow> mset al - {#(k, old)#})"
  using assms
proof (induction al)
  case (Cons x al)
  obtain j u where x: "x = (j, u)" by (cases x)
  show ?case
  proof (cases "j = k \<or> map_of al k = None")
    case False
    then obtain old where old: "map_of al k = Some old" "j \<noteq> k" by auto
    then have "(k, old) \<in># mset al" by (auto dest: map_of_SomeD)
    with old Cons x show ?thesis by (simp add: add_mset_commute multi_drop_mem_not_eq)
  qed (use Cons x in auto)
qed simp

end
