(* ===== verification/Supervisor.thy ===== *)
theory Supervisor
  imports Weights Bootstrap Assoc
begin

text \<open>
  The supervisor process of \<^verbatim>\<open>src/pkgs/microdoh3/src/main.rs\<close>: prefork, restart with backoff, reaping,
  shutdown, the non-blocking refresh of the upstream addresses and the publication of weights. One pass of
  the supervise loop is \<open>supervise_step\<close>; everything it takes from the operating system (clock
  readings, results of \<open>fork\<close> and \<open>waitpid\<close>, the shutdown flag, datagrams, the scores page) is its input
  record. The two hash maps are association lists; the order in which the code iterates over
  \<open>pending_restarts\<close> is the order of the list.
\<close>

record child =
  c_cpu :: u32
  c_idx :: usize
  c_started :: instant
  c_fails :: u32

record restart =
  rt_idx :: usize
  rt_at :: instant
  rt_fails :: u32

type_synonym pid = int
type_synonym children = "(pid \<times> child) list"
type_synonym restarts = "(u32 \<times> restart) list"

section \<open>Restarts\<close>

definition backoff_delay :: "u32 \<Rightarrow> duration" where
  "backoff_delay fails = (if fails = 0 then 0 else from_secs (2 ^ unat (min fails 5)))"

definition schedule_child_exit ::
  "pid \<Rightarrow> bool \<Rightarrow> instant \<Rightarrow> instant \<Rightarrow> children \<times> restarts \<Rightarrow> children \<times> restarts" where
  "schedule_child_exit pid shutdown t1 t2 = (\<lambda>(children, pending_restarts).
     case map_of children pid of
       None \<Rightarrow> (children, pending_restarts)
     | Some c \<Rightarrow>
         let children = AList.delete pid children in
         if shutdown then (children, pending_restarts)
         else
           let lived = saturating_duration_since t1 (c_started c);
               fails = (if lived < from_secs 10 then c_fails c + 1 else 0);
               delay = backoff_delay fails
           in (children,
               AList.update (c_cpu c) \<lparr>rt_idx = c_idx c, rt_at = t2 + delay, rt_fails = fails\<rparr> pending_restarts))"

datatype fork_result = Forked pid | ForkErr

definition spawn_worker :: "u32 \<Rightarrow> usize \<Rightarrow> u32 \<Rightarrow> fork_result \<times> instant \<Rightarrow> children \<Rightarrow> children" where
  "spawn_worker cpu child_idx fails fork children =
    (case fork of
       (Forked pid, t) \<Rightarrow>
         AList.update pid \<lparr>c_cpu = cpu, c_idx = child_idx, c_started = t, c_fails = fails\<rparr> children
     | (ForkErr, _) \<Rightarrow> children)"

definition due :: "instant \<Rightarrow> restarts \<Rightarrow> u32 list" where
  "due now pending_restarts = map fst (filter (\<lambda>(_, r). rt_at r \<le> now) pending_restarts)"

text \<open>Step 0: the due workers are spawned; \<open>forks k\<close> is what the \<open>k\<close>-th fork of the pass returns.\<close>

fun spawn_due :: "(nat \<Rightarrow> fork_result \<times> instant) \<Rightarrow> nat \<Rightarrow> u32 list \<Rightarrow> children \<times> restarts \<Rightarrow> children \<times> restarts" where
  "spawn_due forks k [] st = st"
| "spawn_due forks k (cpu # cpus) (children, pending_restarts) =
    (case map_of pending_restarts cpu of
       None \<Rightarrow> spawn_due forks k cpus (children, pending_restarts)
     | Some r \<Rightarrow>
         spawn_due forks (k + 1) cpus
           (spawn_worker cpu (rt_idx r) (rt_fails r) (forks k) children, AList.delete cpu pending_restarts))"

text \<open>Step 1: \<open>waitpid\<close> until it reports nothing; an interrupted call is repeated.\<close>

datatype wait = Exited pid | Signaled pid | WaitIntr | WaitNothing

fun reap :: "(wait \<times> bool \<times> instant \<times> instant) list \<Rightarrow> children \<times> restarts \<Rightarrow> children \<times> restarts" where
  "reap [] st = st"
| "reap ((w, shutdown, t1, t2) # ws) st =
    (case w of
       Exited pid \<Rightarrow> reap ws (schedule_child_exit pid shutdown t1 t2 st)
     | Signaled pid \<Rightarrow> reap ws (schedule_child_exit pid shutdown t1 t2 st)
     | WaitIntr \<Rightarrow> reap ws st
     | WaitNothing \<Rightarrow> st)"

section \<open>The supervise loop\<close>

definition RETRY_INTERVAL :: duration where "RETRY_INTERVAL = from_secs 60"
definition WEIGHT_INTERVAL :: duration where "WEIGHT_INTERVAL = from_secs 2"
definition SCORE_STALE_SECS :: u64 where "SCORE_STALE_SECS = 30"

record sup_config =
  cf_host :: string
  cf_prefer_ipv4 :: bool
  cf_cpus :: "u32 list"
  cf_build :: packet_builder
  cf_parse :: packet_parser

record sup_state =
  sp_children :: children
  sp_restarts :: restarts
  sp_candidates :: "ip_addr list"
  sp_published :: "(ip_addr \<times> u32) list"
  sp_shared :: shared_resolve
  sp_next_refresh :: instant
  sp_pending :: "async_resolve option"
  sp_readable :: bool
  sp_next_weights :: instant

record sup_input =
  in_now0 :: instant
  in_forks :: "nat \<Rightarrow> fork_result \<times> instant"
  in_waits :: "(wait \<times> bool \<times> instant \<times> instant) list"
  in_shutdown :: bool
  in_now :: instant
  in_nanos1 :: u32
  in_nanos2 :: u32
  in_bind_ok :: bool
  in_datagrams :: "bytes list"
  in_scores :: shared_scores
  in_mono_secs :: u64
  in_mono1 :: u64
  in_mono2 :: u64
  in_pub_now :: instant
  in_poll :: bool

definition start_refresh :: "sup_config \<Rightarrow> sup_input \<Rightarrow> sup_state \<Rightarrow> sup_state" where
  "start_refresh cf inp st =
    (if sp_pending st = None \<and> in_now inp \<ge> sp_next_refresh st then
       (case async_start (cf_build cf) (cf_host cf) (in_nanos1 inp) (in_nanos2 inp) (in_bind_ok inp) (in_now inp) of
          Inr (r, _) \<Rightarrow> st\<lparr>sp_pending := Some r\<rparr>
        | Inl _ \<Rightarrow> st\<lparr>sp_next_refresh := in_now inp + RETRY_INTERVAL\<rparr>)
     else st)"

definition read_refresh :: "sup_config \<Rightarrow> sup_input \<Rightarrow> sup_state \<Rightarrow> sup_state" where
  "read_refresh cf inp st =
    (case sp_pending st of
       None \<Rightarrow> st
     | Some r \<Rightarrow>
         if sp_readable st then
           (case on_readable (cf_parse cf) (in_datagrams inp) r of
              (_, Some (ips, ttl)) \<Rightarrow>
                st\<lparr>sp_candidates := update_candidates (sp_candidates st) ips (cf_prefer_ipv4 cf),
                   sp_next_refresh := in_now inp + from_secs (unat ttl), sp_pending := None\<rparr>
            | (r', None) \<Rightarrow> st\<lparr>sp_pending := Some r'\<rparr>)
         else st)"

definition time_refresh :: "sup_input \<Rightarrow> sup_state \<Rightarrow> sup_state" where
  "time_refresh inp st =
    (case sp_pending st of
       None \<Rightarrow> st
     | Some r \<Rightarrow>
         if in_now inp \<ge> ar_deadline r then
           (case on_timeout (in_now inp) r of
              (_, _, Some e) \<Rightarrow> st\<lparr>sp_next_refresh := in_now inp + RETRY_INTERVAL, sp_pending := None\<rparr>
            | (r', _, None) \<Rightarrow> st\<lparr>sp_pending := Some r'\<rparr>)
         else st)"

text \<open>A sample counts when it was written and is not stale; the subtraction saturates.\<close>

definition fresh_sample :: "u64 \<Rightarrow> score_sample option \<Rightarrow> score_sample option" where
  "fresh_sample now_secs s =
    (case s of
       None \<Rightarrow> None
     | Some x \<Rightarrow>
         if sm_updated x \<noteq> 0 \<and> (if sm_updated x \<le> now_secs then now_secs - sm_updated x else 0) \<le> SCORE_STALE_SECS
         then Some x else None)"

definition publication_of :: "sup_config \<Rightarrow> (ip_addr \<times> u32) list \<Rightarrow> sup_input \<Rightarrow> instant \<Rightarrow> publication" where
  "publication_of cf fresh inp expires_at =
    \<lparr>pb_addrs = map fst fresh, pb_weights = map snd fresh, pb_workers = length (cf_cpus cf),
     pb_now1 = in_mono1 inp, pb_now2 = in_mono2 inp,
     pb_ttl = of_int (saturating_duration_since expires_at (in_pub_now inp) div 1000000000)\<rparr>"

definition publish_weights :: "sup_config \<Rightarrow> sup_input \<Rightarrow> sup_state \<Rightarrow> sup_state" where
  "publish_weights cf inp st =
    (if in_now inp \<ge> sp_next_weights st then
       let st = st\<lparr>sp_next_weights := in_now inp + WEIGHT_INTERVAL\<rparr>;
           samples = map (\<lambda>i. fresh_sample (in_mono_secs inp) (score_read (in_scores inp) i)) [0..<length (cf_cpus cf)];
           fresh = compute_weights (sp_candidates st) samples (length (cf_cpus cf))
       in if fresh \<noteq> sp_published st then
            st\<lparr>sp_shared := publish (publication_of cf fresh inp (in_now inp + from_secs 60)) (sp_shared st),
               sp_published := fresh\<rparr>
          else st
     else st)"

definition clamp_ms :: "duration \<Rightarrow> int" where
  "clamp_ms d = max 1 (min 1000 (d div 1000000))"

definition poll_timeout :: "instant \<Rightarrow> sup_state \<Rightarrow> int" where
  "poll_timeout now st =
    (let t = 1000;
         t = (case sp_pending st of
                None \<Rightarrow> t | Some r \<Rightarrow> min t (clamp_ms (saturating_duration_since (ar_deadline r) now)))
     in case map (rt_at \<circ> snd) (sp_restarts st) of
          [] \<Rightarrow> t
        | x # xs \<Rightarrow> min t (clamp_ms (saturating_duration_since (fold min xs x) now)))"

text \<open>
  One pass: \<^term>\<open>Inl\<close> with the signals sent when the loop breaks after a shutdown request (every child
  first asked to terminate, then killed), otherwise the next state and the poll timeout in milliseconds.
\<close>

datatype sup_signal = SIGTERM | SIGKILL

definition terminate_children :: "children \<Rightarrow> (pid \<times> sup_signal) list" where
  "terminate_children children =
    (if children = [] then []
     else map (\<lambda>(pid, _). (pid, SIGTERM)) children @ map (\<lambda>(pid, _). (pid, SIGKILL)) children)"

definition supervise_step :: "sup_config \<Rightarrow> sup_input \<Rightarrow> sup_state
    \<Rightarrow> (pid \<times> sup_signal) list + sup_state \<times> int" where
  "supervise_step cf inp st =
    (let (children, restarts) = spawn_due (in_forks inp) 0 (due (in_now0 inp) (sp_restarts st)) (sp_children st, sp_restarts st);
         (children, restarts) = reap (in_waits inp) (children, restarts);
         st = st\<lparr>sp_children := children, sp_restarts := restarts\<rparr>
     in if in_shutdown inp then Inl (terminate_children children)
        else
          let st = start_refresh cf inp st;
              st = read_refresh cf inp st;
              st = time_refresh inp st;
              st = publish_weights cf inp st;
              timeout = poll_timeout (in_now inp) st;
              st = st\<lparr>sp_readable := (if sp_pending st = None then False else in_poll inp)\<rparr>
          in Inr (st, timeout))"

text \<open>The state when the loop starts: the first publication with equal weights, then the prefork.\<close>

fun prefork :: "(nat \<Rightarrow> fork_result \<times> instant) \<Rightarrow> nat \<Rightarrow> u32 list \<Rightarrow> children \<Rightarrow> children" where
  "prefork forks idx [] children = children"
| "prefork forks idx (cpu # cpus) children =
    prefork forks (idx + 1) cpus (spawn_worker cpu idx 0 (forks idx) children)"

definition sup_init :: "sup_config \<Rightarrow> sup_input \<Rightarrow> resolve_state \<Rightarrow> sock_addr list \<Rightarrow> sup_state" where
  "sup_init cf inp rs remotes =
    (let candidates = update_candidates [] (map sa_ip remotes) (cf_prefer_ipv4 cf);
         published = map (\<lambda>a. (a, 1)) candidates
     in \<lparr>sp_children = prefork (in_forks inp) 0 (cf_cpus cf) [], sp_restarts = [],
         sp_candidates = candidates, sp_published = published,
         sp_shared = publish (publication_of cf published inp (rs_expires_at rs)) resolve_create,
         sp_next_refresh = rs_expires_at rs, sp_pending = None, sp_readable = False,
         sp_next_weights = in_now inp + WEIGHT_INTERVAL\<rparr>)"

section \<open>No worker is lost\<close>

text \<open>The workers the supervisor accounts for, running or waiting for a restart.\<close>

definition workers_of :: "children \<times> restarts \<Rightarrow> (u32 \<times> usize) list" where
  "workers_of = (\<lambda>(children, restarts).
     map (\<lambda>(_, c). (c_cpu c, c_idx c)) children @ map (\<lambda>(cpu, r). (cpu, rt_idx r)) restarts)"

definition accounted :: "children \<times> restarts \<Rightarrow> bool" where
  "accounted st \<longleftrightarrow> distinct (map fst (fst st)) \<and> distinct (map fst (snd st)) \<and> distinct (map fst (workers_of st))"

lemma workers_delete_child:
  assumes "accounted (ch, rs)" "map_of ch pid = Some c"
  shows "mset (workers_of (ch, rs)) = add_mset (c_cpu c, c_idx c) (mset (workers_of (AList.delete pid ch, rs)))"
proof -
  have "mset ch = add_mset (pid, c) (mset (AList.delete pid ch))"
    using assms by (intro alist_delete_mset) (simp_all add: accounted_def)
  then show ?thesis by (simp add: workers_of_def)
qed

lemma workers_delete_restart:
  assumes "accounted (ch, rs)" "map_of rs cpu = Some r"
  shows "mset (workers_of (ch, rs)) = add_mset (cpu, rt_idx r) (mset (workers_of (ch, AList.delete cpu rs)))"
proof -
  have "mset rs = add_mset (cpu, r) (mset (AList.delete cpu rs))"
    using assms by (intro alist_delete_mset) (simp_all add: accounted_def)
  then show ?thesis by (simp add: workers_of_def)
qed

lemma distinct_workers_iff:
  "mset (workers_of st) = mset ws \<Longrightarrow> distinct (map fst (workers_of st)) \<longleftrightarrow> distinct (map fst ws)"
  by (metis distinct_count_atmost_1 mset_eq_imp_distinct_iff mset_map)

text \<open>A death moves a worker to the restarts, a successful fork moves it back.\<close>

lemma schedule_conserves:
  assumes "accounted st"
  shows "accounted (schedule_child_exit pid False t1 t2 st)
    \<and> mset (workers_of (schedule_child_exit pid False t1 t2 st)) = mset (workers_of st)"
proof -
  obtain ch rs where st: "st = (ch, rs)" by (cases st)
  show ?thesis
  proof (cases "map_of ch pid")
    case None
    then show ?thesis using assms by (simp add: st schedule_child_exit_def)
  next
    case (Some c)
    note del = workers_delete_child [OF assms [unfolded st] Some]
    have "distinct (map fst ((c_cpu c, c_idx c) # workers_of (AList.delete pid ch, rs)))"
      using assms del distinct_workers_iff [of st "(c_cpu c, c_idx c) # workers_of (AList.delete pid ch, rs)"]
      by (simp add: st accounted_def)
    then have new: "c_cpu c \<notin> fst ` set rs"
      by (force simp: workers_of_def)
    let ?r = "\<lambda>fails. \<lparr>rt_idx = c_idx c, rt_at = t2 + backoff_delay fails, rt_fails = fails\<rparr>"
    have eq: "schedule_child_exit pid False t1 t2 st = (AList.delete pid ch, rs @ [(c_cpu c, ?r (if saturating_duration_since t1 (c_started c) < from_secs 10 then c_fails c + 1 else 0))])"
      using Some new by (simp add: st schedule_child_exit_def alist_update_new Let_def)
    have ms: "mset (workers_of (schedule_child_exit pid False t1 t2 st)) = mset (workers_of st)"
      unfolding eq using del by (simp add: st workers_of_def)
    then have "distinct (map fst (workers_of (schedule_child_exit pid False t1 t2 st)))"
      using assms distinct_workers_iff [of "schedule_child_exit pid False t1 t2 st" "workers_of st"]
      by (simp add: accounted_def)
    moreover have "distinct (map fst (AList.delete pid ch))"
      using assms by (intro alist_delete_keys) (simp add: st accounted_def)
    ultimately show ?thesis
      using ms assms new unfolding accounted_def eq by (simp add: st)
  qed
qed

lemma reap_conserves:
  assumes "accounted st" "list_all (\<lambda>(w, shutdown, t1, t2). \<not> shutdown) ws"
  shows "accounted (reap ws st) \<and> mset (workers_of (reap ws st)) = mset (workers_of st)"
  using assms
proof (induction ws arbitrary: st)
  case (Cons x ws)
  obtain w t1 t2 where x: "x = (w, False, t1, t2)" using Cons.prems(2) by (cases x) auto
  have IH: "accounted (reap ws st') \<and> mset (workers_of (reap ws st')) = mset (workers_of st')" if "accounted st'" for st'
    using Cons.IH [OF that] Cons.prems(2) by simp
  show ?case
    using IH [of st] IH schedule_conserves [OF Cons.prems(1)] Cons.prems(1) by (cases w) (auto simp: x)
qed simp

definition fresh_forks :: "children \<Rightarrow> (nat \<Rightarrow> fork_result \<times> instant) \<Rightarrow> nat \<Rightarrow> bool" where
  "fresh_forks ch forks k \<longleftrightarrow> (\<forall>i \<ge> k. \<exists>pid t. forks i = (Forked pid, t) \<and> pid \<notin> fst ` set ch)
     \<and> (\<forall>i j. k \<le> i \<and> i < j \<longrightarrow> fst (forks i) \<noteq> fst (forks j))"

lemma fresh_forks_Suc:
  assumes "fresh_forks ch forks k" "forks k = (Forked pid, t)"
  shows "fresh_forks (ch @ [(pid, c)]) forks (k + 1)"
  unfolding fresh_forks_def
proof (intro conjI allI impI)
  fix i assume i: "k + 1 \<le> i"
  then obtain pid' t' where "forks i = (Forked pid', t')" "pid' \<notin> fst ` set ch"
    using assms(1) by (meson add_leD1 fresh_forks_def)
  moreover have "fst (forks k) \<noteq> fst (forks i)" using assms(1) i by (simp add: fresh_forks_def)
  ultimately show "\<exists>pid' t. forks i = (Forked pid', t) \<and> pid' \<notin> fst ` set (ch @ [(pid, c)])"
    using assms(2) by auto
next
  fix i j assume "k + 1 \<le> i \<and> i < j"
  then show "fst (forks i) \<noteq> fst (forks j)" using assms(1) by (simp add: fresh_forks_def)
qed

lemma spawn_due_conserves:
  assumes "accounted (ch, rs)" "fresh_forks ch forks k"
  shows "accounted (spawn_due forks k cpus (ch, rs))
    \<and> mset (workers_of (spawn_due forks k cpus (ch, rs))) = mset (workers_of (ch, rs))"
  using assms
proof (induction cpus arbitrary: k ch rs)
  case (Cons cpu cpus)
  show ?case
  proof (cases "map_of rs cpu")
    case None
    then show ?thesis using Cons by simp
  next
    case (Some r)
    obtain pid t where f: "forks k = (Forked pid, t)" "pid \<notin> fst ` set ch"
      using Cons.prems(2) by (auto simp: fresh_forks_def)
    let ?c = "\<lparr>c_cpu = cpu, c_idx = rt_idx r, c_started = t, c_fails = rt_fails r\<rparr>"
    let ?ch = "ch @ [(pid, ?c)]" and ?rs = "AList.delete cpu rs"
    have sp: "spawn_worker cpu (rt_idx r) (rt_fails r) (forks k) ch = ?ch"
      using f by (simp add: spawn_worker_def alist_update_new)
    have ms: "mset (workers_of (?ch, ?rs)) = mset (workers_of (ch, rs))"
      using workers_delete_restart [OF Cons.prems(1) Some] by (simp add: workers_of_def)
    have acc: "accounted (?ch, ?rs)"
      using Cons.prems(1) f(2) distinct_workers_iff [OF ms] alist_delete_keys [of rs cpu] by (simp add: accounted_def)
    have "fresh_forks ?ch forks (k + 1)" by (rule fresh_forks_Suc [OF Cons.prems(2) f(1)])
    from Cons.IH [OF acc this] ms Some sp show ?thesis by simp
  qed
qed simp

section \<open>Reachable supervisor states\<close>

lemma resolve_upstream_nonempty:
  assumes "resolve_upstream build parse host port ex_aaaa ex_a now = Inr (rs, remotes)"
  shows "remotes \<noteq> []"
proof -
  have "resolve build parse host ex_aaaa ex_a now = Inr rs"
    using assms by (cases "resolve build parse host ex_aaaa ex_a now") (auto simp: resolve_upstream_def Let_def)
  then have "rs_addrs rs \<noteq> []"
    by (auto simp: resolve_def Let_def split: option.splits prod.splits if_splits)
  moreover have "length remotes = length (rs_addrs rs)"
    using assms sum_length_filter_compl [of is_ipv6 "rs_addrs rs"]
    by (cases "resolve build parse host ex_aaaa ex_a now") (auto simp: resolve_upstream_def Let_def)
  ultimately show ?thesis by auto
qed

text \<open>
  The supervisor starts from a successful first resolution and makes passes; \<open>env\<close> says what the operating
  system may do in a pass, given the running children.
\<close>

inductive sup_reach :: "sup_config \<Rightarrow> (children \<Rightarrow> sup_input \<Rightarrow> bool) \<Rightarrow> sup_state \<Rightarrow> bool"
  for cf env where
  started: "resolve_upstream (cf_build cf) (cf_parse cf) (cf_host cf) port ex_aaaa ex_a now = Inr (rs, remotes) \<Longrightarrow>
    env [] inp \<Longrightarrow> sup_reach cf env (sup_init cf inp rs remotes)"
| pass: "sup_reach cf env st \<Longrightarrow> env (sp_children st) inp \<Longrightarrow> supervise_step cf inp st = Inr (st', timeout) \<Longrightarrow>
    sup_reach cf env st'"

definition calm :: "children \<Rightarrow> sup_input \<Rightarrow> bool" where
  "calm ch inp \<longleftrightarrow> fresh_forks ch (in_forks inp) 0 \<and> list_all (\<lambda>(w, shutdown, t1, t2). \<not> shutdown) (in_waits inp)"

lemma refresh_keeps_workers [simp]:
  "sp_children (start_refresh cf inp st) = sp_children st" "sp_restarts (start_refresh cf inp st) = sp_restarts st"
  "sp_children (read_refresh cf inp st) = sp_children st" "sp_restarts (read_refresh cf inp st) = sp_restarts st"
  "sp_children (time_refresh inp st) = sp_children st" "sp_restarts (time_refresh inp st) = sp_restarts st"
  "sp_children (publish_weights cf inp st) = sp_children st" "sp_restarts (publish_weights cf inp st) = sp_restarts st"
  by (simp_all add: start_refresh_def read_refresh_def time_refresh_def publish_weights_def Let_def
      split: option.split sum.split prod.split)

lemma step_workers:
  assumes "supervise_step cf inp st = Inr (st', t)"
  shows "(sp_children st', sp_restarts st') =
    reap (in_waits inp) (spawn_due (in_forks inp) 0 (due (in_now0 inp) (sp_restarts st)) (sp_children st, sp_restarts st))"
  using assms by (auto simp: supervise_step_def Let_def split: prod.splits if_splits)

lemma step_conserves:
  assumes "accounted (sp_children st, sp_restarts st)" "calm (sp_children st) inp"
    "supervise_step cf inp st = Inr (st', t)"
  shows "accounted (sp_children st', sp_restarts st')
    \<and> mset (workers_of (sp_children st', sp_restarts st')) = mset (workers_of (sp_children st, sp_restarts st))"
proof -
  let ?sp = "spawn_due (in_forks inp) 0 (due (in_now0 inp) (sp_restarts st)) (sp_children st, sp_restarts st)"
  have sp: "accounted ?sp" "mset (workers_of ?sp) = mset (workers_of (sp_children st, sp_restarts st))"
    using spawn_due_conserves [OF assms(1), of "in_forks inp" 0] assms(2) by (simp_all add: calm_def)
  show ?thesis
    using reap_conserves [OF sp(1), of "in_waits inp"] sp(2) assms(2)
    unfolding step_workers [OF assms(3)] by (simp add: calm_def)
qed

lemma prefork_workers:
  assumes "fresh_forks ch forks k" "distinct (map fst ch)"
  shows "map (\<lambda>(_, c). (c_cpu c, c_idx c)) (prefork forks k cpus ch)
      = map (\<lambda>(_, c). (c_cpu c, c_idx c)) ch @ zip cpus [k..<k + length cpus]
    \<and> distinct (map fst (prefork forks k cpus ch))"
  using assms
proof (induction cpus arbitrary: k ch)
  case (Cons cpu cpus)
  obtain pid t where f: "forks k = (Forked pid, t)" "pid \<notin> fst ` set ch"
    using Cons.prems(1) by (auto simp: fresh_forks_def)
  let ?ch = "ch @ [(pid, \<lparr>c_cpu = cpu, c_idx = k, c_started = t, c_fails = 0\<rparr>)]"
  have sp: "spawn_worker cpu k 0 (forks k) ch = ?ch" using f by (simp add: spawn_worker_def alist_update_new)
  have "fresh_forks ?ch forks (k + 1)" by (rule fresh_forks_Suc [OF Cons.prems(1) f(1)])
  moreover have "distinct (map fst ?ch)" using Cons.prems(2) f(2) by simp
  moreover have "[k..<k + length (cpu # cpus)] = k # [k + 1..<(k + 1) + length cpus]"
    by (simp add: upt_conv_Cons del: upt_Suc)
  ultimately show ?case using Cons.IH [of ?ch "k + 1"] sp by (simp del: upt_Suc)
qed simp


lemma parse_ip_text: "parse_ip (ipv4_text a) = Some (V4 a)"
  using read_ipv4_text [of "[]" a] by (simp add: parse_ip_def no_digit_def)

lemma literal_host: "as_bytes ''8.8.8.8'' = ipv4_text 0x08080808"
  by (simp add: ipv4_text_def octets_def upt_rec dec_byte_def digit_def as_bytes_def)

text \<open>A concrete supervisor: two workers, an upstream given as an address, forks with increasing IDs.\<close>

definition demo_config :: sup_config where
  "demo_config = \<lparr>cf_host = ''8.8.8.8'', cf_prefer_ipv4 = False, cf_cpus = [0, 2],
     cf_build = (\<lambda>h q i. None), cf_parse = (\<lambda>b. None)\<rparr>"

definition demo_input :: "pid \<Rightarrow> (wait \<times> bool \<times> instant \<times> instant) list \<Rightarrow> sup_input" where
  "demo_input pid waits = \<lparr>in_now0 = 0, in_forks = (\<lambda>k. (Forked (pid + int k), 0)), in_waits = waits, in_shutdown = False,
     in_now = 0, in_nanos1 = 0, in_nanos2 = 0, in_bind_ok = True, in_datagrams = [], in_scores = scores_create,
     in_mono_secs = 1, in_mono1 = 1, in_mono2 = 1, in_pub_now = 0, in_poll = False\<rparr>"

lemma resolve_literal:
  "parse_ip (as_bytes host) = Some ip \<Longrightarrow>
    resolve_upstream build parse host port ex1 ex2 now
      = Inr (\<lparr>rs_addrs = [ip], rs_expires_at = now + from_secs (86400 * 365)\<rparr>, [\<lparr>sa_ip = ip, sa_port = port\<rparr>])"
  by (simp add: resolve_upstream_def resolve_def is_ipv6_def split: ip_addr.split)

lemma demo_calm: "calm ch (demo_input pid ws)"
  if "list_all (\<lambda>(w, shutdown, t1, t2). \<not> shutdown) ws" "\<forall>x \<in> fst ` set ch. x < pid"
  using that by (auto simp: calm_def fresh_forks_def demo_input_def)

lemma demo_started:
  "sup_reach demo_config env (sup_init demo_config (demo_input 100 [])
     \<lparr>rs_addrs = [V4 0x08080808], rs_expires_at = from_secs (86400 * 365)\<rparr> [\<lparr>sa_ip = V4 0x08080808, sa_port = 443\<rparr>])"
  if "env [] (demo_input 100 [])"
  using that resolve_literal [of "''8.8.8.8''" "V4 0x08080808" _ _ 443 _ _ 0]
  by (intro started) (simp_all add: demo_config_def literal_host parse_ip_text)


text \<open>
  Two ways to lose a worker for good. A fork that fails when a restart is due drops the worker: it is
  neither running nor scheduled afterwards. And because restarts are keyed by CPU, two workers pinned to
  the same CPU (\<^verbatim>\<open>--cpus 0,0\<close>) that are both down leave a single restart.
\<close>

lemma workers_lost:
  "workers_of (spawn_due (\<lambda>k. (ForkErr, t)) 0 [0] ([], [(0, \<lparr>rt_idx = 0, rt_at = t, rt_fails = 0\<rparr>)])) = []
   \<and> workers_of (reap [(Exited 7, False, t, t), (Exited 8, False, t, t)]
       ([(7, \<lparr>c_cpu = 0, c_idx = 0, c_started = t, c_fails = 0\<rparr>), (8, \<lparr>c_cpu = 0, c_idx = 1, c_started = t, c_fails = 0\<rparr>)], []))
     = [(0, 1)]"
  by (simp add: workers_of_def spawn_worker_def schedule_child_exit_def Let_def)

section \<open>The page always carries the published set\<close>

definition page_agrees :: "sup_config \<Rightarrow> sup_state \<Rightarrow> bool" where
  "page_agrees cf st \<longleftrightarrow>
     page_ok (sr_page (sp_shared st))
     \<and> sp_candidates st \<noteq> [] \<and> length (sp_candidates st) \<le> MAX_ADDRS
     \<and> sp_published st \<noteq> [] \<and> length (sp_published st) \<le> MAX_ADDRS \<and> (\<forall>x \<in> set (sp_published st). 1 \<le> snd x)
     \<and> (let us = decode_page (sr_page (sp_shared st)) in
        us_addrs us = map fst (sp_published st) \<and> us_weights us = map snd (sp_published st)
        \<and> us_workers us = of_nat (length (cf_cpus cf)))"

lemma publish_agrees:
  assumes "page_ok (sr_page sh)" "length fresh \<le> MAX_ADDRS"
  shows "page_ok (sr_page (publish (publication_of cf fresh inp e) sh))
    \<and> us_addrs (decode_page (sr_page (publish (publication_of cf fresh inp e) sh))) = map fst fresh
    \<and> us_weights (decode_page (sr_page (publish (publication_of cf fresh inp e) sh))) = map snd fresh
    \<and> us_workers (decode_page (sr_page (publish (publication_of cf fresh inp e) sh))) = of_nat (length (cf_cpus cf))"
proof -
  have "map (weight_or (map snd fresh)) [0..<length fresh] = map snd fresh"
    by (rule nth_equalityI) (simp_all add: weight_or_def get_def)
  then show ?thesis
    using assms by (simp add: publish_def Let_def decode_publish page_ok_publish publication_of_def min_def)
qed

lemma refresh_agrees:
  assumes "page_agrees cf st"
  shows "page_agrees cf (start_refresh cf inp st)" "page_agrees cf (read_refresh cf inp st)"
    "page_agrees cf (time_refresh inp st)"
  using assms update_candidates_bound update_candidates_nonempty
  by (auto simp: page_agrees_def start_refresh_def read_refresh_def time_refresh_def
      split: option.split sum.split prod.split)

lemma weights_agree:
  assumes "page_agrees cf st"
  shows "page_agrees cf (publish_weights cf inp st)"
proof -
  have "length (compute_weights (sp_candidates st) s n) \<le> MAX_ADDRS"
      "compute_weights (sp_candidates st) s n \<noteq> []"
      "\<forall>x \<in> set (compute_weights (sp_candidates st) s n). 1 \<le> snd x" for s n
    using assms compute_weights_length [of "sp_candidates st" s n] compute_weights_positive [of _ _ "sp_candidates st" s n]
    by (auto simp: page_agrees_def)
  then show ?thesis
    using assms publish_agrees [of "sp_shared st"] by (auto simp: publish_weights_def page_agrees_def Let_def)
qed

lemma sup_agrees:
  assumes "sup_reach cf env st"
  shows "page_agrees cf st"
  using assms
proof (induction rule: sup_reach.induct)
  case (started port ex_aaaa ex_a now rs remotes inp)
  have "remotes \<noteq> []" using started.hyps(1) by (rule resolve_upstream_nonempty)
  moreover have "sort_key k xs = [] \<longleftrightarrow> xs = []" for k :: "ip_addr \<Rightarrow> bool" and xs
    by (metis length_0_conv length_sort)
  ultimately have "update_candidates [] (map sa_ip remotes) p \<noteq> []" for p
    by (simp add: update_candidates_def Let_def MAX_ADDRS_def)
  moreover have "length (update_candidates [] (map sa_ip remotes) p) \<le> MAX_ADDRS" for p
    by (rule update_candidates_bound) simp
  ultimately show ?case
    using publish_agrees [of resolve_create "map (\<lambda>a. (a, 1)) (update_candidates [] (map sa_ip remotes) (cf_prefer_ipv4 cf))"]
    by (simp add: page_agrees_def sup_init_def Let_def resolve_create_def page_ok_zero comp_def)
next
  case (pass st inp st' t)
  have "page_agrees cf (st\<lparr>sp_children := ch, sp_restarts := rs\<rparr>)" for ch rs
    using pass.IH by (simp add: page_agrees_def)
  then have "page_agrees cf (publish_weights cf inp (time_refresh inp (read_refresh cf inp (start_refresh cf inp
      (st\<lparr>sp_children := ch, sp_restarts := rs\<rparr>)))))" for ch rs
    by (intro weights_agree refresh_agrees)
  then have "page_agrees cf ((publish_weights cf inp (time_refresh inp (read_refresh cf inp (start_refresh cf inp
      (st\<lparr>sp_children := ch, sp_restarts := rs\<rparr>)))))\<lparr>sp_readable := b\<rparr>)" for ch rs b
    by (simp add: page_agrees_def)
  then show ?case
    using pass.hyps(3) by (auto simp: supervise_step_def Let_def split: prod.splits if_splits)
qed



text \<open>
  The supervisor stays responsive and restarts are paced: every pass waits between 1 and 1000 milliseconds,
  so deaths are noticed within a second; a worker that died is restarted at once when it had lived for ten
  seconds, and otherwise after a delay that doubles with each quick death from 2 up to 32 seconds.
\<close>

lemma supervise_pacing:
  "(case supervise_step cf inp st of Inl _ \<Rightarrow> in_shutdown inp | Inr (st', timeout) \<Rightarrow> 1 \<le> timeout \<and> timeout \<le> 1000)
   \<and> backoff_delay 0 = 0
   \<and> (\<forall>k < 5. backoff_delay (of_nat (k + 1)) = from_secs (2 ^ (k + 1)))
   \<and> (\<forall>fails. backoff_delay fails \<le> from_secs 32)
   \<and> (\<forall>pid c children restarts t1 t2. map_of children pid = Some c \<longrightarrow>
        map_option rt_at (map_of (snd (schedule_child_exit pid False t1 t2 (children, restarts))) (c_cpu c))
          = Some (t2 + (if t1 - c_started c < from_secs 10 then backoff_delay (c_fails c + 1) else 0)))"
proof (intro conjI)
  have clamp: "1 \<le> clamp_ms d \<and> clamp_ms d \<le> 1000" for d by (simp add: clamp_ms_def)
  have "1 \<le> poll_timeout now st' \<and> poll_timeout now st' \<le> 1000" for now st'
    using clamp by (simp add: poll_timeout_def Let_def min_le_iff_disj split: option.split list.split)
  then show "case supervise_step cf inp st of Inl _ \<Rightarrow> in_shutdown inp | Inr (st', timeout) \<Rightarrow> 1 \<le> timeout \<and> timeout \<le> 1000"
    by (simp add: supervise_step_def Let_def split: prod.split)
  show "\<forall>k < 5. backoff_delay (of_nat (k + 1)) = from_secs (2 ^ (k + 1))"
  proof (intro allI impI)
    fix k :: nat assume k: "k < 5"
    then have u: "unat (of_nat (k + 1) :: u32) = k + 1" by (subst unat_of_nat) simp
    with k have "min (of_nat (k + 1)) 5 = (of_nat (k + 1) :: u32)" by (simp only: min_def word_le_nat_alt) simp
    moreover have "(of_nat (k + 1) :: u32) \<noteq> 0" using u by (metis add_is_0 one_neq_zero unat_0)
    ultimately show "backoff_delay (of_nat (k + 1)) = from_secs (2 ^ (k + 1))"
      by (simp only: backoff_delay_def u if_False)
  qed
  show "\<forall>fails. backoff_delay fails \<le> from_secs 32"
  proof
    fix fails :: u32
    have "unat (min fails 5) \<le> 5" by (simp add: min_def word_le_nat_alt)
    then have "(2 :: nat) ^ unat (min fails 5) \<le> 2 ^ 5" by (rule power_increasing) simp
    then show "backoff_delay fails \<le> from_secs 32" by (simp add: backoff_delay_def)
  qed
  show "\<forall>pid c children restarts t1 t2. map_of children pid = Some c \<longrightarrow>
        map_option rt_at (map_of (snd (schedule_child_exit pid False t1 t2 (children, restarts))) (c_cpu c))
          = Some (t2 + (if t1 - c_started c < from_secs 10 then backoff_delay (c_fails c + 1) else 0))"
    by (auto simp: schedule_child_exit_def Let_def update_conv' saturating_duration_since_def from_secs_def
        backoff_delay_def)
qed (simp add: backoff_delay_def)

lemma supervise_pacing_witness:
  "backoff_delay 3 = from_secs 8 \<and> backoff_delay 1000 \<le> from_secs 32"
proof -
  have "\<forall>k < 5. backoff_delay (of_nat (k + 1)) = from_secs (2 ^ (k + 1))"
      "\<forall>fails. backoff_delay fails \<le> from_secs 32"
    using supervise_pacing by blast+
  from this(1) [rule_format, of 2] this(2) show ?thesis by simp
qed

end
