(* ===== verification/Url.thy ===== *)
theory Url
  imports Prelude "HOL-Library.Sublist"
begin

text \<open>
  \<^verbatim>\<open>src/pkgs/microdoh3/src/url.rs\<close>: the parser of the upstream URL. Strings are lists of bytes written as
  characters; every character the parser looks for is ASCII, so searching bytes is searching characters.
\<close>

record https_url =
  u_host :: string
  u_port :: u16
  u_path :: string
  u_authority :: string

datatype url_error = NotHttps | NoHost | BadPort | Unsupported

section \<open>String operations of the standard library\<close>

definition strip_prefix :: "string \<Rightarrow> string \<Rightarrow> string option" where
  "strip_prefix p s = (if prefix p s then Some (drop (length p) s) else None)"

definition find_char :: "char \<Rightarrow> string \<Rightarrow> usize option" where
  "find_char c s = position (\<lambda>x. x = c) s"

definition rsplit_once :: "char \<Rightarrow> string \<Rightarrow> (string \<times> string) option" where
  "rsplit_once c s =
    (case find_char c (rev s) of
       None \<Rightarrow> None
     | Some i \<Rightarrow> let k = length s - 1 - i in Some (take k s, drop (k + 1) s))"

function show_nat :: "nat \<Rightarrow> string" where
  "show_nat n = (if n < 10 then [char_of (48 + n)] else show_nat (n div 10) @ [char_of (48 + n mod 10)])"
  by pat_completeness auto
termination by (relation "measure id") auto

declare show_nat.simps [simp del]

section \<open>The parser\<close>

definition parse_port :: "string \<Rightarrow> (u16, url_error) result" where
  "parse_port ps = ok_or (parse_u16 (as_bytes ps)) BadPort"

definition split_host :: "string \<Rightarrow> (string \<times> u16, url_error) result" where
  "split_host authority =
    (case strip_prefix ''['' authority of
       Some a \<Rightarrow>
         bindE (ok_or (find_char CHR '']'' a) NoHost) (\<lambda>end.
           let h = take end a; tail = drop (end + 1) a in
           bindE (case strip_prefix '':'' tail of
                    Some ps \<Rightarrow> parse_port ps
                  | None \<Rightarrow> if tail = [] then Inr 443 else Inl BadPort)
             (\<lambda>p. Inr (h, p)))
     | None \<Rightarrow>
         (case rsplit_once CHR '':'' authority of
            Some (h, ps) \<Rightarrow> bindE (parse_port ps) (\<lambda>p. Inr (h, p))
          | None \<Rightarrow> Inr (authority, 443)))"

definition authority_out :: "string \<Rightarrow> u16 \<Rightarrow> string" where
  "authority_out host port =
    (if CHR '':'' \<in> set host then
       (if port = 443 then ''['' @ host @ '']'' else ''['' @ host @ '']:'' @ show_nat (unat port))
     else if port = 443 then host
     else host @ '':'' @ show_nat (unat port))"

definition url_parse :: "string \<Rightarrow> (https_url, url_error) result" where
  "url_parse s =
    bindE (ok_or (strip_prefix ''https://'' s) NotHttps) (\<lambda>rest.
      if CHR ''@'' \<in> set rest \<or> CHR ''#'' \<in> set rest then Inl Unsupported
      else
        let (authority, path) = (case find_char CHR ''/'' rest of
              Some i \<Rightarrow> (take i rest, drop i rest) | None \<Rightarrow> (rest, ''/''))
        in if authority = [] then Inl NoHost
           else
             bindE (split_host authority) (\<lambda>(host, port).
               if host = [] then Inl NoHost
               else Inr \<lparr>u_host = host, u_port = port, u_path = path, u_authority = authority_out host port\<rparr>))"

section \<open>Searching\<close>

lemma find_char_None: "find_char c s = None \<longleftrightarrow> c \<notin> set s"
  by (auto simp: find_char_def position_eq_None)

lemma find_char_append: "c \<notin> set a \<Longrightarrow> find_char c (a @ c # b) = Some (length a)"
  by (auto simp: find_char_def position_eq_Some nth_append)

lemma find_char_Some: "find_char c s = Some i \<Longrightarrow> c \<notin> set (take i s) \<and> i < length s \<and> s ! i = c"
  by (auto simp: find_char_def position_eq_Some in_set_conv_nth)

lemma rsplit_once_append:
  assumes "c \<notin> set b"
  shows "rsplit_once c (a @ c # b) = Some (a, b)"
proof -
  have "find_char c (rev (a @ c # b)) = Some (length b)"
    using find_char_append [of c "rev b" "rev a"] assms by simp
  then show ?thesis by (simp add: rsplit_once_def)
qed

lemma rsplit_once_None: "c \<notin> set s \<Longrightarrow> rsplit_once c s = None"
  using find_char_None [of c "rev s"] by (simp add: rsplit_once_def)

lemma rsplit_once_Some: "rsplit_once c s = Some (a, b) \<Longrightarrow> s = a @ c # b"
proof -
  assume r: "rsplit_once c s = Some (a, b)"
  then obtain i where i: "find_char c (rev s) = Some i" "a = take (length s - 1 - i) s" "b = drop (length s - 1 - i + 1) s"
    by (auto simp: rsplit_once_def Let_def split: option.splits)
  have "i < length s" "s ! (length s - 1 - i) = c"
    using find_char_Some [OF i(1)] rev_nth [of i s] by simp_all
  moreover from this(1) have "length s - 1 - i < length s" by simp
  ultimately show ?thesis using i(2,3) id_take_nth_drop [of "length s - 1 - i" s] by simp
qed

section \<open>Printing and parsing ports\<close>

lemma digits_val_snoc:
  "digits_val bound (bs @ [b]) acc =
    (case digits_val bound bs acc of None \<Rightarrow> None | Some v \<Rightarrow> digits_val bound [b] v)"
  by (induction bs arbitrary: acc) (simp_all add: Let_def)

lemma as_bytes_digit: "d < 10 \<Longrightarrow> as_bytes [char_of (48 + d :: nat)] = [of_nat (48 + d)]"
proof -
  assume d: "d < 10"
  have "(of_char (char_of (48 + d) :: char) :: u8) = of_nat (of_char (char_of (48 + d) :: char))"
    by (simp only: of_nat_of_char)
  also have "(of_char (char_of (48 + d) :: char) :: nat) = 48 + d" using d by simp
  finally show ?thesis by (simp add: as_bytes_def)
qed

lemma digit_step: "d < 10 \<Longrightarrow> acc * 10 + d < bound \<Longrightarrow> digits_val bound [of_nat (48 + d)] acc = Some (acc * 10 + d)"
proof -
  assume d: "d < 10" and b: "acc * 10 + d < bound"
  have "unat (of_nat (48 + d) :: u8) = 48 + d" using d by (subst unat_of_nat) simp
  then show ?thesis using d b by (simp add: word_le_nat_alt Let_def del: of_nat_add)
qed

lemma digits_val_show: "n < bound \<Longrightarrow> digits_val bound (as_bytes (show_nat n)) 0 = Some n"
proof (induction n rule: show_nat.induct)
  case (1 n)
  show ?case
  proof (cases "n < 10")
    case True
    then show ?thesis
      using digit_step [of n 0 bound] 1 by (subst show_nat.simps) (simp add: as_bytes_digit [simplified])
  next
    case False
    have "n div 10 < bound" using 1 by (meson div_le_dividend le_less_trans)
    then have IH: "digits_val bound (as_bytes (show_nat (n div 10))) 0 = Some (n div 10)" using 1 False by blast
    have "digits_val bound [of_nat (48 + n mod 10)] (n div 10) = Some n"
      using digit_step [of "n mod 10" "n div 10" bound] 1 by (simp del: of_nat_add)
    with IH False show ?thesis
      by (subst show_nat.simps) (simp add: digits_val_snoc as_bytes_digit del: of_nat_add)
  qed
qed

lemma show_nat_chars: "c \<in> set (show_nat n) \<Longrightarrow> \<exists>d < 10. c = char_of (48 + d :: nat)"
proof (induction n rule: show_nat.induct)
  case (1 n)
  then show ?case
    by (subst (asm) (2) show_nat.simps) (auto split: if_splits intro: exI [of _ "n mod 10"])
qed

lemma show_nat_nonempty: "show_nat n \<noteq> []"
  by (subst show_nat.simps) simp

lemma unat_43: "unat (x :: u8) = 48 + d \<Longrightarrow> x \<noteq> 43"
  by auto

lemma parse_port_show: "parse_port (show_nat (unat p)) = Inr p"
proof -
  have lt: "unat p < 65536" using unsigned_less [where 'a = nat, of p] by simp
  obtain c cs where s: "show_nat (unat p) = c # cs" using show_nat_nonempty by (cases "show_nat (unat p)") auto
  then obtain d where d: "d < 10" "c = char_of (48 + d :: nat)" using show_nat_chars [of c "unat p"] by auto
  have "as_bytes [c] = [of_nat (48 + d)]" unfolding d(2) by (rule as_bytes_digit [OF d(1)])
  moreover have "unat (of_nat (48 + d) :: u8) = 48 + d" using d(1) by (subst unat_of_nat) simp
  then have "(of_nat (48 + d) :: u8) \<noteq> 43" by (rule unat_43)
  ultimately have "parse_uint 65536 (as_bytes (show_nat (unat p))) = digits_val 65536 (as_bytes (show_nat (unat p))) 0"
    by (simp add: s parse_uint_def as_bytes_def)
  then show ?thesis using digits_val_show [OF lt] by (simp add: parse_port_def parse_u16_def)
qed

lemma show_nat_no: "c \<in> set (show_nat n) \<Longrightarrow> c \<noteq> CHR '':'' \<and> c \<noteq> CHR ''/'' \<and> c \<noteq> CHR ''@'' \<and> c \<noteq> CHR ''#'' \<and> c \<noteq> CHR '']''"
proof -
  assume "c \<in> set (show_nat n)"
  then obtain d where d: "d < 10" "c = char_of (48 + d :: nat)" using show_nat_chars by blast
  then have "(of_char c :: nat) = 48 + d" by simp
  with d(1) show ?thesis by auto
qed

section \<open>Canonical URLs\<close>

lemma strip_prefix_append [simp]: "strip_prefix p (p @ s) = Some s"
  by (simp add: strip_prefix_def)

lemma strip_prefix_Some: "strip_prefix p s = Some r \<longleftrightarrow> s = p @ r"
  by (auto simp: strip_prefix_def prefix_def)

lemma strip_bracket: "strip_prefix ''['' (c # s) = (if c = CHR ''['' then Some s else None)"
  by (auto simp: strip_prefix_def)

lemma split_host_plain:
  assumes "h \<noteq> []" "hd h \<noteq> CHR ''[''" "CHR '':'' \<notin> set h"
  shows "split_host (authority_out h p) = Inr (h, p)"
proof -
  obtain c cs where h: "h = c # cs" "c \<noteq> CHR ''[''" using assms(1,2) by (cases h) auto
  show ?thesis
  proof (cases "p = 443")
    case True
    with assms(3) h show ?thesis by (simp add: authority_out_def split_host_def strip_bracket rsplit_once_None)
  next
    case False
    have "CHR '':'' \<notin> set (show_nat (unat p))" using show_nat_no by blast
    then have "rsplit_once CHR '':'' (h @ CHR '':'' # show_nat (unat p)) = Some (h, show_nat (unat p))"
      by (rule rsplit_once_append)
    with False assms(3) h show ?thesis
      by (simp add: authority_out_def split_host_def strip_bracket parse_port_show)
  qed
qed

lemma split_host_bracketed:
  assumes "CHR '':'' \<in> set h" "CHR '']'' \<notin> set h"
  shows "split_host (authority_out h p) = Inr (h, p)"
proof (cases "p = 443")
  case True
  then show ?thesis
    using assms find_char_append [of "CHR '']''" h "[]"]
    by (simp add: authority_out_def split_host_def strip_bracket strip_prefix_def)
next
  case False
  then show ?thesis
    using assms find_char_append [of "CHR '']''" h "CHR '':'' # show_nat (unat p)"]
    by (simp add: authority_out_def split_host_def strip_bracket strip_prefix_def [of "'':''"] parse_port_show)
qed

lemma split_host_parts: "split_host a = Inr (h, p) \<Longrightarrow> set h \<subseteq> set a"
proof -
  assume s: "split_host a = Inr (h, p)"
  show ?thesis
  proof (cases "strip_prefix ''['' a")
    case None
    then show ?thesis using s rsplit_once_Some [of "CHR '':''" a]
      by (fastforce simp: split_host_def bindE_eq_Inr split: option.splits prod.splits)
  next
    case (Some r)
    then have "a = ''['' @ r" by (simp add: strip_prefix_Some)
    moreover obtain e where "h = take e r" using s Some by (auto simp: split_host_def bindE_eq_Inr Let_def)
    ultimately show ?thesis using set_take_subset [of e r] by auto
  qed
qed

lemma authority_out_chars:
  "c \<in> set (authority_out h p) \<Longrightarrow> c \<in> {CHR ''/'', CHR ''@'', CHR ''#''} \<Longrightarrow> c \<in> set h"
  using show_nat_no [of c "unat p"] by (auto simp: authority_out_def split: if_splits)

lemma authority_out_nonempty: "h \<noteq> [] \<Longrightarrow> authority_out h p \<noteq> []"
  by (simp add: authority_out_def)

text \<open>
  C26. A parsed URL has the parts the rest of the program relies on (a non-empty host without a slash and a path
  that starts with one), and its \<open>:authority\<close> and path are canonical: for a host without brackets,
  parsing \<^verbatim>\<open>https://\<close> followed by the authority and the path gives the same host, port, path and
  authority back, for names, IPv6 literals and every port.
\<close>

theorem url_parse_canonical:
  assumes "url_parse s = Inr u"
  shows "u_host u \<noteq> [] \<and> CHR ''/'' \<notin> set (u_host u) \<and> (\<exists>q. u_path u = CHR ''/'' # q)
    \<and> (CHR ''['' \<notin> set (u_host u) \<and> CHR '']'' \<notin> set (u_host u)
       \<longrightarrow> url_parse (''https://'' @ u_authority u @ u_path u) = Inr u)"
proof -
  obtain rest where r: "strip_prefix ''https://'' s = Some rest" "CHR ''@'' \<notin> set rest" "CHR ''#'' \<notin> set rest"
    using assms by (auto simp: url_parse_def bindE_eq_Inr split: if_splits)
  obtain a q where aq: "(case find_char CHR ''/'' rest of Some i \<Rightarrow> (take i rest, drop i rest) | None \<Rightarrow> (rest, ''/''))
      = (a, CHR ''/'' # q)" and sl: "CHR ''/'' \<notin> set a" and sub: "set a \<subseteq> set rest" "set q \<subseteq> set rest"
  proof (cases "find_char CHR ''/'' rest")
    case None
    moreover from this have "CHR ''/'' \<notin> set rest" by (simp add: find_char_None)
    ultimately show ?thesis using that [of rest "[]"] by simp
  next
    case (Some i)
    note f = find_char_Some [OF Some]
    then have "drop i rest = CHR ''/'' # drop (Suc i) rest" by (metis Cons_nth_drop_Suc)
    then show ?thesis using that [of "take i rest" "drop (Suc i) rest"] Some f
      by (simp add: set_take_subset set_drop_subset)
  qed
  obtain h p where hp: "split_host a = Inr (h, p)" "h \<noteq> []"
      "u = \<lparr>u_host = h, u_port = p, u_path = CHR ''/'' # q, u_authority = authority_out h p\<rparr>"
    using assms r aq by (auto simp: url_parse_def bindE_eq_Inr Let_def split: if_splits)
  have hs: "set h \<subseteq> set a" using hp(1) by (rule split_host_parts)
  have "url_parse (''https://'' @ authority_out h p @ CHR ''/'' # q) = Inr u"
    if b: "CHR ''['' \<notin> set h" "CHR '']'' \<notin> set h"
  proof -
    let ?au = "authority_out h p"
    have "CHR ''/'' \<notin> set ?au" using authority_out_chars [of "CHR ''/''" h p] hs sl by auto
    then have "find_char CHR ''/'' (?au @ CHR ''/'' # q) = Some (length ?au)" by (rule find_char_append)
    moreover have "CHR ''@'' \<notin> set (?au @ CHR ''/'' # q)" "CHR ''#'' \<notin> set (?au @ CHR ''/'' # q)"
      using authority_out_chars [of "CHR ''@''" h p] authority_out_chars [of "CHR ''#''" h p] hs sub r(2,3) by auto
    moreover have "split_host ?au = Inr (h, p)"
    proof (cases "CHR '':'' \<in> set h")
      case True
      then show ?thesis using b(2) by (rule split_host_bracketed)
    next
      case False
      have "hd h \<noteq> CHR ''[''" using b(1) hp(2) hd_in_set by metis
      with hp(2) False show ?thesis by (intro split_host_plain)
    qed
    ultimately show ?thesis
      using hp(2,3) authority_out_nonempty [of h p]
      by (simp only: url_parse_def strip_prefix_append ok_or_simps bindE_simps) simp
  qed
  with hp hs sl show ?thesis by auto
qed

theorem url_parse_canonical_witness:
  "url_parse ''https://[::1]:8443'' = Inr \<lparr>u_host = ''::1'', u_port = 8443, u_path = ''/'', u_authority = ''[::1]:8443''\<rparr>
   \<and> url_parse (''https://'' @ ''[::1]:8443'' @ ''/'')
     = Inr \<lparr>u_host = ''::1'', u_port = 8443, u_path = ''/'', u_authority = ''[::1]:8443''\<rparr>"
proof -
  have p: "url_parse ''https://[::1]:8443'' = Inr \<lparr>u_host = ''::1'', u_port = 8443, u_path = ''/'', u_authority = ''[::1]:8443''\<rparr>"
    by (simp add: url_parse_def strip_prefix_def find_char_def split_host_def parse_port_def parse_u16_def
        parse_uint_def as_bytes_def authority_out_def show_nat.simps char_of_def bit_0)
  from url_parse_canonical [OF p] p show ?thesis by simp
qed

end
