(* ===== verification/Cpus.thy ===== *)
theory Cpus
  imports Ip_Text "HOL-Library.Product_Lexorder" "HOL-Library.Sublist"
begin

text \<open>
  The choice of worker CPUs in \<^verbatim>\<open>src/pkgs/microdoh3/src/main.rs\<close>: \<open>physical_cores\<close>, the XPS maps
  (\<open>parse_cpumask\<close>, \<open>xps_cpus_of\<close>, \<open>default_route_iface\<close>, \<open>xps_worker_cpus\<close>) and the plan that
  \<open>main\<close> makes of them. What sysfs and procfs hold is an argument: directory entries with the files read
  from them, \<^term>\<open>None\<close> where reading fails. These files are ASCII.
\<close>

section \<open>Text operations of the standard library\<close>

definition is_ws :: "u8 \<Rightarrow> bool" where
  "is_ws b \<longleftrightarrow> b = 32 \<or> (9 \<le> b \<and> b \<le> 13)"

definition trim :: "bytes \<Rightarrow> bytes" where
  "trim s = rev (dropWhile is_ws (rev (dropWhile is_ws s)))"

fun split_on :: "u8 \<Rightarrow> bytes \<Rightarrow> bytes list" where
  "split_on c [] = [[]]"
| "split_on c (x # xs) =
    (if x = c then [] # split_on c xs
     else case split_on c xs of [] \<Rightarrow> [[x]] | y # ys \<Rightarrow> (x # y) # ys)"

definition split_whitespace :: "bytes \<Rightarrow> bytes list" where
  "split_whitespace s = filter (\<lambda>w. w \<noteq> []) (split_on 32 (map (\<lambda>b. if is_ws b then 32 else b) s))"

definition lines :: "bytes \<Rightarrow> bytes list" where
  "lines s =
    (let ps = split_on 10 s;
         ps = (if last ps = [] then butlast ps else ps)
     in map (\<lambda>l. if l \<noteq> [] \<and> last l = 13 then butlast l else l) ps)"

text \<open>\<open>u32::from_str_radix(s, 16)\<close>, \<open>parse::<u32>()\<close> and \<open>parse::<i64>()\<close>.\<close>

fun hex_val :: "bytes \<Rightarrow> nat \<Rightarrow> nat option" where
  "hex_val [] acc = Some acc"
| "hex_val (b # bs) acc =
    (case to_digit 16 b of
       None \<Rightarrow> None
     | Some d \<Rightarrow> let v = acc * 16 + d in if v < 2 ^ 32 then hex_val bs v else None)"

definition parse_hex_u32 :: "bytes \<Rightarrow> u32 option" where
  "parse_hex_u32 s =
    map_option of_nat
      (case s of [] \<Rightarrow> None | b # r \<Rightarrow> if b = 43 \<and> r \<noteq> [] then hex_val r 0 else hex_val s 0)"

definition parse_u32 :: "bytes \<Rightarrow> u32 option" where
  "parse_u32 s = map_option of_nat (parse_uint (2 ^ 32) s)"

definition parse_i64 :: "bytes \<Rightarrow> int option" where
  "parse_i64 s =
    (case s of
       [] \<Rightarrow> None
     | b # r \<Rightarrow>
         if b = 45 then (if r = [] then None else map_option (\<lambda>n. - int n) (digits_val (2 ^ 63 + 1) r 0))
         else map_option int (parse_uint (2 ^ 63) s))"

definition strip_bytes :: "bytes \<Rightarrow> bytes \<Rightarrow> bytes option" where
  "strip_bytes p s = (if take (length p) s = p then Some (drop (length p) s) else None)"

section \<open>Physical cores\<close>

text \<open>
  The \<open>BTreeMap\<close> from (package, core) to the least CPU seen, as a list sorted by key.
\<close>

fun core_entry :: "int \<times> int \<Rightarrow> u32 \<Rightarrow> ((int \<times> int) \<times> u32) list \<Rightarrow> ((int \<times> int) \<times> u32) list" where
  "core_entry k cpu [] = [(k, cpu)]"
| "core_entry k cpu ((k', c) # m) =
    (if k < k' then (k, cpu) # (k', c) # m
     else if k = k' then (k, min c cpu) # m
     else (k', c) # core_entry k cpu m)"

text \<open>An entry of \<^verbatim>\<open>/sys/devices/system/cpu\<close>: its name and the two topology files.\<close>

type_synonym cpu_entry = "bytes \<times> bytes option \<times> bytes option"

definition scan_cpu :: "cpu_entry \<Rightarrow> ((int \<times> int) \<times> u32) list \<times> u32 list \<Rightarrow> ((int \<times> int) \<times> u32) list \<times> u32 list" where
  "scan_cpu e = (\<lambda>(cores, fallback).
     case e of (name, pkg_file, core_file) \<Rightarrow>
       (case Option.bind (if utf8_valid name then strip_bytes (as_bytes ''cpu'') name else None) parse_u32 of
          None \<Rightarrow> (cores, fallback)
        | Some cpu \<Rightarrow>
            let pkg = Option.bind pkg_file (\<lambda>s. parse_i64 (trim s));
                core = Option.bind core_file (\<lambda>s. parse_i64 (trim s))
            in ((case (pkg, core) of
                   (Some p, Some c) \<Rightarrow> core_entry (p, c) cpu cores
                 | _ \<Rightarrow> cores),
                fallback @ [cpu])))"

definition physical_cores :: "cpu_entry list option \<Rightarrow> nat option \<Rightarrow> u32 list" where
  "physical_cores sysfs parallelism =
    (let (cores, fallback) = (case sysfs of None \<Rightarrow> ([], []) | Some es \<Rightarrow> fold scan_cpu es ([], []))
     in if cores = [] then
          (if fallback = [] then map of_nat [0..<(case parallelism of Some n \<Rightarrow> n | None \<Rightarrow> 1)]
           else sort fallback)
        else map snd cores)"

section \<open>XPS maps\<close>

definition mask_bits :: "usize \<Rightarrow> u32 \<Rightarrow> u32 list" where
  "mask_bits grp bits = map (\<lambda>b. of_nat grp * 32 + of_nat b) (filter (\<lambda>b. bits AND push_bit b 1 \<noteq> 0) [0..<32])"

definition parse_cpumask :: "bytes \<Rightarrow> u32 list" where
  "parse_cpumask s =
    sort (concat (map (\<lambda>(grp, part).
      case parse_hex_u32 (trim part) of None \<Rightarrow> [] | Some bits \<Rightarrow> mask_bits grp bits)
      (enumerate 0 (rev (split_on 44 (trim s))))))"

definition push_new :: "u32 list \<Rightarrow> u32 list \<Rightarrow> u32 list" where
  "push_new new cpus = fold (\<lambda>c cpus. if c \<in> set cpus then cpus else cpus @ [c]) new cpus"

text \<open>An entry of \<^verbatim>\<open>/sys/class/net/IFACE/queues\<close>: its name and its \<^verbatim>\<open>xps_cpus\<close> file.\<close>

type_synonym queue_entry = "bytes \<times> bytes option"

definition xps_cpus_of :: "queue_entry list option \<Rightarrow> u32 list" where
  "xps_cpus_of queues =
    (case queues of
       None \<Rightarrow> []
     | Some es \<Rightarrow> sort (fold (\<lambda>(name, mask) cpus.
         if utf8_valid name \<and> take 3 name = as_bytes ''tx-'' then
           (case mask of None \<Rightarrow> cpus | Some m \<Rightarrow> push_new (parse_cpumask m) cpus)
         else cpus) es []))"

fun route_loop :: "bytes list \<Rightarrow> bytes option" where
  "route_loop [] = None"
| "route_loop (line # ls) =
    (case split_whitespace line of
       iface # dest # rest \<Rightarrow>
         (case rest of
            col # _ \<Rightarrow> if col = as_bytes ''00000000'' then Some iface else route_loop ls
          | [] \<Rightarrow> route_loop ls)
     | _ \<Rightarrow> None)"

definition default_route_iface :: "bytes option \<Rightarrow> bytes option" where
  "default_route_iface routes = (case routes of None \<Rightarrow> None | Some r \<Rightarrow> route_loop (drop 1 (lines r)))"

definition xps_worker_cpus :: "(bytes \<Rightarrow> queue_entry list option) \<Rightarrow> bytes option \<Rightarrow> bytes list \<Rightarrow> u32 list" where
  "xps_worker_cpus queues routes ifaces =
    (let chosen = (if ifaces = [] then (case default_route_iface routes of None \<Rightarrow> [] | Some i \<Rightarrow> [i]) else ifaces)
     in sort (fold (\<lambda>i cpus. push_new (xps_cpus_of (queues i)) cpus) chosen []))"

section \<open>The plan\<close>

datatype cpu_plan = Plan "u32 list" | InvalidCpus | SlicePanic

definition worker_cpus :: "bytes option \<Rightarrow> bool \<Rightarrow> u32 list \<Rightarrow> u32 list \<Rightarrow> u32 \<Rightarrow> cpu_plan" where
  "worker_cpus cpus_arg xps_flag xps cores workers =
    (case cpus_arg of
       Some l \<Rightarrow>
         let parsed = map (\<lambda>s. parse_u32 (trim s)) (split_on 44 l) in
         if None \<notin> set parsed \<and> parsed \<noteq> [] then Plan (map the parsed) else InvalidCpus
     | None \<Rightarrow>
         let from_xps = (if xps_flag then xps else []);
             pool = (if from_xps = [] then cores else from_xps);
             n = (if workers = 0 then length pool else min (unat workers) (length pool))
         in if max n 1 \<le> length pool then Plan (take (max n 1) pool) else SlicePanic)"

section \<open>The kernel's mask format\<close>

text \<open>
  The kernel prints a mask as 32-bit groups of eight hexadecimal digits, the most significant group first,
  separated by commas and closed by a newline.
\<close>

definition hex_digit :: "nat \<Rightarrow> u8" where
  "hex_digit d = (if d < 10 then of_nat (48 + d) else of_nat (87 + d))"

fun hex_text :: "nat \<Rightarrow> nat \<Rightarrow> bytes" where
  "hex_text 0 n = []"
| "hex_text (Suc k) n = hex_text k (n div 16) @ [hex_digit (n mod 16)]"

fun join :: "bytes list \<Rightarrow> bytes" where
  "join [] = []"
| "join [p] = p"
| "join (p # q # ps) = p @ 44 # join (q # ps)"

definition kernel_mask :: "u32 list \<Rightarrow> bytes" where
  "kernel_mask gs = join (map (\<lambda>g. hex_text 8 (unat g)) (rev gs)) @ [10]"

lemma unat_hex_digit: "d < 16 \<Longrightarrow> unat (hex_digit d) = (if d < 10 then 48 + d else 87 + d)"
  unfolding hex_digit_def by (simp only: if_distrib [of unat] unat_of_nat) simp

lemma to_digit_hex: "d < 16 \<Longrightarrow> to_digit 16 (hex_digit d) = Some d"
  by (simp add: to_digit_def word_le_nat_alt unat_hex_digit Let_def)

lemma hex_digit_plain: "d < 16 \<Longrightarrow> \<not> is_ws (hex_digit d) \<and> hex_digit d \<noteq> 44 \<and> hex_digit d \<noteq> 43"
  by (auto simp: is_ws_def word_le_nat_alt word_unat_eq_iff unat_hex_digit)

lemma hex_text_chars: "b \<in> set (hex_text k n) \<Longrightarrow> \<exists>d < 16. b = hex_digit d"
  by (induction k arbitrary: n) (auto intro: exI [of _ "_ mod 16"])

lemma hex_text_length [simp]: "length (hex_text k n) = k"
  by (induction k arbitrary: n) simp_all

lemma hex_val_snoc:
  "hex_val (bs @ [b]) acc = (case hex_val bs acc of None \<Rightarrow> None | Some v \<Rightarrow> hex_val [b] v)"
  by (induction bs arbitrary: acc) (simp_all add: Let_def split: option.split)

lemma hex_val_text: "n < 16 ^ k \<Longrightarrow> n < 2 ^ 32 \<Longrightarrow> hex_val (hex_text k n) 0 = Some n"
proof (induction k arbitrary: n)
  case (Suc k)
  have "n div 16 < 16 ^ k" using Suc.prems(1) by (simp add: less_mult_imp_div_less mult.commute)
  moreover have "n div 16 < 2 ^ 32" using Suc.prems(2) by (meson div_le_dividend le_less_trans)
  ultimately have "hex_val (hex_text k (n div 16)) 0 = Some (n div 16)" by (rule Suc.IH)
  with Suc.prems(2) show ?case by (simp add: hex_val_snoc to_digit_hex)
qed simp

lemma parse_hex_text: "parse_hex_u32 (hex_text 8 (unat g)) = Some g"
proof -
  have lt: "unat g < 2 ^ 32" using unsigned_less [where 'a = nat, of g] by simp
  obtain b bs where t: "hex_text 8 (unat g) = b # bs"
    using hex_text_length [of 8 "unat g"] by (cases "hex_text 8 (unat g)") auto
  then have "b \<noteq> 43" using hex_text_chars [of b 8 "unat g"] hex_digit_plain by auto
  then show ?thesis using hex_val_text [of "unat g" 8] lt by (simp add: parse_hex_u32_def t)
qed

lemma trim_id: "\<forall>b \<in> set s. \<not> is_ws b \<Longrightarrow> trim s = s"
proof -
  assume no: "\<forall>b \<in> set s. \<not> is_ws b"
  have "dropWhile is_ws xs = xs" if "\<forall>b \<in> set xs. \<not> is_ws b" for xs using that by (cases xs) auto
  from this [of s] this [of "rev s"] no show ?thesis by (simp add: trim_def)
qed

lemma trim_newline: "s \<noteq> [] \<Longrightarrow> \<forall>b \<in> set s. \<not> is_ws b \<Longrightarrow> trim (s @ [10]) = s"
proof -
  assume s: "s \<noteq> []" "\<forall>b \<in> set s. \<not> is_ws b"
  have dw: "dropWhile is_ws (x # xs) = x # xs" if "\<not> is_ws x" for x xs using that by simp
  obtain x xs where x: "s = x # xs" using s(1) by (cases s) auto
  obtain y ys where y: "rev s = y # ys" using s(1) by (cases "rev s") auto
  have "\<not> is_ws y" using y s(2) by (metis list.set_intros(1) set_rev)
  then have "dropWhile is_ws (rev (s @ [10])) = rev s" using dw by (simp add: y is_ws_def)
  moreover have "dropWhile is_ws (s @ [10]) = s @ [10]" using x s(2) by simp
  ultimately show ?thesis by (simp add: trim_def)
qed

lemma split_on_join:
  assumes "ps \<noteq> []" "\<forall>p \<in> set ps. 44 \<notin> set p"
  shows "split_on 44 (join ps) = ps"
proof -
  have one: "split_on 44 p = [p]" if "44 \<notin> set p" for p using that by (induction p) auto
  have two: "split_on 44 (p @ 44 # r) = p # split_on 44 r" if "44 \<notin> set p" for p r
    using that by (induction p) auto
  show ?thesis using assms by (induction ps rule: join.induct) (auto simp: one two)
qed

lemma join_chars: "b \<in> set (join ps) \<Longrightarrow> b = 44 \<or> (\<exists>p \<in> set ps. b \<in> set p)"
  by (induction ps rule: join.induct) auto

lemma mask_bits_eq: "mask_bits grp w = map of_nat (map (\<lambda>b. 32 * grp + b) (filter (bit w) [0..<32]))"
  by (simp add: mask_bits_def comp_def mult.commute and_bit_eq_0)

lemma concat_groups:
  "concat (map (\<lambda>(grp, w). map (\<lambda>b. 32 * grp + b) (filter (bit w) [0..<32])) (enumerate 0 gs))
    = filter (\<lambda>i. bit (gs ! (i div 32)) (i mod 32)) [0..<32 * length (gs :: u32 list)]"
proof (induction gs rule: rev_induct)
  case (snoc g gs)
  let ?n = "length gs"
  have "[0..<32 * length (gs @ [g])] = [0..<32 * ?n] @ map (\<lambda>b. 32 * ?n + b) [0..<32]"
    using upt_add_eq_append [of 0 "32 * ?n" 32] map_add_upt [of "32 * ?n" 32] by (simp add: add.commute)
  moreover have "filter (\<lambda>i. bit ((gs @ [g]) ! (i div 32)) (i mod 32)) [0..<32 * ?n]
      = filter (\<lambda>i. bit (gs ! (i div 32)) (i mod 32)) [0..<32 * ?n]"
    by (rule filter_cong) (auto simp: nth_append less_mult_imp_div_less mult.commute)
  moreover have "filter (\<lambda>i. bit ((gs @ [g]) ! (i div 32)) (i mod 32)) (map (\<lambda>b. 32 * ?n + b) [0..<32])
      = map (\<lambda>b. 32 * ?n + b) (filter (bit g) [0..<32])"
    by (simp add: filter_map comp_def nth_append) (rule filter_cong, auto)
  ultimately show ?case using snoc by (simp add: enumerate_append_eq)
qed simp

text \<open>
  An XPS mask is read as the kernel means it: for every mask of 32-bit groups, printed as sysfs prints it
  (most significant group first, with the trailing newline), \<open>parse_cpumask\<close> lists exactly the numbers of
  the CPUs whose bit is set, in increasing order.
\<close>

lemma parse_cpumask_kernel:
  assumes "gs \<noteq> []" "32 * length gs \<le> 2 ^ 32"
  shows "parse_cpumask (kernel_mask gs)
    = map of_nat (filter (\<lambda>i. bit (gs ! (i div 32)) (i mod 32)) [0..<32 * length gs])"
proof -
  let ?ps = "map (\<lambda>g. hex_text 8 (unat g)) (rev gs)"
  have plain: "\<not> is_ws b \<and> b \<noteq> 44" if "p \<in> set ?ps" "b \<in> set p" for p b
    using that hex_text_chars hex_digit_plain by fastforce
  have comma: "\<not> is_ws 44" by (simp add: is_ws_def)
  have ne: "join ?ps \<noteq> []"
  proof -
    obtain g gs' where "rev gs = g # gs'" using assms(1) by (cases "rev gs") auto
    moreover have "hex_text 8 n \<noteq> []" for n by (metis hex_text_length list.size(3) zero_neq_numeral)
    ultimately show ?thesis by (cases gs') auto
  qed
  have "trim (join ?ps @ [10]) = join ?ps"
    using ne join_chars [of _ ?ps] plain comma by (intro trim_newline) blast+
  moreover have "split_on 44 (join ?ps) = ?ps" using assms(1) plain by (intro split_on_join) auto
  moreover have "trim (hex_text 8 n) = hex_text 8 n" for n
    using hex_text_chars hex_digit_plain by (intro trim_id) blast
  ultimately have "parse_cpumask (kernel_mask gs)
      = sort (concat (map (\<lambda>(grp, part). case parse_hex_u32 (trim part) of None \<Rightarrow> [] | Some bits \<Rightarrow> mask_bits grp bits)
          (enumerate 0 (map (\<lambda>g. hex_text 8 (unat g)) gs))))"
    by (simp add: parse_cpumask_def kernel_mask_def rev_map)
  also have "map (\<lambda>(grp, part). case parse_hex_u32 (trim part) of None \<Rightarrow> [] | Some bits \<Rightarrow> mask_bits grp bits)
          (enumerate 0 (map (\<lambda>g. hex_text 8 (unat g)) gs))
      = map (\<lambda>(grp, w). map of_nat (map (\<lambda>b. 32 * grp + b) (filter (bit w) [0..<32]))) (enumerate 0 gs)"
    using \<open>\<And>n. trim (hex_text 8 n) = hex_text 8 n\<close>
    by (intro nth_equalityI) (simp_all add: nth_enumerate_eq parse_hex_text mask_bits_eq)
  also have "concat \<dots> = map of_nat (filter (\<lambda>i. bit (gs ! (i div 32)) (i mod 32)) [0..<32 * length gs])"
    unfolding concat_groups [symmetric] map_concat map_map
    by (rule arg_cong [where f = concat], rule map_cong [OF refl]) auto
  also have "sort \<dots> = \<dots>"
  proof (rule sorted_sort_id)
    have "unat (of_nat i :: u32) = i" if "i < 32 * length gs" for i
      using that assms(2) by (simp add: unat_of_nat)
    then have "(of_nat i :: u32) \<le> of_nat j" if "i \<le> j" "j < 32 * length gs" for i j
      using that by (simp add: word_le_nat_alt)
    then show "sorted (map (of_nat :: nat \<Rightarrow> u32) (filter (\<lambda>i. bit (gs ! (i div 32)) (i mod 32)) [0..<32 * length gs]))"
      by (auto simp: sorted_map intro: sorted_wrt_mono_rel [OF _ sorted_wrt_filter [OF sorted_wrt_upt]] less_imp_le)
  qed
  finally show ?thesis .
qed

lemma parse_cpumask_kernel_witness: "parse_cpumask (kernel_mask [0x5, 0x80000000]) = [0, 2, 63]"
proof -
  have "filter (\<lambda>i. bit ([0x5, 0x80000000 :: u32] ! (i div 32)) (i mod 32)) [0..<64] = [0, 2, 63]" by code_simp
  then show ?thesis using parse_cpumask_kernel [of "[0x5, 0x80000000]"] by simp
qed

lemma physical_cores_nonempty:
  assumes "\<forall>n. parallelism = Some n \<longrightarrow> 1 \<le> n"
  shows "physical_cores sysfs parallelism \<noteq> []"
proof -
  have "[0..<(case parallelism of Some n \<Rightarrow> n | None \<Rightarrow> 1)] \<noteq> []"
    using assms by (auto split: option.split simp: Suc_le_eq)
  moreover have "sort xs \<noteq> []" if "xs \<noteq> []" for xs :: "u32 list"
    using that by (metis length_0_conv length_sort)
  ultimately show ?thesis by (auto simp: physical_cores_def Let_def split: prod.split)
qed

text \<open>
  The worker plan is never empty and its slice never panics: physical cores are found whatever sysfs
  holds (the probe reports at least one CPU), and without \<^verbatim>\<open>--cpus\<close> the plan takes the first CPUs of the
  pool, all of them for \<^verbatim>\<open>--workers 0\<close> and otherwise at most the requested number.
\<close>

lemma worker_plan_ok:
  assumes "\<forall>n. parallelism = Some n \<longrightarrow> 1 \<le> n"
  shows "case worker_cpus None xps_flag xps (physical_cores sysfs parallelism) workers of
      Plan cpus \<Rightarrow> cpus \<noteq> [] \<and> (workers \<noteq> 0 \<longrightarrow> length cpus \<le> unat workers)
        \<and> prefix cpus (if xps_flag \<and> xps \<noteq> [] then xps else physical_cores sysfs parallelism)
    | InvalidCpus \<Rightarrow> False | SlicePanic \<Rightarrow> False"
proof -
  have "physical_cores sysfs parallelism \<noteq> []" using assms by (rule physical_cores_nonempty)
  moreover have "1 \<le> unat workers" if "workers \<noteq> 0" using that by (simp add: unat_gt_0 Suc_le_eq)
  ultimately show ?thesis
    by (auto simp: worker_cpus_def Let_def take_is_prefix Suc_le_eq max_def split: if_splits)
qed

lemma worker_plan_ok_witness:
  "worker_cpus None False [] (physical_cores None (Some 4)) 2 = Plan [0, 1]"
proof -
  have "\<forall>n. Some (4 :: nat) = Some n \<longrightarrow> 1 \<le> n" by simp
  from worker_plan_ok [OF this, where xps_flag = False and xps = "[]" and sysfs = None and workers = 2] show ?thesis
    by (simp add: worker_cpus_def physical_cores_def upt_rec)
qed

end
