(* ===== verification/Quic.thy ===== *)
theory Quic
  imports Net
begin

text \<open>
  The wrapper around the QUIC implementation of \<^verbatim>\<open>src/pkgs/microdoh3/src/quic.rs\<close>. The protocol engine
  itself (the crate noq) and the UDP socket are not part of the program; what a call of theirs returns is an argument here. Of the
  record \<open>Quic\<close> the model keeps what the wrapper itself reads and writes: whether there is a connection, its handle and the two
  0-RTT flags. A list of outcomes stands for the successive results of a call made in a loop; past its end
  the call reports that there is nothing more (\<open>read\<close>, \<open>poll\<close>, \<open>recv\<close>) or accepts everything (\<open>write\<close>).
\<close>

section \<open>Types\<close>

definition IOV_SIZE :: usize where "IOV_SIZE = 65536"

datatype quic_error = QIo | QConnect | QRustls | QCrypto | QNoConn | QWrite | QFinish

record quic =
  q_conn :: bool
  q_handle :: "nat option"
  zero_rtt_accepted :: bool
  zero_rtt_offered :: bool

definition quic_new :: quic where
  "quic_new = \<lparr>q_conn = False, q_handle = None, zero_rtt_accepted = False, zero_rtt_offered = False\<rparr>"

datatype udp_ecn = UdpEct0 | UdpEct1 | UdpCe
datatype proto_ecn = ProtoEct0 | ProtoEct1 | ProtoCe

fun ecn_to_proto :: "udp_ecn \<Rightarrow> proto_ecn" where
  "ecn_to_proto UdpEct0 = ProtoEct0"
| "ecn_to_proto UdpEct1 = ProtoEct1"
| "ecn_to_proto UdpCe = ProtoCe"

fun ecn_to_udp :: "proto_ecn \<Rightarrow> udp_ecn" where
  "ecn_to_udp ProtoEct0 = UdpEct0"
| "ecn_to_udp ProtoEct1 = UdpEct1"
| "ecn_to_udp ProtoCe = UdpCe"

text \<open>A transmit as the engine produces it, with its contents, and as the socket takes it.\<close>

record 'e transmit =
  tx_destination :: sock_addr
  tx_ecn :: "'e option"
  tx_contents :: bytes
  tx_segment_size :: "usize option"
  tx_src_ip :: "ip_addr option"

definition udp_transmit :: "proto_ecn transmit \<Rightarrow> udp_ecn transmit" where
  "udp_transmit t =
    \<lparr>tx_destination = tx_destination t, tx_ecn = map_option ecn_to_udp (tx_ecn t), tx_contents = tx_contents t,
     tx_segment_size = tx_segment_size t, tx_src_ip = tx_src_ip t\<rparr>"

section \<open>Connection\<close>

definition has_conn :: "quic \<Rightarrow> bool" where
  "has_conn q = q_conn q"

definition has_0rtt :: "quic \<Rightarrow> bool \<Rightarrow> bool" where
  "has_0rtt q conn_has = (q_conn q \<and> conn_has)"

definition is_drained :: "quic \<Rightarrow> bool \<Rightarrow> bool" where
  "is_drained q conn_drained = (\<not> q_conn q \<or> conn_drained)"

definition drop_conn :: "quic \<Rightarrow> quic" where
  "drop_conn q = q\<lparr>q_conn := False, q_handle := None\<rparr>"

text \<open>\<open>flush\<close>: the transmits the engine produces in turn, each with whether the socket takes it.\<close>

fun flush_loop :: "(proto_ecn transmit \<times> bool) list \<Rightarrow> udp_ecn transmit list \<times> (unit, quic_error) result" where
  "flush_loop [] = ([], Inr ())"
| "flush_loop ((t, ok) # ts) =
    (if ok then (case flush_loop ts of (sent, r) \<Rightarrow> (udp_transmit t # sent, r)) else ([], Inl QIo))"

definition quic_flush :: "quic \<Rightarrow> (proto_ecn transmit \<times> bool) list \<Rightarrow> udp_ecn transmit list \<times> (unit, quic_error) result" where
  "quic_flush q ts = (if q_conn q then flush_loop ts else ([], Inr ()))"

text \<open>\<open>connect\<close>: the engine's handle and 0-RTT reading, or an error before anything changes.\<close>

definition quic_connect :: "quic \<Rightarrow> (nat \<times> bool) option \<Rightarrow> (proto_ecn transmit \<times> bool) list
    \<Rightarrow> quic \<times> (unit, quic_error) result" where
  "quic_connect q conn ts =
    (case conn of
       None \<Rightarrow> (q, Inl QConnect)
     | Some (handle, offered) \<Rightarrow>
         let q = q\<lparr>q_conn := True, q_handle := Some handle, zero_rtt_accepted := False, zero_rtt_offered := offered\<rparr>
         in (q, snd (quic_flush q ts)))"

definition open_bi :: "quic \<Rightarrow> u64 option \<Rightarrow> u64 option" where
  "open_bi q opened = (if q_conn q then opened else None)"

definition open_control_uni :: "quic \<Rightarrow> u64 option \<Rightarrow> u64 option" where
  "open_control_uni q opened = (if q_conn q then opened else None)"

definition next_timeout :: "quic \<Rightarrow> instant option \<Rightarrow> instant option" where
  "next_timeout q conn_timeout = (if q_conn q then conn_timeout else None)"

section \<open>Streams\<close>

text \<open>The loop of \<open>write_all\<close>; the result carries how many bytes the stream took.\<close>

fun write_loop :: "usize option list \<Rightarrow> bytes \<Rightarrow> usize \<Rightarrow> usize \<times> (unit, quic_error) result" where
  "write_loop ws data off =
    (if off < length data then
       (case ws of
          [] \<Rightarrow> (length data, Inr ())
        | None # _ \<Rightarrow> (off, Inl QWrite)
        | Some n # ws' \<Rightarrow> write_loop ws' data (off + n))
     else (off, Inr ()))"

declare write_loop.simps [simp del]

definition write_all :: "quic \<Rightarrow> usize option list \<Rightarrow> bytes \<Rightarrow> bytes \<times> (unit, quic_error) result" where
  "write_all q ws data =
    (if q_conn q then (case write_loop ws data 0 of (off, r) \<Rightarrow> (take off data, r)) else ([], Inl QNoConn))"

definition finish_stream :: "quic \<Rightarrow> bool \<Rightarrow> (unit, quic_error) result" where
  "finish_stream q ok = (if \<not> q_conn q then Inl QNoConn else if ok then Inr () else Inl QFinish)"

datatype readable = ReadOk | ClosedStream | ReadRefused
datatype chunk_next = Chunk bytes | ChunkEof | ChunkBlocked | ChunkErr

fun read_chunks :: "chunk_next list \<Rightarrow> (bytes \<Rightarrow> 's \<Rightarrow> 's) \<Rightarrow> 's \<Rightarrow> 's \<times> bool \<times> bool" where
  "read_chunks [] f s = (s, False, False)"
| "read_chunks (Chunk b # cs) f s = read_chunks cs f (f b s)"
| "read_chunks (ChunkEof # cs) f s = (s, True, False)"
| "read_chunks (ChunkBlocked # cs) f s = (s, False, False)"
| "read_chunks (ChunkErr # cs) f s = (s, False, True)"

definition read_stream :: "quic \<Rightarrow> readable \<Rightarrow> chunk_next list \<Rightarrow> (bytes \<Rightarrow> 's \<Rightarrow> 's) \<Rightarrow> 's \<Rightarrow> 's \<times> bool \<times> bool" where
  "read_stream q rd cs f s =
    (if \<not> q_conn q then (s, False, True)
     else (case rd of
             ReadOk \<Rightarrow> read_chunks cs f s
           | ClosedStream \<Rightarrow> (s, True, False)
           | ReadRefused \<Rightarrow> (s, False, True)))"

section \<open>Events\<close>

text \<open>
  Application events; \<open>ConnectionLost\<close> says whether the peer closed at the application layer.
  \<open>poll_events\<close> reads \<open>accepted_0rtt\<close> with each event, given here beside it.
\<close>

datatype conn_event =
    Connected
  | ConnectionLost bool
  | Readable u64
  | Finished u64
  | Stopped u64
  | OtherEvent

fun poll_loop :: "(conn_event \<times> bool) list \<Rightarrow> quic \<Rightarrow> quic \<times> conn_event list" where
  "poll_loop [] q = (q, [])"
| "poll_loop ((ev, accepted) # evs) q =
    (case poll_loop evs (if ev = Connected \<and> accepted then q\<lparr>zero_rtt_accepted := True\<rparr> else q) of
       (q, out) \<Rightarrow> (q, ev # out))"

definition poll_events :: "quic \<Rightarrow> (conn_event \<times> bool) list \<Rightarrow> quic \<times> conn_event list" where
  "poll_events q evs = (if q_conn q then poll_loop evs q else (q, []))"

datatype 'v datagram_event = ConnectionEvent nat 'v | ResponseTx "proto_ecn transmit" | NewConnection
datatype 'v reaction = HandleEvent 'v | SendTransmit "udp_ecn transmit"

definition handle_datagram_event :: "quic \<Rightarrow> 'v datagram_event option \<Rightarrow> 'v reaction list" where
  "handle_datagram_event q event =
    (case event of
       Some (ConnectionEvent h ev) \<Rightarrow> if Some h = q_handle q \<and> q_conn q then [HandleEvent ev] else []
     | Some (ResponseTx t) \<Rightarrow> [SendTransmit (udp_transmit t)]
     | Some NewConnection \<Rightarrow> []
     | None \<Rightarrow> [])"

section \<open>Timers and closing\<close>

text \<open>
  What the wrapper tells the engine: events of the connection passed to the endpoint and its answers passed back, due
  timers, and the close. The events the connection has for the endpoint come with the endpoint's answers.
\<close>

datatype ('e, 'c) engine_call =
    EndpointEvent nat 'e
  | ConnEvent 'c
  | ConnTimeout instant
  | ConnClose instant nat bytes

fun endpoint_loop :: "nat \<Rightarrow> ('e \<times> 'c option) list \<Rightarrow> ('e, 'c) engine_call list" where
  "endpoint_loop handle [] = []"
| "endpoint_loop handle ((ev, cev) # evs) =
    EndpointEvent handle ev # (case cev of Some c \<Rightarrow> [ConnEvent c] | None \<Rightarrow> []) @ endpoint_loop handle evs"

definition drain_endpoint_events :: "quic \<Rightarrow> ('e \<times> 'c option) list \<Rightarrow> ('e, 'c) engine_call list" where
  "drain_endpoint_events q evs =
    (case q_handle q of Some handle \<Rightarrow> if q_conn q then endpoint_loop handle evs else [] | None \<Rightarrow> [])"

definition quic_handle_timeout :: "quic \<Rightarrow> instant \<Rightarrow> ('e \<times> 'c option) list \<Rightarrow> (proto_ecn transmit \<times> bool) list
    \<Rightarrow> ('e, 'c) engine_call list \<times> udp_ecn transmit list \<times> (unit, quic_error) result" where
  "quic_handle_timeout q now evs ts =
    ((if q_conn q then [ConnTimeout now] else []) @ drain_endpoint_events q evs, quic_flush q ts)"

definition quic_close :: "quic \<Rightarrow> instant \<Rightarrow> (proto_ecn transmit \<times> bool) list
    \<Rightarrow> ('e, 'c) engine_call list \<times> udp_ecn transmit list" where
  "quic_close q now ts =
    ((if q_conn q then [ConnClose now 0 (as_bytes ''shutdown'')] else []), fst (quic_flush q ts))"

text \<open>Every event reaches the endpoint, in order, and every answer goes back right after the event it answers.\<close>

lemma endpoint_loop_complete:
  "[ev. EndpointEvent h ev \<leftarrow> endpoint_loop handle evs] = map fst evs"
  "[c. ConnEvent c \<leftarrow> endpoint_loop handle evs] = concat (map (\<lambda>(_, c). case c of Some c \<Rightarrow> [c] | None \<Rightarrow> []) evs)"
  by (induction evs) (auto split: option.split)

section \<open>Receiving\<close>

record recv_meta =
  rm_addr :: sock_addr
  rm_dst_ip :: "ip_addr option"
  rm_ecn :: "udp_ecn option"
  rm_stride :: usize

datatype recv_result = Received "(recv_meta \<times> bytes) list" | WouldBlock | ConnectionReset | RecvError

text \<open>\<open>data.chunks(stride)\<close>.\<close>

function chunks :: "usize \<Rightarrow> bytes \<Rightarrow> bytes list" where
  "chunks n xs = (if xs = [] \<or> n = 0 then [] else take n xs # chunks n (drop n xs))"
  by pat_completeness auto
termination by (relation "measure (\<lambda>(n, xs). length xs)") auto

declare chunks.simps [simp del]

definition segments :: "recv_meta \<times> bytes \<Rightarrow> (recv_meta \<times> bytes) list" where
  "segments = (\<lambda>(meta, data).
     let stride = (if rm_stride meta = 0 then max (length data) 1 else rm_stride meta)
     in map (\<lambda>seg. (meta, seg)) (chunks stride data))"

record datagram =
  dg_remote :: sock_addr
  dg_local :: "ip_addr option"
  dg_ecn :: "proto_ecn option"
  dg_data :: bytes

definition datagram_of :: "recv_meta \<times> bytes \<Rightarrow> datagram" where
  "datagram_of = (\<lambda>(meta, seg).
     \<lparr>dg_remote = unmap_addr (rm_addr meta), dg_local = map_option unmap_ip (rm_dst_ip meta),
      dg_ecn = map_option ecn_to_proto (rm_ecn meta), dg_data = seg\<rparr>)"

text \<open>
  One batch is handed to the engine's \<open>handle\<close>, which is a parameter with its own state \<open>'e\<close>; the loop goes
  on until nothing is received. The result lists what the wrapper did with the engine's answers.
\<close>

fun handle_all :: "('e \<Rightarrow> datagram \<Rightarrow> 'e \<times> 'v datagram_event option) \<Rightarrow> quic \<Rightarrow> datagram list \<Rightarrow> 'e
    \<Rightarrow> 'e \<times> 'v reaction list" where
  "handle_all handle q [] e = (e, [])"
| "handle_all handle q (d # ds) e =
    (case handle e d of
       (e, event) \<Rightarrow>
         (case handle_all handle q ds e of
            (e, rs) \<Rightarrow> (e, handle_datagram_event q event @ rs)))"

fun poll_socket :: "('e \<Rightarrow> datagram \<Rightarrow> 'e \<times> 'v datagram_event option) \<Rightarrow> quic \<Rightarrow> recv_result list \<Rightarrow> 'e
    \<Rightarrow> 'e \<times> 'v reaction list \<times> (unit, quic_error) result" where
  "poll_socket handle q [] e = (e, [], Inr ())"
| "poll_socket handle q (WouldBlock # _) e = (e, [], Inr ())"
| "poll_socket handle q (ConnectionReset # _) e = (e, [], Inr ())"
| "poll_socket handle q (RecvError # _) e = (e, [], Inl QIo)"
| "poll_socket handle q (Received metas # rs) e =
    (if metas = [] then (e, [], Inr ())
     else
       (case handle_all handle q (map datagram_of (concat (map segments metas))) e of
          (e, out) \<Rightarrow>
            (case poll_socket handle q rs e of (e, out', r) \<Rightarrow> (e, out @ out', r))))"

section \<open>Lemmas\<close>

lemma ecn_inverse [simp]: "ecn_to_udp (ecn_to_proto e) = e" "ecn_to_proto (ecn_to_udp e') = e'"
  by (cases e; simp) (cases e'; simp)

lemma quic_connect_conn: "q_conn q \<Longrightarrow> q_conn (fst (quic_connect q conn ts))"
  by (simp add: quic_connect_def Let_def split: option.split)

lemma poll_events_conn [simp]: "q_conn (fst (poll_events q evs)) = q_conn q"
proof -
  have "q_conn (fst (poll_loop evs q)) = q_conn q" for q
  proof (induction evs arbitrary: q)
    case (Cons x evs)
    then show ?case by (cases x) (simp add: case_prod_beta)
  qed simp
  then show ?thesis by (simp add: poll_events_def)
qed

lemma drop_conn_conn [simp]: "q_conn (drop_conn q) = False" "has_conn (drop_conn q) = False"
  by (simp_all add: drop_conn_def has_conn_def)

text \<open>
  A successful \<open>write_all\<close> has written everything; a failed one may have left a prefix of the request on
  the stream.
\<close>

lemma write_loop_ok: "write_loop ws data off = (off', Inr ()) \<Longrightarrow> length data \<le> off'"
proof (induction ws arbitrary: off)
  case Nil
  then show ?case by (subst (asm) write_loop.simps) (simp split: if_splits)
next
  case (Cons w ws)
  from Cons.prems show ?case
    by (subst (asm) write_loop.simps) (auto split: if_splits option.splits intro: Cons.IH)
qed

lemma write_all_ok: "write_all q ws data = (taken, Inr ()) \<Longrightarrow> taken = data"
  by (auto simp: write_all_def split: if_splits prod.splits dest: write_loop_ok)

lemma write_all_prefix: "\<exists>rest. data = fst (write_all q ws data) @ rest"
  by (simp add: write_all_def split: prod.split) (metis append_Nil append_take_drop_id)

lemma read_chunks_chunks: "fst (read_chunks (map Chunk bs @ cs) f s) = fst (read_chunks cs f (fold f bs s))"
  by (induction bs arbitrary: s) simp_all

subsection \<open>Segmentation\<close>

lemma concat_chunks: "0 < n \<Longrightarrow> concat (chunks n xs) = xs"
  by (induction n xs rule: chunks.induct) (subst chunks.simps, auto)

lemma chunks_size: "seg \<in> set (chunks n xs) \<Longrightarrow> seg \<noteq> [] \<and> length seg \<le> n \<and> length seg \<le> length xs"
proof (induction n xs rule: chunks.induct)
  case (1 n xs)
  from "1.prems" have ne: "\<not> (xs = [] \<or> n = 0)" by (subst (asm) chunks.simps) (auto split: if_splits)
  with "1.prems" have "seg = take n xs \<or> seg \<in> set (chunks n (drop n xs))"
    by (subst (asm) chunks.simps) simp
  with "1.IH" [OF ne] ne show ?case by (auto simp: min_def)
qed

lemma segments_data: "concat (map snd (segments x)) = snd x"
  by (cases x) (simp add: segments_def Let_def comp_def concat_chunks)

lemma segments_meta:
  assumes "(m, seg) \<in> set (segments (m', data))"
  shows "m = m' \<and> seg \<noteq> [] \<and> length seg \<le> length data \<and> (rm_stride m \<noteq> 0 \<longrightarrow> length seg \<le> rm_stride m)"
  using assms chunks_size by (fastforce simp: segments_def Let_def split: if_splits)

fun received :: "recv_result list \<Rightarrow> (recv_meta \<times> bytes) list" where
  "received (Received metas # rs) = (if metas = [] then [] else metas @ received rs)"
| "received _ = []"

lemma handle_all_record:
  "fst (handle_all (\<lambda>e d. (e @ [d], reply d)) q ds e) = e @ ds"
proof (induction ds arbitrary: e)
  case (Cons d ds)
  from Cons [of "e @ [d]"] show ?case by (simp add: case_prod_beta)
qed simp

lemma poll_socket_record:
  "fst (poll_socket (\<lambda>e d. (e @ [d], reply d)) q rs e)
    = e @ map datagram_of (concat (map segments (received rs)))"
proof (induction rs arbitrary: e)
  case (Cons r rs)
  show ?case
  proof (cases r)
    case (Received metas)
    with Cons.IH show ?thesis
      using handle_all_record [of reply q "map datagram_of (concat (map segments metas))" e]
      by (cases "handle_all (\<lambda>e d. (e @ [d], reply d)) q (map datagram_of (concat (map segments metas))) e")
        (simp add: case_prod_beta)
  qed simp_all
qed simp

lemma unmapped: "to_ipv4_mapped (ip :: ipv6) = None \<Longrightarrow> unmap_ip (V6 ip) = V6 ip"
  by (simp add: unmap_ip_def)


end
