(* ===== verification/Event.thy ===== *)
theory Event
  imports Prelude
begin

text \<open>
  The poller of \<^verbatim>\<open>src/pkgs/microdoh3/src/event.rs\<close>: the timer file descriptor, the waits of the event loop and
  the signal pipe. What the system calls return is an argument; a list of results stands for repeated calls.
\<close>

definition TOKEN_DNS :: u64 where "TOKEN_DNS = 0"
definition TOKEN_QUIC :: u64 where "TOKEN_QUIC = 1"
definition TOKEN_TIMER :: u64 where "TOKEN_TIMER = 2"
definition TOKEN_SIGNAL :: u64 where "TOKEN_SIGNAL = 3"

text \<open>A setting of the timer: disarmed, or one shot after seconds and nanoseconds.\<close>

datatype timer_setting = Disarmed | OneShot int int

definition as_secs :: "duration \<Rightarrow> int" where "as_secs d = d div 1000000000"
definition subsec_nanos :: "duration \<Rightarrow> int" where "subsec_nanos d = d mod 1000000000"

definition arm_timer :: "instant option \<Rightarrow> instant \<Rightarrow> timer_setting" where
  "arm_timer deadline now =
    (case deadline of
       Some d \<Rightarrow>
         let rel = max (saturating_duration_since d now) 1
         in OneShot (as_secs rel) (subsec_nanos rel)
     | None \<Rightarrow> Disarmed)"

text \<open>The kernel treats a zero time as a request to disarm.\<close>

fun timer_fires :: "timer_setting \<Rightarrow> instant \<Rightarrow> instant option" where
  "timer_fires Disarmed now = None"
| "timer_fires (OneShot s ns) now = (if s = 0 \<and> ns = 0 then None else Some (now + s * 1000000000 + ns))"

datatype read_result = ReadBytes nat | ReadAgain | ReadError

text \<open>\<open>drain_timer\<close> reads until nothing is left; the number of reads made is the result.\<close>

fun drain_timer :: "read_result list \<Rightarrow> nat" where
  "drain_timer [] = 1"
| "drain_timer (ReadBytes n # rs) = 1 + drain_timer rs"
| "drain_timer (ReadAgain # rs) = 1"
| "drain_timer (ReadError # rs) = 1"

definition shutdown_signaled :: "read_result \<Rightarrow> bool" where
  "shutdown_signaled r = (case r of ReadBytes n \<Rightarrow> n > 0 | _ \<Rightarrow> False)"

text \<open>
  \<open>wait\<close>: with spinning enabled one sweep without blocking, then blocking waits repeated while interrupted.
  \<^term>\<open>None\<close> when all the waits listed were interrupted, that is, while it is still waiting.
\<close>

datatype wait_result = Ready usize | Interrupted | WaitError

fun wait_loop :: "wait_result list \<Rightarrow> (usize, unit) result option" where
  "wait_loop [] = None"
| "wait_loop (Ready n # rs) = Some (Inr n)"
| "wait_loop (Interrupted # rs) = wait_loop rs"
| "wait_loop (WaitError # rs) = Some (Inl ())"

definition poller_wait :: "bool \<Rightarrow> wait_result \<Rightarrow> wait_result list \<Rightarrow> (usize, unit) result option" where
  "poller_wait spin sweep rs =
    (case (if spin then sweep else Interrupted) of
       Ready n \<Rightarrow> if n > 0 then Some (Inr n) else wait_loop rs
     | _ \<Rightarrow> wait_loop rs)"

section \<open>Properties\<close>

text \<open>
  C37. A deadline always wakes the loop: arming the timer for any deadline, past ones included, never disarms it;
  it fires at the deadline, or one nanosecond from now when the deadline has already come, and the kernel's
  limits on the two fields of the time are respected. Without a deadline the timer is off.
\<close>

theorem arm_timer_fires:
  "timer_fires (arm_timer (Some d) now) now = Some (max d (now + 1)) \<and> timer_fires (arm_timer None now) now = None
   \<and> (case arm_timer (Some d) now of OneShot s ns \<Rightarrow> 0 \<le> s \<and> 0 \<le> ns \<and> ns < 1000000000 | Disarmed \<Rightarrow> False)"
proof -
  let ?rel = "max (saturating_duration_since d now) 1"
  have rel: "1 \<le> ?rel" "now + ?rel = max d (now + 1)" by (auto simp: saturating_duration_since_def)
  have split: "as_secs ?rel * 1000000000 + subsec_nanos ?rel = ?rel" by (simp add: as_secs_def subsec_nanos_def)
  then have "\<not> (as_secs ?rel = 0 \<and> subsec_nanos ?rel = 0)" using rel(1) by auto
  with split rel show ?thesis
    by (simp add: arm_timer_def Let_def as_secs_def subsec_nanos_def add.assoc)
qed

text \<open>Interruptions and spinning do not change what a wait returns, unless the sweep already finds events.\<close>

lemma wait_loop_interrupted: "wait_loop (replicate k Interrupted @ rs) = wait_loop rs"
  by (induction k) simp_all

lemma poller_wait_quiet: "poller_wait spin (Ready 0) rs = wait_loop rs" "poller_wait spin Interrupted rs = wait_loop rs"
  by (simp_all add: poller_wait_def)

end
