(* ===== verification/Migration.thy ===== *)
theory Migration
  imports Shared Url Quic
begin

text \<open>
  The measurement and migration policy of a worker, from \<^verbatim>\<open>src/pkgs/microdoh3/src/worker.rs\<close>: the rolling
  quality of the address in use (\<open>Quality\<close>), the worker's \<open>Runtime\<close>, and the decision whether to move to another
  upstream address (\<open>migration_target\<close>). Clock readings are arguments.
\<close>

definition SCORE_INTERVAL :: duration where "SCORE_INTERVAL = from_secs 2"
definition MIGRATE_MIN_INTERVAL :: duration where "MIGRATE_MIN_INTERVAL = from_secs 180"
definition MIGRATE_STAGGER_SECS :: u64 where "MIGRATE_STAGGER_SECS = 5"
definition MIGRATE_RATIO_PCT :: u64 where "MIGRATE_RATIO_PCT = 150"
definition FAIL_MIGRATE_INTERVAL :: duration where "FAIL_MIGRATE_INTERVAL = from_secs 10"

record worker_config =
  wc_listen :: sock_addr
  wc_upstream :: https_url
  wc_token :: "string option"
  wc_timeout :: duration
  wc_pad :: bool
  wc_busy_poll :: bool
  wc_spin :: bool
  wc_mlockall :: bool
  wc_child_idx :: usize

section \<open>Quality\<close>

record quality =
  ql_ewma_us :: u64
  ql_ok :: u32
  ql_failed :: u32

definition quality_new :: quality where
  "quality_new = \<lparr>ql_ewma_us = 0, ql_ok = 0, ql_failed = 0\<rparr>"

definition as_micros :: "duration \<Rightarrow> int" where
  "as_micros d = d div 1000"

definition on_success :: "duration \<Rightarrow> quality \<Rightarrow> quality" where
  "on_success latency q =
    (let us = of_int (min (as_micros latency) (2 ^ 32 - 1)) in
     q\<lparr>ql_ok := saturating_add (ql_ok q) 1,
       ql_ewma_us := (if ql_ewma_us q = 0 then us else (ql_ewma_us q * 3 + us) div 4)\<rparr>)"

definition on_failure :: "quality \<Rightarrow> quality" where
  "on_failure q = q\<lparr>ql_failed := saturating_add (ql_failed q) 1\<rparr>"

definition quality_sample :: "quality \<Rightarrow> ip_addr option \<Rightarrow> u32 \<Rightarrow> score_sample" where
  "quality_sample q addr flags =
    \<lparr>sm_addr = addr, sm_score = score_from_rtt (ucast (min (ql_ewma_us q) (2 ^ 32 - 1))), sm_ok = ql_ok q,
     sm_fail = ql_failed q, sm_flags = flags, sm_updated = 0\<rparr>"

definition reset_window :: "quality \<Rightarrow> quality" where
  "reset_window q = q\<lparr>ql_ok := 0, ql_failed := 0\<rparr>"

section \<open>Runtime\<close>

record runtime =
  ru_child_idx :: usize
  ru_fail_streak :: u32
  ru_set :: upstream_set
  ru_my_remote :: sock_addr
  ru_slot :: usize
  ru_last_migrate :: instant
  ru_quality :: quality
  ru_last_score :: instant

text \<open>\<open>Runtime::new\<close>; \<open>set.addrs[slot]\<close> out of range would panic (\<^term>\<open>None\<close>).\<close>

definition runtime_new :: "upstream_set \<Rightarrow> worker_config \<Rightarrow> instant \<Rightarrow> runtime option" where
  "runtime_new us cfg now =
    (let slot = (case slot_for us (wc_child_idx cfg) of Some i \<Rightarrow> i | None \<Rightarrow> 0) in
     case get (us_addrs us) slot of
       None \<Rightarrow> None
     | Some addr \<Rightarrow>
         Some \<lparr>ru_child_idx = wc_child_idx cfg, ru_fail_streak = 0, ru_set = us,
               ru_my_remote = \<lparr>sa_ip = addr, sa_port = u_port (wc_upstream cfg)\<rparr>, ru_slot = slot,
               ru_last_migrate = now, ru_quality = quality_new, ru_last_score = now\<rparr>)"

definition current_weight :: "runtime \<Rightarrow> u32" where
  "current_weight rt = weight_of (ru_set rt) (sa_ip (ru_my_remote rt))"

section \<open>Migration\<close>

definition migration_slot_open :: "u64 \<Rightarrow> usize \<Rightarrow> usize \<Rightarrow> bool" where
  "migration_slot_open now_secs workers idx =
    (let workers = of_nat (max workers 1) :: u64; slot = max MIGRATE_STAGGER_SECS 1
     in (now_secs div slot) mod workers = of_nat idx mod workers)"

text \<open>\<open>Iterator::max_by_key\<close> keeps the last of several maximal elements.\<close>

definition max_by_key :: "('a \<Rightarrow> 'k :: linorder) \<Rightarrow> 'a list \<Rightarrow> 'a option" where
  "max_by_key key xs =
    fold (\<lambda>x best. case best of None \<Rightarrow> Some x | Some y \<Rightarrow> if key y \<le> key x then Some x else Some y) xs None"

definition best_alternative :: "upstream_set \<Rightarrow> ip_addr \<Rightarrow> ip_addr option" where
  "best_alternative us current =
    map_option fst (max_by_key snd
      (filter (\<lambda>(a, w). w > 0 \<and> a \<noteq> current) (zip (us_addrs us) (us_weights us))))"

definition migration_target :: "runtime \<Rightarrow> worker_config \<Rightarrow> instant \<Rightarrow> u64 \<Rightarrow> ip_addr option" where
  "migration_target rt cfg now mono_secs =
    (let current = sa_ip (ru_my_remote rt);
         since_migrate = saturating_duration_since now (ru_last_migrate rt)
     in
     if ru_fail_streak rt \<ge> 2 then
       if since_migrate < FAIL_MIGRATE_INTERVAL then None
       else
         let current_weight = weight_of (ru_set rt) current in
         (case best_alternative (ru_set rt) current of
            None \<Rightarrow> None
          | Some alt \<Rightarrow> if weight_of (ru_set rt) alt > current_weight then Some alt else None)
     else if since_migrate < MIGRATE_MIN_INTERVAL then None
     else if \<not> migration_slot_open mono_secs (unat (us_workers (ru_set rt))) (ru_child_idx rt) then None
     else
       (case slot_for (ru_set rt) (wc_child_idx cfg) of
          None \<Rightarrow> None
        | Some slot \<Rightarrow>
            (case get (us_addrs (ru_set rt)) slot of
               None \<Rightarrow> None
             | Some target \<Rightarrow>
                 if target = current then None
                 else
                   let current_w = weight_of (ru_set rt) current;
                       target_w = ucast (weight_of (ru_set rt) target) :: u64
                   in if current_w = 0 \<or> target_w * 100 \<ge> ucast current_w * MIGRATE_RATIO_PCT
                      then Some target else None)))"

text \<open>
  Adopting the supervisor's set in \<open>housekeeping\<close>: an empty set is ignored, and a worker whose address
  disappeared may move at once. An \<open>Instant\<close> of the platform is a signed count, so its \<open>checked_sub\<close> does
  not fail.
\<close>

definition adopt_set :: "worker_config \<Rightarrow> upstream_set option \<Rightarrow> instant \<Rightarrow> runtime \<Rightarrow> runtime" where
  "adopt_set cfg read now rt =
    (case read of
       None \<Rightarrow> rt
     | Some us \<Rightarrow>
         if us_addrs us = [] then rt
         else
           let rt = (if list_all (\<lambda>a. a \<noteq> sa_ip (ru_my_remote rt)) (us_addrs us)
                     then rt\<lparr>ru_last_migrate := now - MIGRATE_MIN_INTERVAL\<rparr> else rt)
           in rt\<lparr>ru_slot := (case slot_for us (wc_child_idx cfg) of Some i \<Rightarrow> i | None \<Rightarrow> ru_slot rt), ru_set := us\<rparr>)"

text \<open>The move itself, in \<open>housekeeping\<close>: the measurement window is discarded.\<close>

definition migrate_to :: "worker_config \<Rightarrow> ip_addr \<Rightarrow> instant \<Rightarrow> runtime \<Rightarrow> runtime" where
  "migrate_to cfg target now rt =
    rt\<lparr>ru_my_remote := \<lparr>sa_ip = target, sa_port = u_port (wc_upstream cfg)\<rparr>,
       ru_slot := (case position (\<lambda>a. a = target) (us_addrs (ru_set rt)) of Some i \<Rightarrow> i | None \<Rightarrow> ru_slot rt),
       ru_last_migrate := now, ru_fail_streak := 0, ru_quality := quality_new\<rparr>"

section \<open>The quality measurement\<close>

definition capped_us :: "duration \<Rightarrow> nat" where
  "capped_us latency = nat (min (as_micros latency) (2 ^ 32 - 1))"

lemma capped_us_less: "capped_us latency < 2 ^ 32"
  by (simp add: capped_us_def nat_less_iff)

lemma capped_us_word:
  assumes "0 \<le> latency"
  shows "unat (of_int (min (as_micros latency) (2 ^ 32 - 1)) :: u64) = capped_us latency"
proof -
  let ?x = "min (as_micros latency) (2 ^ 32 - 1)"
  have x: "0 \<le> ?x" "?x < 2 ^ 64" using assms by (simp_all add: as_micros_def)
  have "unat (of_nat (nat ?x) :: u64) = nat ?x"
    by (rule unat_of_nat_u64) (use x in \<open>simp add: nat_less_iff\<close>)
  with x(1) show ?thesis by (simp add: capped_us_def)
qed

text \<open>The smoothing step, without overflow of the 64-bit arithmetic.\<close>

lemma on_success_ewma:
  assumes "0 \<le> latency" "unat (ql_ewma_us q) < 2 ^ 32"
  shows "unat (ql_ewma_us (on_success latency q)) =
    (if ql_ewma_us q = 0 then capped_us latency else (unat (ql_ewma_us q) * 3 + capped_us latency) div 4)"
proof -
  let ?e = "ql_ewma_us q" and ?u = "of_int (min (as_micros latency) (2 ^ 32 - 1)) :: u64"
  have u: "unat ?u = capped_us latency" by (rule capped_us_word [OF assms(1)])
  have "unat ?e * unat (3 :: u64) < 2 ^ LENGTH(64)" using assms(2) by simp
  then have e3: "unat (?e * 3) = unat ?e * 3" by (simp only: unat_mult_lem [THEN iffD1]) simp
  have "unat (?e * 3) + unat ?u < 2 ^ LENGTH(64)"
    using assms(2) capped_us_less [of latency] by (simp only: e3 u) simp
  then have "unat (?e * 3 + ?u) = unat ?e * 3 + capped_us latency"
    by (simp only: unat_add_lem [THEN iffD1] e3 u)
  then have "unat ((?e * 3 + ?u) div 4) = (unat ?e * 3 + capped_us latency) div 4" by (simp add: unat_div)
  with u show ?thesis by (simp only: on_success_def Let_def quality.simps quality.update_convs if_split) simp
qed

lemma smooth_between: "lo \<le> e \<Longrightarrow> e \<le> hi \<Longrightarrow> lo \<le> u \<Longrightarrow> u \<le> hi \<Longrightarrow> lo \<le> (e * 3 + u) div 4 \<and> (e * 3 + u) div 4 \<le> (hi :: nat)"
  by auto

lemma fold_success_bounds:
  assumes "list_all (\<lambda>l. 0 \<le> l \<and> lo \<le> capped_us l \<and> capped_us l \<le> hi) ls" "1 \<le> lo" "hi < 2 ^ 32"
    "lo \<le> unat (ql_ewma_us q)" "unat (ql_ewma_us q) \<le> hi"
  shows "lo \<le> unat (ql_ewma_us (fold on_success ls q)) \<and> unat (ql_ewma_us (fold on_success ls q)) \<le> hi"
  using assms
proof (induction ls arbitrary: q)
  case (Cons l ls)
  have nz: "ql_ewma_us q \<noteq> 0" using Cons.prems(2,4) by auto
  have "unat (ql_ewma_us (on_success l q)) = (unat (ql_ewma_us q) * 3 + capped_us l) div 4"
    using Cons.prems nz by (subst on_success_ewma) auto
  with smooth_between [OF Cons.prems(4,5)] Cons.prems(1) Cons.IH [of "on_success l q"] Cons.prems(2,3)
  show ?case by simp
qed simp

text \<open>
  C34. The latency estimate is always a true average: after any non-empty run of successful requests, each
  taking at least a microsecond, it lies between the shortest and the longest latency of the run, capped at
  the range of a 32-bit number of microseconds, and the 64-bit arithmetic never overflows; the score then
  published lies between the scores of those two latencies.
\<close>

theorem quality_estimate_bounds:
  assumes "ls \<noteq> []" "list_all (\<lambda>l. 0 \<le> l \<and> lo \<le> capped_us l \<and> capped_us l \<le> hi) ls" "1 \<le> lo" "hi < 2 ^ 32"
  shows "let q = fold on_success ls quality_new
    in lo \<le> unat (ql_ewma_us q) \<and> unat (ql_ewma_us q) \<le> hi
      \<and> 1000000 div hi \<le> unat (sm_score (quality_sample q addr flags))
      \<and> unat (sm_score (quality_sample q addr flags)) \<le> 1000000 div lo"
proof -
  define q where "q = fold on_success ls quality_new"
  from assms(1) obtain l ls' where ls: "ls = l # ls'" by (cases ls) auto
  have "unat (ql_ewma_us (on_success l quality_new)) = capped_us l"
    using assms(2) ls by (subst on_success_ewma) (simp_all add: quality_new_def)
  then have b: "lo \<le> unat (ql_ewma_us q) \<and> unat (ql_ewma_us q) \<le> hi"
    using fold_success_bounds [of lo hi ls' "on_success l quality_new"] assms ls by (simp add: q_def)
  have "min (ql_ewma_us q) (2 ^ 32 - 1) = ql_ewma_us q"
    using b assms(4) by (simp add: min_def word_le_nat_alt)
  moreover have "unat (ucast (ql_ewma_us q) :: u32) = unat (ql_ewma_us q)"
    using b assms(4) by (simp add: unsigned_ucast_eq take_bit_nat_eq_self)
  moreover have "(ucast (ql_ewma_us q) :: u32) \<noteq> 0"
    using b assms(3) \<open>unat (ucast (ql_ewma_us q) :: u32) = _\<close> by auto
  ultimately have "unat (sm_score (quality_sample q addr flags)) = 1000000 div unat (ql_ewma_us q)"
    by (simp add: quality_sample_def score_from_rtt_def unat_div)
  with b assms(3) show ?thesis unfolding q_def Let_def by (simp add: div_le_mono2)
qed

theorem quality_estimate_bounds_witness:
  "let q = fold on_success [from_millis 20, from_millis 40] quality_new
   in 20000 \<le> unat (ql_ewma_us q) \<and> unat (ql_ewma_us q) \<le> 40000"
  using quality_estimate_bounds [of "[from_millis 20, from_millis 40]" 20000 40000]
  by (simp add: capped_us_def as_micros_def from_millis_def Let_def)

section \<open>Staggered migration\<close>

lemma migration_slot_open_nat:
  assumes "0 < workers" "workers < 2 ^ 32" "idx < workers"
  shows "migration_slot_open t workers idx \<longleftrightarrow> unat t div 5 mod workers = idx"
proof -
  have u: "unat (of_nat workers :: u64) = workers" "unat (of_nat idx :: u64) = idx"
    using assms by (auto intro!: unat_of_nat_u64)
  have m: "max workers 1 = workers" "max (5 :: u64) 1 = 5"
    using assms(1) by (simp_all add: max_def word_le_nat_alt)
  have "unat (t div 5 mod of_nat workers) = unat t div 5 mod workers"
    by (simp add: unat_mod unat_div u)
  moreover have "unat (of_nat idx mod of_nat workers :: u64) = idx" using assms(3) by (simp add: unat_mod u)
  ultimately show ?thesis
    by (simp only: migration_slot_open_def Let_def MIGRATE_STAGGER_SECS_def m word_unat_eq_iff)
qed

lemma residue_reached:
  assumes "(idx :: nat) < w"
  shows "\<exists>k < w. (x + k) mod w = idx"
proof (intro exI conjI)
  let ?k = "(idx + (w - x mod w)) mod w"
  show "?k < w" using assms by simp
  have "(x + ?k) mod w = (x mod w + (idx + (w - x mod w))) mod w" by (simp add: mod_simps)
  also have "x mod w + (idx + (w - x mod w)) = idx + w"
    using mod_less_divisor [of w x] assms by linarith
  finally show "(x + ?k) mod w = idx" using assms by simp
qed



section \<open>When a worker moves\<close>

lemma max_by_key_snoc:
  "max_by_key key (xs @ [x]) =
    (case max_by_key key xs of None \<Rightarrow> Some x | Some y \<Rightarrow> if key y \<le> key x then Some x else Some y)"
  by (simp add: max_by_key_def)

lemma max_by_key_None: "max_by_key key xs = None \<longleftrightarrow> xs = []"
  by (cases xs rule: rev_cases) (auto simp: max_by_key_snoc max_by_key_def [of key "[]"] split: option.splits)

lemma max_by_key_Some: "max_by_key key xs = Some x \<Longrightarrow> x \<in> set xs \<and> (\<forall>y \<in> set xs. key y \<le> key x)"
proof (induction xs arbitrary: x rule: rev_induct)
  case (snoc z xs)
  show ?case
  proof (cases "max_by_key key xs")
    case None
    with snoc.prems show ?thesis by (simp add: max_by_key_snoc max_by_key_None)
  next
    case (Some y)
    with snoc.IH [OF Some] snoc.prems show ?thesis by (auto simp: max_by_key_snoc split: if_splits)
  qed
qed (simp add: max_by_key_def)

lemma best_alternative_Some:
  assumes "best_alternative us current = Some alt"
  shows "alt \<in> set (us_addrs us) \<and> alt \<noteq> current
    \<and> (\<exists>w. (alt, w) \<in> set (zip (us_addrs us) (us_weights us)) \<and> 0 < w
        \<and> (\<forall>(a, v) \<in> set (zip (us_addrs us) (us_weights us)). a \<noteq> current \<longrightarrow> v \<le> w))"
proof -
  from assms obtain w where "max_by_key snd (filter (\<lambda>(a, w). w > 0 \<and> a \<noteq> current) (zip (us_addrs us) (us_weights us)))
      = Some (alt, w)" by (auto simp: best_alternative_def)
  from max_by_key_Some [OF this]
  have m: "(alt, w) \<in> set (zip (us_addrs us) (us_weights us))" "0 < w" "alt \<noteq> current"
      "\<And>a v. (a, v) \<in> set (zip (us_addrs us) (us_weights us)) \<Longrightarrow> 0 < v \<Longrightarrow> a \<noteq> current \<Longrightarrow> v \<le> w"
    by fastforce+
  have "v \<le> w" if "(a, v) \<in> set (zip (us_addrs us) (us_weights us))" "a \<noteq> current" for a v
    using m(4) [OF that(1) _ that(2)] by (cases "v = 0") (auto simp: word_neq_0_conv)
  with m show ?thesis by (auto dest: set_zip_leftD)
qed

lemma weight_ratio:
  "ucast (a :: u32) * 100 \<ge> (ucast (b :: u32) * MIGRATE_RATIO_PCT :: u64) \<longleftrightarrow> 150 * unat b \<le> 100 * unat a"
proof -
  have m: "unat (ucast (x :: u32) * (k :: u64)) = unat x * unat k" if "unat k \<le> 150" for x k
  proof -
    have "unat x * unat k \<le> 2 ^ 32 * 150" using u32_less [of x] that by (intro mult_mono) auto
    then have "unat (ucast x :: u64) * unat k < 2 ^ LENGTH(64)" by (simp add: unat_ucast_u32)
    then show ?thesis by (simp only: unat_mult_lem [THEN iffD1] unat_ucast_u32)
  qed
  show ?thesis by (simp only: word_le_nat_alt MIGRATE_RATIO_PCT_def) (simp add: m mult.commute)
qed

text \<open>
  C18. A worker only moves for a reason: the target is another address of the published set, and either the
  connection has failed at least twice in a row, ten seconds have passed since the last move and the target
  is weighted strictly higher than the current address, being a heaviest alternative; or three minutes have
  passed, the worker's own window is open, the target is its assigned slot, and the current address is
  devalued to zero or the target is weighted at least half as much again.
\<close>

theorem migration_justified:
  assumes "migration_target rt cfg now secs = Some target"
  shows "let us = ru_set rt; current = sa_ip (ru_my_remote rt); since = now - ru_last_migrate rt in
    target \<in> set (us_addrs us) \<and> target \<noteq> current \<and> FAIL_MIGRATE_INTERVAL \<le> since
    \<and> (if 2 \<le> ru_fail_streak rt then
         weight_of us current < weight_of us target
         \<and> (\<exists>w. (target, w) \<in> set (zip (us_addrs us) (us_weights us)) \<and> 0 < w
             \<and> (\<forall>(a, v) \<in> set (zip (us_addrs us) (us_weights us)). a \<noteq> current \<longrightarrow> v \<le> w))
       else
         MIGRATE_MIN_INTERVAL \<le> since \<and> migration_slot_open secs (unat (us_workers us)) (ru_child_idx rt)
         \<and> (\<exists>slot. slot_for us (wc_child_idx cfg) = Some slot \<and> slot < length (us_addrs us) \<and> us_addrs us ! slot = target)
         \<and> (weight_of us current = 0 \<or> 150 * unat (weight_of us current) \<le> 100 * unat (weight_of us target)))"
proof (cases "2 \<le> ru_fail_streak rt")
  case True
  let ?c = "sa_ip (ru_my_remote rt)"
  from assms True obtain "\<not> saturating_duration_since now (ru_last_migrate rt) < FAIL_MIGRATE_INTERVAL"
      "best_alternative (ru_set rt) ?c = Some target" "weight_of (ru_set rt) ?c < weight_of (ru_set rt) target"
    by (auto simp: migration_target_def Let_def split: if_splits option.splits)
  with True best_alternative_Some [of "ru_set rt" ?c target] show ?thesis
    by (simp add: Let_def saturating_duration_since_def FAIL_MIGRATE_INTERVAL_def from_secs_def)
next
  case False
  let ?c = "sa_ip (ru_my_remote rt)" and ?us = "ru_set rt"
  from assms False obtain slot where "\<not> saturating_duration_since now (ru_last_migrate rt) < MIGRATE_MIN_INTERVAL"
      "migration_slot_open secs (unat (us_workers ?us)) (ru_child_idx rt)"
      "slot_for ?us (wc_child_idx cfg) = Some slot" "slot < length (us_addrs ?us)" "us_addrs ?us ! slot = target"
      "target \<noteq> ?c"
      "weight_of ?us ?c = 0 \<or> (ucast (weight_of ?us target) * 100 \<ge> (ucast (weight_of ?us ?c) * MIGRATE_RATIO_PCT :: u64))"
    by (auto simp: migration_target_def Let_def split: if_splits option.splits)
  with False show ?thesis
    by (auto simp: Let_def weight_ratio saturating_duration_since_def MIGRATE_MIN_INTERVAL_def
        FAIL_MIGRATE_INTERVAL_def from_secs_def)
qed

definition demo_set :: upstream_set where
  "demo_set = \<lparr>us_addrs = [V4 1, V4 2], us_weights = [10, 40], us_revision = 1, us_workers = 1, us_published = 0\<rparr>"

definition demo_worker :: worker_config where
  "demo_worker =
    \<lparr>wc_listen = \<lparr>sa_ip = V4 0, sa_port = 53\<rparr>,
     wc_upstream = \<lparr>u_host = ''d'', u_port = 443, u_path = ''/q'', u_authority = ''d''\<rparr>, wc_token = None,
     wc_timeout = from_secs 5, wc_pad = False, wc_busy_poll = False, wc_spin = False, wc_mlockall = False,
     wc_child_idx = 0\<rparr>"

definition demo_runtime :: runtime where
  "demo_runtime =
    \<lparr>ru_child_idx = 0, ru_fail_streak = 2, ru_set = demo_set, ru_my_remote = \<lparr>sa_ip = V4 1, sa_port = 443\<rparr>,
     ru_slot = 0, ru_last_migrate = 0, ru_quality = quality_new, ru_last_score = 0\<rparr>"

lemmas demo_defs = demo_set_def demo_worker_def demo_runtime_def

theorem migration_justified_witness:
  "\<exists>target. migration_target demo_runtime demo_worker (from_secs 11) 0 = Some target
    \<and> weight_of demo_set (V4 1) < weight_of demo_set target"
proof -
  have "migration_target demo_runtime demo_worker (from_secs 11) 0 = Some (V4 2)"
    by (simp add: migration_target_def demo_defs best_alternative_def max_by_key_def weight_of_def get_def
        saturating_duration_since_def FAIL_MIGRATE_INTERVAL_def from_secs_def word_less_nat_alt)
  with migration_justified [OF this] show ?thesis by (simp add: Let_def demo_runtime_def split: if_splits)
qed

end
