(* ===== verification/Worker.thy ===== *)
theory Worker
  imports Migration H3 Dns Base64url Assoc
begin

text \<open>
  The worker process of \<^verbatim>\<open>src/pkgs/microdoh3/src/worker.rs\<close>: it takes DNS queries from local clients, sends each on a
  new HTTP/3 request stream, and answers the client with the response or with SERVFAIL. The state record
  gathers the local variables of \<open>run\<close>; every handler of the event loop is one function from state to state.
  What sockets and the QUIC engine return is input, as in the theory of \<open>quic.rs\<close>. A handler returns \<^term>\<open>None\<close> where
  the code would panic.

  Three components of the state record effects instead of variables: \<open>w_sent\<close> lists the datagrams sent to clients, \<open>w_written\<close>
  the bytes written on QUIC streams, and the scores page is the shared one. Two are ghosts: each entry of
  \<open>w_sent\<close> also names the query it is sent for, and \<open>w_lost\<close> lists the requests whose entry in the pending map
  was overwritten by that of another request.
\<close>

section \<open>State\<close>

definition GET_MAX_DNS_LEN :: usize where "GET_MAX_DNS_LEN = 1400"
definition MAX_DNS_LEN :: usize where "MAX_DNS_LEN = 4096"
definition RECONNECT_BACKOFF_MAX :: duration where "RECONNECT_BACKOFF_MAX = from_secs 5"
definition MAX_QUEUED :: usize where "MAX_QUEUED = 64"

record pending =
  pe_query :: bytes
  pe_peer :: sock_addr
  pe_deadline :: instant
  pe_started :: instant

record queued_query =
  qd_query :: bytes
  qd_peer :: sock_addr
  qd_deadline :: instant

record reply =
  re_bytes :: bytes
  re_peer :: sock_addr
  re_query :: bytes

record worker =
  w_quic :: quic
  w_h3 :: h3
  w_pending :: "(u64 \<times> pending) list"
  w_queue :: "queued_query list"
  w_rt :: runtime
  w_goaway :: bool
  w_h3_ready :: bool
  w_reconnect_at :: "instant option"
  w_backoff :: duration
  w_last_seq :: u32
  w_scores :: shared_scores
  w_sent :: "reply list"
  w_written :: "(u64 \<times> bytes) list"
  w_lost :: "(bytes \<times> sock_addr) list"

abbreviation upd_rt :: "(runtime \<Rightarrow> runtime) \<Rightarrow> worker \<Rightarrow> worker" where
  "upd_rt f w \<equiv> w\<lparr>w_rt := f (w_rt w)\<rparr>"

definition count_failure :: "worker \<Rightarrow> worker" where
  "count_failure w = upd_rt (\<lambda>rt. rt\<lparr>ru_quality := on_failure (ru_quality rt)\<rparr>) w"

definition streak_failure :: "runtime \<Rightarrow> runtime" where
  "streak_failure rt = rt\<lparr>ru_fail_streak := saturating_add (ru_fail_streak rt) 1\<rparr>"

definition send_reply :: "bytes \<Rightarrow> bytes \<Rightarrow> sock_addr \<Rightarrow> worker \<Rightarrow> worker" where
  "send_reply body query peer w = w\<lparr>w_sent := w_sent w @ [\<lparr>re_bytes = body, re_peer = peer, re_query = query\<rparr>]\<rparr>"

definition send_servfail :: "bytes \<Rightarrow> sock_addr \<Rightarrow> worker \<Rightarrow> worker" where
  "send_servfail query peer w =
    (case build_servfail query [] of
       (True, out) \<Rightarrow> send_reply out query peer w
     | (False, _) \<Rightarrow> w)"

fun fail_all :: "(u64 \<times> pending) list \<Rightarrow> worker \<Rightarrow> worker" where
  "fail_all [] w = w"
| "fail_all ((_, p) # ps) w = fail_all ps (send_servfail (pe_query p) (pe_peer p) (count_failure w))"

definition fail_all_pending :: "worker \<Rightarrow> worker" where
  "fail_all_pending w = fail_all (w_pending w) (w\<lparr>w_pending := []\<rparr>)"

section \<open>Dispatching queries\<close>

text \<open>The message sent upstream: padded if configured, with a zero ID for GET.\<close>

definition wire_query :: "worker_config \<Rightarrow> bytes \<Rightarrow> bytes option" where
  "wire_query cfg query =
    (let use_get = length query \<le> GET_MAX_DNS_LEN in
     if wc_pad cfg \<or> use_get then
       Option.bind (if wc_pad cfg then map_option snd (pad_query query 128) else Some query) (\<lambda>query_vec.
         Some (if use_get \<and> length query_vec \<ge> 2 then query_vec[0 := 0, 1 := 0] else query_vec))
     else Some query)"

definition get_path :: "string \<Rightarrow> bytes \<Rightarrow> string" where
  "get_path path b64 = path @ (if CHR ''?'' \<in> set path then ''&'' else ''?'') @ ''dns='' @ bytes_str b64"

definition build_request :: "worker_config \<Rightarrow> bytes \<Rightarrow> bytes option" where
  "build_request cfg query =
    (let up = wc_upstream cfg in
     Option.bind (wire_query cfg query) (\<lambda>q.
       if length query \<le> GET_MAX_DNS_LEN then
         Option.bind (encode_into q (replicate (encoded_len (length q)) 0)) (\<lambda>(_, b64).
           if utf8_valid b64
           then Some (encode_request [] ''GET'' (u_authority up) (get_path (u_path up) b64) (wc_token cfg) None)
           else None)
       else Some (encode_request [] ''POST'' (u_authority up) (u_path up) (wc_token cfg) (Some q))))"

text \<open>What the engine does for one request: the stream opened, the outcomes of the writes, whether finishing works.\<close>

record dispatch_in =
  di_open :: "u64 option"
  di_writes :: "usize option list"
  di_finish :: bool

definition insert_pending :: "u64 \<Rightarrow> pending \<Rightarrow> worker \<Rightarrow> worker" where
  "insert_pending stream p w =
    w\<lparr>w_pending := AList.update stream p (w_pending w),
      w_lost := w_lost w @ (case map_of (w_pending w) stream of
                              None \<Rightarrow> [] | Some old \<Rightarrow> [(pe_query old, pe_peer old)])\<rparr>"

definition dispatch_query :: "worker_config \<Rightarrow> dispatch_in \<Rightarrow> bytes \<Rightarrow> sock_addr \<Rightarrow> instant \<Rightarrow> worker \<Rightarrow> worker option" where
  "dispatch_query cfg di query peer now w =
    (case open_bi (w_quic w) (di_open di) of
       None \<Rightarrow> Some (send_servfail query peer (count_failure w))
     | Some stream \<Rightarrow>
         Option.bind (build_request cfg query) (\<lambda>req_buf.
           case write_all (w_quic w) (di_writes di) req_buf of
             (taken, Inl _) \<Rightarrow> Some (send_servfail query peer (w\<lparr>w_written := w_written w @ [(stream, taken)]\<rparr>))
           | (taken, Inr _) \<Rightarrow>
               let w = w\<lparr>w_written := w_written w @ [(stream, taken)]\<rparr> in
               (case finish_stream (w_quic w) (di_finish di) of
                  Inl _ \<Rightarrow> Some (send_servfail query peer (count_failure w))
                | Inr _ \<Rightarrow>
                    Some (insert_pending stream
                      \<lparr>pe_query = query, pe_peer = peer, pe_deadline = now + wc_timeout cfg, pe_started = now\<rparr>
                      (w\<lparr>w_h3 := register_request (w_h3 w) stream\<rparr>)))))"

text \<open>\<open>drain_dns\<close>: the datagrams waiting, each with what the engine does should it be dispatched.\<close>

fun drain_dns :: "worker_config \<Rightarrow> instant \<Rightarrow> (bytes \<times> sock_addr \<times> dispatch_in) list \<Rightarrow> worker \<Rightarrow> worker option" where
  "drain_dns cfg now [] w = Some w"
| "drain_dns cfg now ((buf, peer, di) # ds) w =
    (let query = take MAX_DNS_LEN buf in
     if isl (validate_query query) then drain_dns cfg now ds w
     else if w_goaway w \<or> \<not> has_conn (w_quic w) then drain_dns cfg now ds (send_servfail query peer (count_failure w))
     else if \<not> w_h3_ready w then
       drain_dns cfg now ds
         (if length (w_queue w) \<ge> MAX_QUEUED then send_servfail query peer (count_failure w)
          else w\<lparr>w_queue := w_queue w @ [\<lparr>qd_query = query, qd_peer = peer, qd_deadline = now + wc_timeout cfg\<rparr>]\<rparr>)
     else Option.bind (dispatch_query cfg di query peer now w) (drain_dns cfg now ds))"

text \<open>\<open>flush_queue\<close>; \<open>dis k\<close> is what the engine does for the \<open>k\<close>-th query taken from the queue.\<close>

fun flush_queries :: "worker_config \<Rightarrow> instant \<Rightarrow> (nat \<Rightarrow> dispatch_in) \<Rightarrow> nat \<Rightarrow> queued_query list \<Rightarrow> worker \<Rightarrow> worker option" where
  "flush_queries cfg now dis k [] w = Some w"
| "flush_queries cfg now dis k (q # qs) w =
    (if qd_deadline q \<le> now
     then flush_queries cfg now dis (k + 1) qs (send_servfail (qd_query q) (qd_peer q) (count_failure w))
     else Option.bind (dispatch_query cfg (dis k) (qd_query q) (qd_peer q) now w) (flush_queries cfg now dis (k + 1) qs))"

definition flush_queue :: "worker_config \<Rightarrow> instant \<Rightarrow> (nat \<Rightarrow> dispatch_in) \<Rightarrow> worker \<Rightarrow> worker option" where
  "flush_queue cfg now dis w = flush_queries cfg now dis 0 (w_queue w) (w\<lparr>w_queue := []\<rparr>)"

section \<open>Connecting\<close>

definition send_preamble :: "quic \<Rightarrow> u64 option \<Rightarrow> usize option list \<Rightarrow> (u64 \<times> bytes) list" where
  "send_preamble q opened ws =
    (case open_control_uni q opened of
       Some ctrl \<Rightarrow> [(ctrl, fst (write_all q ws client_preamble))]
     | None \<Rightarrow> [])"

record connect_in =
  ci_conn :: "(nat \<times> bool) option"
  ci_sends1 :: "(proto_ecn transmit \<times> bool) list"
  ci_0rtt :: bool
  ci_control :: "u64 option"
  ci_writes :: "usize option list"
  ci_sends2 :: "(proto_ecn transmit \<times> bool) list"

definition connect_and_preamble :: "quic \<Rightarrow> connect_in \<Rightarrow> quic \<times> (u64 \<times> bytes) list \<times> (bool, quic_error) result" where
  "connect_and_preamble q ci =
    (case quic_connect q (ci_conn ci) (ci_sends1 ci) of
       (q, Inl e) \<Rightarrow> (q, [], Inl e)
     | (q, Inr _) \<Rightarrow>
         let ready = has_0rtt q (ci_0rtt ci);
             written = (if ready then send_preamble q (ci_control ci) (ci_writes ci) else [])
         in (case snd (quic_flush q (ci_sends2 ci)) of
               Inl e \<Rightarrow> (q, written, Inl e)
             | Inr _ \<Rightarrow> (q, written, Inr ready)))"

section \<open>QUIC events\<close>

text \<open>What comes with each event: the 0-RTT reading, the readable data, and the engine's answers to requests.\<close>

record event_in =
  ei_accepted :: bool
  ei_readable :: readable
  ei_chunks :: "chunk_next list"
  ei_control :: "u64 option"
  ei_writes :: "usize option list"
  ei_dispatch :: "nat \<Rightarrow> dispatch_in"

definition on_connected :: "worker_config \<Rightarrow> instant \<Rightarrow> event_in \<Rightarrow> worker \<Rightarrow> worker option" where
  "on_connected cfg now ei w =
    (let w = upd_rt (\<lambda>rt. rt\<lparr>ru_fail_streak := 0\<rparr>) (w\<lparr>w_backoff := 0, w_reconnect_at := None\<rparr>) in
     if \<not> w_h3_ready w then
       flush_queue cfg now (ei_dispatch ei)
         (w\<lparr>w_written := w_written w @ send_preamble (w_quic w) (ei_control ei) (ei_writes ei), w_h3_ready := True\<rparr>)
     else Some w)"

definition next_backoff :: "duration \<Rightarrow> duration" where
  "next_backoff b = min (b * 2 + from_millis 100) RECONNECT_BACKOFF_MAX"

definition on_connection_lost :: "instant \<Rightarrow> bool \<Rightarrow> worker \<Rightarrow> worker" where
  "on_connection_lost now app_closed w =
    (let w = upd_rt (\<lambda>rt. if app_closed then rt\<lparr>ru_fail_streak := 0\<rparr> else streak_failure rt) w;
         w = fail_all_pending w
     in w\<lparr>w_quic := drop_conn (w_quic w), w_h3 := h3_new, w_goaway := False, w_h3_ready := False,
          w_reconnect_at := Some (now + w_backoff w), w_backoff := next_backoff (w_backoff w)\<rparr>)"

definition on_stream_readable :: "u64 \<Rightarrow> event_in \<Rightarrow> worker \<times> h3_event list \<Rightarrow> worker \<times> h3_event list" where
  "on_stream_readable idx ei = (\<lambda>(w, evs).
     case read_stream (w_quic w) (ei_readable ei) (ei_chunks ei) (\<lambda>chunk (h, evs). h3_feed h idx chunk evs) (w_h3 w, evs) of
       ((h, evs), eof, read_err) \<Rightarrow>
         (case (if read_err then H3.reset h idx evs else if eof then H3.finish h idx evs else (h, evs)) of
            (h, evs) \<Rightarrow> (w\<lparr>w_h3 := h\<rparr>, evs)))"

fun quic_event :: "worker_config \<Rightarrow> instant \<Rightarrow> conn_event \<times> event_in \<Rightarrow> worker \<times> h3_event list
    \<Rightarrow> (worker \<times> h3_event list) option" where
  "quic_event cfg now (Connected, ei) (w, evs) = map_option (\<lambda>w. (w, evs)) (on_connected cfg now ei w)"
| "quic_event cfg now (ConnectionLost app_closed, ei) (w, evs) = Some (on_connection_lost now app_closed w, evs)"
| "quic_event cfg now (Readable idx, ei) (w, evs) = Some (on_stream_readable idx ei (w, evs))"
| "quic_event cfg now (Finished idx, ei) (w, evs) = Some (w, evs)"
| "quic_event cfg now (Stopped idx, ei) (w, evs) = Some (w, evs)"
| "quic_event cfg now (OtherEvent, ei) (w, evs) = Some (w, evs)"

fun quic_events :: "worker_config \<Rightarrow> instant \<Rightarrow> (conn_event \<times> event_in) list \<Rightarrow> worker \<times> h3_event list
    \<Rightarrow> (worker \<times> h3_event list) option" where
  "quic_events cfg now [] s = Some s"
| "quic_events cfg now (x # xs) s = Option.bind (quic_event cfg now x s) (quic_events cfg now xs)"

text \<open>The HTTP/3 events: the ID of the query is put back into a response of at least two bytes.\<close>

definition restore_id :: "bytes \<Rightarrow> bytes \<Rightarrow> bytes" where
  "restore_id query body =
    (if length body \<ge> 2 \<and> length query \<ge> 2 then body[0 := query ! 0, 1 := query ! 1] else body)"

fun apply_h3_event :: "instant \<Rightarrow> h3_event \<Rightarrow> worker \<Rightarrow> worker" where
  "apply_h3_event now (ResponseEv stream body) w =
    (case map_of (w_pending w) stream of
       None \<Rightarrow> w
     | Some p \<Rightarrow>
         send_reply (restore_id (pe_query p) body) (pe_query p) (pe_peer p)
           (upd_rt (\<lambda>rt. rt\<lparr>ru_quality := on_success (saturating_duration_since now (pe_started p)) (ru_quality rt)\<rparr>)
             (w\<lparr>w_pending := AList.delete stream (w_pending w)\<rparr>)))"
| "apply_h3_event now (FailedEv stream) w =
    (case map_of (w_pending w) stream of
       None \<Rightarrow> w
     | Some p \<Rightarrow>
         send_servfail (pe_query p) (pe_peer p)
           (count_failure (w\<lparr>w_pending := AList.delete stream (w_pending w)\<rparr>)))"
| "apply_h3_event now GoawayEv w =
    (if has_conn (w_quic w) then
       let w = w\<lparr>w_goaway := True\<rparr> in
       if w_pending w = [] then w\<lparr>w_reconnect_at := Some now\<rparr> else w
     else w)"

definition process_quic_events :: "worker_config \<Rightarrow> instant \<Rightarrow> (conn_event \<times> event_in) list \<Rightarrow> worker \<Rightarrow> worker option" where
  "process_quic_events cfg now polled w =
    (case poll_events (w_quic w) (map (\<lambda>(ev, ei). (ev, ei_accepted ei)) polled) of
       (q, evs) \<Rightarrow>
         map_option (\<lambda>(w, h3_events). fold (apply_h3_event now) h3_events w)
           (quic_events cfg now (zip evs (map snd polled)) (w\<lparr>w_quic := q\<rparr>, [])))"

section \<open>Housekeeping\<close>

fun expire_requests :: "(u64 \<times> pending) list \<Rightarrow> worker \<Rightarrow> worker" where
  "expire_requests [] w = w"
| "expire_requests ((k, _) # ks) w =
    expire_requests ks
      (case map_of (w_pending w) k of
         None \<Rightarrow> w
       | Some p \<Rightarrow>
           send_servfail (pe_query p) (pe_peer p)
             (count_failure (w\<lparr>w_pending := AList.delete k (w_pending w)\<rparr>)))"

definition expire_pending :: "instant \<Rightarrow> worker \<Rightarrow> worker" where
  "expire_pending now w = expire_requests (filter (\<lambda>(_, p). pe_deadline p \<le> now) (w_pending w)) w"

fun expire_queries :: "instant \<Rightarrow> queued_query list \<Rightarrow> worker \<Rightarrow> worker" where
  "expire_queries now [] w = w\<lparr>w_queue := []\<rparr>"
| "expire_queries now (q # qs) w =
    (if qd_deadline q \<le> now
     then expire_queries now qs (send_servfail (qd_query q) (qd_peer q) (count_failure w))
     else w\<lparr>w_queue := q # qs\<rparr>)"

definition expire_queue :: "instant \<Rightarrow> worker \<Rightarrow> worker" where
  "expire_queue now w = expire_queries now (w_queue w) w"

definition score_flags :: "worker \<Rightarrow> u32" where
  "score_flags w =
    (if has_conn (w_quic w) then
       FLAG_CONNECTED OR (if w_h3_ready w then 0 else FLAG_HANDSHAKING)
         OR (if zero_rtt_offered (w_quic w) then FLAG_ZERO_RTT else 0)
     else 0)"

definition publish_score :: "worker_config \<Rightarrow> instant \<Rightarrow> u64 \<Rightarrow> worker \<Rightarrow> worker" where
  "publish_score cfg now secs w =
    (if saturating_duration_since now (ru_last_score (w_rt w)) \<ge> SCORE_INTERVAL then
       upd_rt (\<lambda>rt. rt\<lparr>ru_quality := reset_window (ru_quality rt), ru_last_score := now\<rparr>)
         (w\<lparr>w_scores := score_write (w_scores w) (wc_child_idx cfg)
              (quality_sample (ru_quality (w_rt w)) (Some (sa_ip (ru_my_remote (w_rt w)))) (score_flags w)) secs\<rparr>)
     else w)"

definition consider_migration :: "worker_config \<Rightarrow> instant \<Rightarrow> u64 \<Rightarrow> worker \<Rightarrow> worker" where
  "consider_migration cfg now secs w =
    (if w_reconnect_at w = None then
       (case migration_target (w_rt w) cfg now secs of
          None \<Rightarrow> w
        | Some target \<Rightarrow> (upd_rt (migrate_to cfg target now) w)\<lparr>w_reconnect_at := Some now\<rparr>)
     else w)"

definition reconnect :: "instant \<Rightarrow> connect_in \<Rightarrow> worker \<Rightarrow> worker" where
  "reconnect now ci w =
    (case w_reconnect_at w of
       None \<Rightarrow> w
     | Some t \<Rightarrow>
         if t \<le> now then
           let w = (if has_conn (w_quic w)
                    then w\<lparr>w_quic := drop_conn (w_quic w), w_h3 := h3_new, w_h3_ready := False, w_goaway := False\<rparr>
                    else w)
           in (case connect_and_preamble (w_quic w) ci of
                 (q, written, r) \<Rightarrow>
                   let w = w\<lparr>w_quic := q, w_written := w_written w @ written\<rparr> in
                   (case r of
                      Inr ready \<Rightarrow> w\<lparr>w_h3_ready := ready, w_reconnect_at := None\<rparr>
                    | Inl _ \<Rightarrow> (upd_rt streak_failure w)\<lparr>w_reconnect_at := Some (now + from_secs 1)\<rparr>))
         else w)"

record house_in =
  hi_shared :: shared_resolve
  hi_score_mono :: u64
  hi_mono :: u64
  hi_connect :: connect_in

definition housekeeping :: "worker_config \<Rightarrow> house_in \<Rightarrow> instant \<Rightarrow> worker \<Rightarrow> worker" where
  "housekeeping cfg hi now w =
    (let w = expire_pending now w;
         (read, seq) = read_if_changed (hi_shared hi) (w_last_seq w);
         w = upd_rt (adopt_set cfg read now) (w\<lparr>w_last_seq := seq\<rparr>);
         w = expire_queue now w;
         w = publish_score cfg now (hi_score_mono hi) w;
         w = (if w_goaway w \<and> w_pending w = [] then w\<lparr>w_reconnect_at := Some now\<rparr> else w);
         w = consider_migration cfg now (hi_mono hi) w
     in reconnect now (hi_connect hi) w)"

section \<open>The event loop\<close>

text \<open>The deadline the timer is armed with.\<close>

definition earlier :: "instant option \<Rightarrow> instant option \<Rightarrow> instant option" where
  "earlier x d = (case d of None \<Rightarrow> x | Some t \<Rightarrow> Some (case x of None \<Rightarrow> t | Some n \<Rightarrow> min n t))"

definition min_deadline :: "(u64 \<times> pending) list \<Rightarrow> instant option" where
  "min_deadline ps =
    (case map (pe_deadline \<circ> snd) ps of [] \<Rightarrow> None | d # ds \<Rightarrow> Some (fold min ds d))"

definition next_deadline :: "instant option \<Rightarrow> worker \<Rightarrow> instant option" where
  "next_deadline conn_timeout w =
    (let nxt = next_timeout (w_quic w) conn_timeout;
         nxt = earlier nxt (w_reconnect_at w);
         nxt = earlier nxt (min_deadline (w_pending w))
     in case w_queue w of [] \<Rightarrow> nxt | q # _ \<Rightarrow> earlier nxt (Some (qd_deadline q)))"

datatype worker_event =
    DnsReady "(bytes \<times> sock_addr \<times> dispatch_in) list"
  | QuicReady "(conn_event \<times> event_in) list"
  | TimerFired bool house_in
  | SignalRead bool

datatype stop = Panicked | RunError

text \<open>One event of the loop; the flag is \<open>shutdown\<close>. A failed \<open>handle_timeout\<close> ends \<open>run\<close> with an error.\<close>

fun handle_event :: "worker_config \<Rightarrow> instant \<Rightarrow> worker_event \<Rightarrow> worker \<times> bool \<Rightarrow> (worker \<times> bool, stop) result" where
  "handle_event cfg now (DnsReady ds) (w, sd) =
    map_err (\<lambda>_. Panicked) (bindE (ok_or (drain_dns cfg now ds w) ()) (\<lambda>w. Inr (w, sd)))"
| "handle_event cfg now (QuicReady evs) (w, sd) =
    map_err (\<lambda>_. Panicked) (bindE (ok_or (process_quic_events cfg now evs w) ()) (\<lambda>w. Inr (w, sd)))"
| "handle_event cfg now (TimerFired ok hi) (w, sd) =
    (if ok then Inr (housekeeping cfg hi now w, sd) else Inl RunError)"
| "handle_event cfg now (SignalRead signaled) (w, sd) = Inr (w, if signaled then True else sd)"

fun handle_events :: "worker_config \<Rightarrow> instant \<Rightarrow> worker_event list \<Rightarrow> worker \<times> bool \<Rightarrow> (worker \<times> bool, stop) result" where
  "handle_events cfg now [] s = Inr s"
| "handle_events cfg now (ev # evs) s = bindE (handle_event cfg now ev s) (handle_events cfg now evs)"

definition check_drained :: "instant \<Rightarrow> bool \<Rightarrow> worker \<Rightarrow> worker" where
  "check_drained now drained w =
    (if has_conn (w_quic w) \<and> is_drained (w_quic w) drained then
       let w = fail_all_pending (upd_rt streak_failure w) in
       w\<lparr>w_quic := drop_conn (w_quic w), w_h3 := h3_new, w_goaway := False, w_h3_ready := False,
         w_reconnect_at := (case w_reconnect_at w of None \<Rightarrow> Some (now + w_backoff w) | t \<Rightarrow> t)\<rparr>
     else w)"

text \<open>One pass of the \<open>while\<close> loop, and the code after it when the pass has seen the shutdown signal.\<close>

definition worker_pass :: "worker_config \<Rightarrow> instant \<Rightarrow> worker_event list \<Rightarrow> bool \<Rightarrow> worker \<Rightarrow> (worker \<times> bool, stop) result" where
  "worker_pass cfg now evs drained w =
    bindE (handle_events cfg now evs (w, False)) (\<lambda>(w, shutdown).
      let w = check_drained now drained w in
      Inr (if shutdown then fail_all_pending w else w, shutdown))"

text \<open>The start of \<open>run\<close> with the set read from the resolve page and its sequence number.\<close>

definition worker_init :: "worker_config \<Rightarrow> upstream_set \<Rightarrow> u32 \<Rightarrow> shared_scores \<Rightarrow> instant \<Rightarrow> connect_in \<Rightarrow> (worker, stop) result" where
  "worker_init cfg us seq scores now ci =
    (if us_addrs us = [] then Inl RunError
     else
       bindE (ok_or (runtime_new us cfg now) Panicked) (\<lambda>rt.
         case connect_and_preamble quic_new ci of
           (q, written, Inl _) \<Rightarrow> Inl RunError
         | (q, written, Inr ready) \<Rightarrow>
             Inr \<lparr>w_quic = q, w_h3 = h3_new, w_pending = [], w_queue = [], w_rt = rt, w_goaway = False,
                  w_h3_ready = ready, w_reconnect_at = None, w_backoff = 0, w_last_seq = seq, w_scores = scores,
                  w_sent = [], w_written = written, w_lost = []\<rparr>))"

text \<open>
  The \<open>while\<close> loop over the passes that happen; it stops with the pass that sees the signal, and the rest
  of the passes is returned unused.
\<close>

type_synonym pass = "instant \<times> worker_event list \<times> bool"

fun worker_run :: "worker_config \<Rightarrow> pass list \<Rightarrow> worker \<Rightarrow> (worker \<times> bool \<times> pass list, stop) result" where
  "worker_run cfg [] w = Inr (w, False, [])"
| "worker_run cfg ((now, evs, drained) # ps) w =
    bindE (worker_pass cfg now evs drained w) (\<lambda>(w, shutdown).
      if shutdown then Inr (w, True, ps) else worker_run cfg ps w)"

end
