(* ===== verification/Answers.thy ===== *)
theory Answers
  imports Worker
begin

text \<open>
  Every accepted query is answered exactly once. The ledger of a worker is what it owes (queries in flight or
  queued), what it has answered and what it has lost; every handler of the event loop keeps it, apart from
  the queries it accepts. The contract of a handler is a locale, interpreted on the three handlers.
\<close>

section \<open>The ledger\<close>

definition valid_query :: "bytes \<Rightarrow> bool" where
  "valid_query q \<longleftrightarrow> validate_query q = Inr ()"

definition owed_pending :: "(u64 \<times> pending) list \<Rightarrow> (bytes \<times> sock_addr) multiset" where
  "owed_pending ps = mset (map (\<lambda>(_, p). (pe_query p, pe_peer p)) ps)"

definition owed_queue :: "queued_query list \<Rightarrow> (bytes \<times> sock_addr) multiset" where
  "owed_queue qs = mset (map (\<lambda>q. (qd_query q, qd_peer q)) qs)"

definition owed :: "worker \<Rightarrow> (bytes \<times> sock_addr) multiset" where
  "owed w = owed_pending (w_pending w) + owed_queue (w_queue w)"

definition answered :: "worker \<Rightarrow> (bytes \<times> sock_addr) multiset" where
  "answered w = mset (map (\<lambda>r. (re_query r, re_peer r)) (w_sent w))"

definition ledger :: "worker \<Rightarrow> (bytes \<times> sock_addr) multiset" where
  "ledger w = owed w + answered w + mset (w_lost w)"

definition accepted :: "(bytes \<times> sock_addr \<times> dispatch_in) list \<Rightarrow> (bytes \<times> sock_addr) multiset" where
  "accepted ds =
    mset [(take MAX_DNS_LEN buf, peer). (buf, peer, di) \<leftarrow> ds, \<not> isl (validate_query (take MAX_DNS_LEN buf))]"

text \<open>A reply carries the ID of its query, or is too short to carry one.\<close>

definition reply_ok :: "reply \<Rightarrow> bool" where
  "reply_ok r \<longleftrightarrow> length (re_bytes r) < 2 \<or> take 2 (re_bytes r) = take 2 (re_query r)"

definition pending_ok :: "(u64 \<times> pending) list \<Rightarrow> bool" where
  "pending_ok ps \<longleftrightarrow> distinct (map fst ps) \<and> list_all (\<lambda>(_, p). valid_query (pe_query p)) ps"

definition queue_ok :: "queued_query list \<Rightarrow> bool" where
  "queue_ok qs \<longleftrightarrow> length qs \<le> MAX_QUEUED \<and> list_all (\<lambda>q. valid_query (qd_query q)) qs"

definition good :: "worker \<Rightarrow> bool" where
  "good w \<longleftrightarrow> pending_ok (w_pending w) \<and> queue_ok (w_queue w) \<and> list_all reply_ok (w_sent w)"

lemmas ledger_defs = ledger_def owed_def answered_def owed_pending_def owed_queue_def

lemma isl_validate: "isl (validate_query q) \<longleftrightarrow> \<not> valid_query q"
  by (cases "validate_query q") (auto simp: valid_query_def)

lemma accepted_simps:
  "accepted [] = {#}"
  "accepted ((buf, peer, di) # ds) =
    (if valid_query (take MAX_DNS_LEN buf) then {#(take MAX_DNS_LEN buf, peer)#} else {#}) + accepted ds"
  by (simp_all add: accepted_def isl_validate)

subsection \<open>Replies\<close>

lemma valid_length: "valid_query q \<Longrightarrow> 12 \<le> length q"
  by (simp add: valid_query_def validate_query_iff)

lemma send_servfail_valid:
  assumes "valid_query q"
  shows "send_servfail q peer w = send_reply (servfail_header (take 12 q @ echoed_question q)) q peer w"
    and "reply_ok \<lparr>re_bytes = servfail_header (take 12 q @ echoed_question q), re_peer = peer, re_query = q\<rparr>"
  using valid_length [OF assms]
  by (simp_all add: send_servfail_def build_servfail_eq reply_ok_def servfail_header_take2)

lemma restore_id_ok: "valid_query q \<Longrightarrow> reply_ok \<lparr>re_bytes = restore_id q body, re_peer = peer, re_query = q\<rparr>"
proof -
  assume "valid_query q"
  then have q: "2 \<le> length q" using valid_length by fastforce
  show ?thesis
  proof (cases "2 \<le> length body")
    case True
    then obtain a b bs where "body = a # b # bs" by (auto simp: numeral_2_eq_2 Suc_le_length_iff)
    moreover from q obtain c d qs where "q = c # d # qs" by (auto simp: numeral_2_eq_2 Suc_le_length_iff)
    ultimately show ?thesis by (simp add: reply_ok_def restore_id_def numeral_2_eq_2)
  qed (simp add: reply_ok_def restore_id_def)
qed

lemma count_failure_frame [simp]:
  "w_pending (count_failure w) = w_pending w" "w_queue (count_failure w) = w_queue w"
  "w_sent (count_failure w) = w_sent w" "w_lost (count_failure w) = w_lost w" "w_quic (count_failure w) = w_quic w"
  "w_goaway (count_failure w) = w_goaway w" "w_h3_ready (count_failure w) = w_h3_ready w"
  "w_h3 (count_failure w) = w_h3 w"
  by (simp_all add: count_failure_def)

lemma send_reply_frame [simp]:
  "w_pending (send_reply b q peer w) = w_pending w" "w_queue (send_reply b q peer w) = w_queue w"
  "w_lost (send_reply b q peer w) = w_lost w" "w_quic (send_reply b q peer w) = w_quic w"
  "w_sent (send_reply b q peer w) = w_sent w @ [\<lparr>re_bytes = b, re_peer = peer, re_query = q\<rparr>]"
  "w_goaway (send_reply b q peer w) = w_goaway w" "w_h3_ready (send_reply b q peer w) = w_h3_ready w"
  "w_h3 (send_reply b q peer w) = w_h3 w"
  by (simp_all add: send_reply_def)

lemma servfail_counted:
  assumes "valid_query q"
  shows "ledger (send_servfail q peer w) = add_mset (q, peer) (ledger w)"
    and "good (send_servfail q peer w) = good w"
    and "w_pending (send_servfail q peer w) = w_pending w" and "w_queue (send_servfail q peer w) = w_queue w"
    and "w_quic (send_servfail q peer w) = w_quic w"
  using send_servfail_valid [OF assms] by (simp_all add: ledger_defs good_def)

lemma failure_counted [simp]: "ledger (count_failure w) = ledger w" "good (count_failure w) = good w"
  by (simp_all add: ledger_defs good_def)

subsection \<open>Requests\<close>

lemma pad_query_total: "valid_query q \<Longrightarrow> \<exists>r. pad_query q n = Some r"
  using valid_length by (cases "length q + (if has_edns0 q then 4 else 15) < n") (auto simp: pad_query_eq)

lemma letters_utf8: "utf8_valid (letters input)"
proof -
  have "\<forall>b \<in> set ALPHABET. b \<le> 0x7F" by (simp add: ALPHABET_def as_bytes_def)
  then show ?thesis using letters_subset by (intro utf8_valid_ascii) blast
qed

lemma wire_query_total: "valid_query q \<Longrightarrow> \<exists>r. wire_query cfg q = Some r"
  using pad_query_total [of q 128] by (auto simp: wire_query_def Let_def)

lemma build_request_total: "valid_query q \<Longrightarrow> \<exists>r. build_request cfg q = Some r"
  using wire_query_total [of q cfg] by (auto simp: build_request_def Let_def encode_into_letters letters_utf8)

lemma owed_pending_update:
  assumes "distinct (map fst ps)"
  shows "owed_pending (AList.update k p ps)
      + mset (case map_of ps k of None \<Rightarrow> [] | Some old \<Rightarrow> [(pe_query old, pe_peer old)])
    = add_mset (pe_query p, pe_peer p) (owed_pending ps)"
proof (cases "map_of ps k")
  case (Some old)
  then obtain M where M: "mset ps = add_mset (k, old) M" by (metis alist_delete_mset [OF assms])
  with Some show ?thesis by (simp add: owed_pending_def alist_update_mset [OF assms] add_mset_commute)
qed (simp add: owed_pending_def alist_update_mset [OF assms])

lemma owed_pending_delete:
  assumes "distinct (map fst ps)" "map_of ps k = Some p"
  shows "owed_pending ps = add_mset (pe_query p, pe_peer p) (owed_pending (AList.delete k ps))"
  using alist_delete_mset [OF assms] by (simp add: owed_pending_def)

lemma pending_ok_update: "pending_ok ps \<Longrightarrow> valid_query (pe_query p) \<Longrightarrow> pending_ok (AList.update k p ps)"
proof -
  assume a: "pending_ok ps" "valid_query (pe_query p)"
  have "list_all (\<lambda>(_, p). valid_query (pe_query p)) (AList.update k p ps)"
    using a by (induction ps) (auto simp: pending_ok_def)
  with a(1) show ?thesis by (simp add: pending_ok_def distinct_update)
qed

lemma pending_ok_delete: "pending_ok ps \<Longrightarrow> pending_ok (AList.delete k ps)"
  using alist_delete_subset by (fastforce simp: pending_ok_def list_all_iff alist_delete_keys)

lemma pending_ok_lookup: "pending_ok ps \<Longrightarrow> map_of ps k = Some p \<Longrightarrow> valid_query (pe_query p)"
  by (auto simp: pending_ok_def list_all_iff dest!: map_of_SomeD)

lemma insert_counted:
  assumes "good w" "valid_query (pe_query p)"
  shows "good (insert_pending k p w)"
    and "ledger (insert_pending k p w) = add_mset (pe_query p, pe_peer p) (ledger w)"
proof -
  from assms have "distinct (map fst (w_pending w))" by (simp add: good_def pending_ok_def)
  from owed_pending_update [OF this, of k p]
  show "ledger (insert_pending k p w) = add_mset (pe_query p, pe_peer p) (ledger w)"
    by (simp add: ledger_def owed_def answered_def insert_pending_def ac_simps)
  show "good (insert_pending k p w)" using assms by (simp add: good_def insert_pending_def pending_ok_update)
qed

lemma insert_queue: "w_queue (insert_pending k p w) = w_queue w"
  by (simp add: insert_pending_def)

lemma delete_counted:
  assumes "good w" "map_of (w_pending w) k = Some p"
  shows "good (w\<lparr>w_pending := AList.delete k (w_pending w)\<rparr>)"
    and "ledger w = add_mset (pe_query p, pe_peer p) (ledger (w\<lparr>w_pending := AList.delete k (w_pending w)\<rparr>))"
  using assms owed_pending_delete [of "w_pending w" k p]
  by (simp_all add: good_def pending_ok_delete ledger_def owed_def answered_def)
    (simp add: pending_ok_def)

subsection \<open>What does not touch the ledger\<close>

lemma frame [simp]:
  "ledger (w\<lparr>w_quic := x1\<rparr>) = ledger w" "good (w\<lparr>w_quic := x1\<rparr>) = good w"
  "ledger (w\<lparr>w_h3 := x2\<rparr>) = ledger w" "good (w\<lparr>w_h3 := x2\<rparr>) = good w"
  "ledger (w\<lparr>w_rt := x3\<rparr>) = ledger w" "good (w\<lparr>w_rt := x3\<rparr>) = good w"
  "ledger (w\<lparr>w_goaway := x4\<rparr>) = ledger w" "good (w\<lparr>w_goaway := x4\<rparr>) = good w"
  "ledger (w\<lparr>w_h3_ready := x5\<rparr>) = ledger w" "good (w\<lparr>w_h3_ready := x5\<rparr>) = good w"
  "ledger (w\<lparr>w_reconnect_at := x6\<rparr>) = ledger w" "good (w\<lparr>w_reconnect_at := x6\<rparr>) = good w"
  "ledger (w\<lparr>w_backoff := x7\<rparr>) = ledger w" "good (w\<lparr>w_backoff := x7\<rparr>) = good w"
  "ledger (w\<lparr>w_last_seq := x8\<rparr>) = ledger w" "good (w\<lparr>w_last_seq := x8\<rparr>) = good w"
  "ledger (w\<lparr>w_scores := x9\<rparr>) = ledger w" "good (w\<lparr>w_scores := x9\<rparr>) = good w"
  "ledger (w\<lparr>w_written := x10\<rparr>) = ledger w" "good (w\<lparr>w_written := x10\<rparr>) = good w"
  by (simp_all add: ledger_defs good_def)

section \<open>Taking queries\<close>

lemma dispatch_keeps:
  assumes "good w" "valid_query q"
  shows "\<exists>w'. dispatch_query cfg di q peer now w = Some w' \<and> good w'
    \<and> ledger w' = add_mset (q, peer) (ledger w) \<and> w_queue w' = w_queue w"
proof -
  obtain req where req: "build_request cfg q = Some req" using build_request_total [OF assms(2)] by blast
  show ?thesis
    using assms by (auto simp: dispatch_query_def req servfail_counted insert_counted insert_queue Let_def
        split: option.split prod.split sum.split)
qed

lemma push_queue_counted:
  assumes "good w" "valid_query (qd_query q)" "length (w_queue w) < MAX_QUEUED"
  shows "good (w\<lparr>w_queue := w_queue w @ [q]\<rparr>)"
    and "ledger (w\<lparr>w_queue := w_queue w @ [q]\<rparr>) = add_mset (qd_query q, qd_peer q) (ledger w)"
  using assms by (simp_all add: good_def queue_ok_def ledger_defs)

lemma drain_keeps:
  "good w \<Longrightarrow> \<exists>w'. drain_dns cfg now ds w = Some w' \<and> good w' \<and> ledger w' = ledger w + accepted ds"
proof (induction ds arbitrary: w)
  case (Cons d ds)
  obtain buf peer di where d: "d = (buf, peer, di)" by (cases d)
  let ?q = "take MAX_DNS_LEN buf"
  have step: ?case
    if "good w1" "ledger w1 = add_mset (?q, peer) (ledger w)" "valid_query ?q"
      "drain_dns cfg now (d # ds) w = drain_dns cfg now ds w1" for w1
    using Cons.IH [OF that(1)] that(2-4) by (simp add: d accepted_simps ac_simps)
  show ?case
  proof (cases "valid_query ?q")
    case False
    with Cons show ?thesis by (simp add: d isl_validate accepted_simps)
  next
    case v: True
    consider "w_goaway w \<or> \<not> has_conn (w_quic w) \<or> (\<not> w_h3_ready w \<and> MAX_QUEUED \<le> length (w_queue w))"
      | "\<not> w_goaway w" "has_conn (w_quic w)" "\<not> w_h3_ready w" "length (w_queue w) < MAX_QUEUED"
      | "\<not> w_goaway w" "has_conn (w_quic w)" "w_h3_ready w" by force
    then show ?thesis
    proof cases
      case 1
      with v Cons.prems show ?thesis
        by (intro step [of "send_servfail ?q peer (count_failure w)"])
          (auto simp: d isl_validate servfail_counted Let_def)
    next
      case 2
      let ?new = "\<lparr>qd_query = ?q, qd_peer = peer, qd_deadline = now + wc_timeout cfg\<rparr>"
      from 2 v Cons.prems push_queue_counted [of w ?new] show ?thesis
        by (intro step [of "w\<lparr>w_queue := w_queue w @ [?new]\<rparr>"]) (simp_all add: d isl_validate)
    next
      case 3
      obtain w1 where w1: "dispatch_query cfg di ?q peer now w = Some w1" "good w1"
          "ledger w1 = add_mset (?q, peer) (ledger w)" using dispatch_keeps [OF Cons.prems v] by blast
      with 3 v show ?thesis by (intro step [of w1]) (simp_all add: d isl_validate)
    qed
  qed
qed (simp add: accepted_simps)

lemma flush_keeps:
  "good w \<Longrightarrow> list_all (\<lambda>q. valid_query (qd_query q)) qs \<Longrightarrow>
    \<exists>w'. flush_queries cfg now dis k qs w = Some w' \<and> good w' \<and> ledger w' = ledger w + owed_queue qs"
proof (induction qs arbitrary: k w)
  case (Cons q qs)
  obtain w1 where w1: "dispatch_query cfg (dis k) (qd_query q) (qd_peer q) now w = Some w1" "good w1"
      "ledger w1 = add_mset (qd_query q, qd_peer q) (ledger w)"
    using dispatch_keeps [OF Cons.prems(1)] Cons.prems(2) by auto blast
  let ?w2 = "send_servfail (qd_query q) (qd_peer q) (count_failure w)"
  have w2: "good ?w2" "ledger ?w2 = add_mset (qd_query q, qd_peer q) (ledger w)"
    using Cons.prems by (simp_all add: servfail_counted)
  from Cons.IH [OF w1(2), of "k + 1"] Cons.IH [OF w2(1), of "k + 1"] Cons.prems(2) w1 w2(2)
  show ?case by (simp add: owed_queue_def)
qed (simp add: owed_queue_def)

lemma flush_queue_keeps:
  assumes "good w"
  shows "\<exists>w'. flush_queue cfg now dis w = Some w' \<and> good w' \<and> ledger w' = ledger w"
proof -
  have "good (w\<lparr>w_queue := []\<rparr>)" "list_all (\<lambda>q. valid_query (qd_query q)) (w_queue w)"
    using assms by (simp_all add: good_def queue_ok_def)
  moreover have "ledger (w\<lparr>w_queue := []\<rparr>) + owed_queue (w_queue w) = ledger w"
    by (simp add: ledger_def owed_def answered_def owed_queue_def)
  ultimately show ?thesis using flush_keeps [of "w\<lparr>w_queue := []\<rparr>" "w_queue w" cfg now dis 0]
    by (simp add: flush_queue_def)
qed

lemma fail_all_keeps:
  "good w \<Longrightarrow> list_all (\<lambda>(_, p). valid_query (pe_query p)) ps \<Longrightarrow>
    good (fail_all ps w) \<and> ledger (fail_all ps w) = ledger w + owed_pending ps
    \<and> w_pending (fail_all ps w) = w_pending w \<and> w_queue (fail_all ps w) = w_queue w"
  by (induction ps arbitrary: w) (auto simp: servfail_counted owed_pending_def)

lemma fail_all_pending_keeps:
  assumes "good w"
  shows "good (fail_all_pending w)" "ledger (fail_all_pending w) = ledger w"
    "w_pending (fail_all_pending w) = []" "w_queue (fail_all_pending w) = w_queue w"
proof -
  have "good (w\<lparr>w_pending := []\<rparr>)" "list_all (\<lambda>(_, p). valid_query (pe_query p)) (w_pending w)"
    using assms by (simp_all add: good_def pending_ok_def)
  moreover have "ledger (w\<lparr>w_pending := []\<rparr>) + owed_pending (w_pending w) = ledger w"
    by (simp add: ledger_def owed_def answered_def owed_pending_def)
  ultimately show "good (fail_all_pending w)" "ledger (fail_all_pending w) = ledger w"
    "w_pending (fail_all_pending w) = []" "w_queue (fail_all_pending w) = w_queue w"
    using fail_all_keeps [of "w\<lparr>w_pending := []\<rparr>" "w_pending w"] by (simp_all add: fail_all_pending_def)
qed

section \<open>QUIC events\<close>

lemma on_connected_keeps:
  "good w \<Longrightarrow> \<exists>w'. on_connected cfg now ei w = Some w' \<and> good w' \<and> ledger w' = ledger w"
proof -
  assume w: "good w"
  let ?w1 = "upd_rt (\<lambda>rt. rt\<lparr>ru_fail_streak := 0\<rparr>) (w\<lparr>w_backoff := 0, w_reconnect_at := None\<rparr>)"
  let ?w2 = "?w1\<lparr>w_written := w_written ?w1 @ send_preamble (w_quic ?w1) (ei_control ei) (ei_writes ei), w_h3_ready := True\<rparr>"
  have "good ?w2" "ledger ?w2 = ledger w" using w by simp_all
  with flush_queue_keeps [of ?w2 cfg now "ei_dispatch ei"] w show ?thesis by (simp add: on_connected_def Let_def)
qed

lemma on_connection_lost_keeps:
  "good w \<Longrightarrow> good (on_connection_lost now app w) \<and> ledger (on_connection_lost now app w) = ledger w"
  by (simp add: on_connection_lost_def Let_def fail_all_pending_keeps)

lemma on_stream_readable_keeps:
  "good w \<Longrightarrow> good (fst (on_stream_readable idx ei (w, evs)))
    \<and> ledger (fst (on_stream_readable idx ei (w, evs))) = ledger w"
  by (simp add: on_stream_readable_def split: prod.split)

lemma quic_event_keeps:
  "good w \<Longrightarrow> \<exists>w' evs'. quic_event cfg now x (w, evs) = Some (w', evs') \<and> good w' \<and> ledger w' = ledger w"
proof -
  assume w: "good w"
  obtain ev ei where x: "x = (ev, ei)" by (cases x)
  show ?thesis
  proof (cases ev)
    case Connected
    with on_connected_keeps [OF w, of cfg now ei] show ?thesis by (auto simp: x)
  next
    case (Readable idx)
    obtain w' evs' where r: "on_stream_readable idx ei (w, evs) = (w', evs')"
      by (cases "on_stream_readable idx ei (w, evs)")
    with on_stream_readable_keeps [OF w, of idx ei evs] Readable show ?thesis by (simp add: x)
  qed (use w on_connection_lost_keeps in \<open>simp_all add: x\<close>)
qed

lemma quic_events_keeps:
  "good w \<Longrightarrow> \<exists>w' evs'. quic_events cfg now xs (w, evs) = Some (w', evs') \<and> good w' \<and> ledger w' = ledger w"
proof (induction xs arbitrary: w evs)
  case (Cons x xs)
  obtain w1 evs1 where w1: "quic_event cfg now x (w, evs) = Some (w1, evs1)" "good w1" "ledger w1 = ledger w"
    using quic_event_keeps [OF Cons.prems] by blast
  from Cons.IH [OF w1(2), of evs1] w1 show ?case by simp
qed simp

lemma send_reply_counted:
  "ledger (send_reply b q peer w) = add_mset (q, peer) (ledger w)"
  "good (send_reply b q peer w) \<longleftrightarrow> good w \<and> reply_ok \<lparr>re_bytes = b, re_peer = peer, re_query = q\<rparr>"
  by (auto simp: ledger_defs good_def)

lemma apply_h3_event_keeps:
  assumes "good w"
  shows "good (apply_h3_event now ev w) \<and> ledger (apply_h3_event now ev w) = ledger w"
proof (cases ev)
  case (ResponseEv stream body)
  show ?thesis
  proof (cases "map_of (w_pending w) stream")
    case (Some p)
    have "valid_query (pe_query p)" using assms Some by (auto simp: good_def dest: pending_ok_lookup)
    with Some delete_counted [OF assms Some] show ?thesis
      by (simp add: ResponseEv send_reply_counted restore_id_ok)
  qed (use assms ResponseEv in simp)
next
  case (FailedEv stream)
  show ?thesis
  proof (cases "map_of (w_pending w) stream")
    case (Some p)
    have "valid_query (pe_query p)" using assms Some by (auto simp: good_def dest: pending_ok_lookup)
    with Some delete_counted [OF assms Some] show ?thesis by (simp add: FailedEv servfail_counted)
  qed (use assms FailedEv in simp)
next
  case GoawayEv
  with assms show ?thesis by (simp add: Let_def)
qed

lemma apply_h3_events_keeps:
  "good w \<Longrightarrow> good (fold (apply_h3_event now) evs w) \<and> ledger (fold (apply_h3_event now) evs w) = ledger w"
  by (induction evs arbitrary: w) (simp_all add: apply_h3_event_keeps)

lemma process_quic_events_keeps:
  assumes "good w"
  shows "\<exists>w'. process_quic_events cfg now polled w = Some w' \<and> good w' \<and> ledger w' = ledger w"
proof -
  obtain q evs where q: "poll_events (w_quic w) (map (\<lambda>(ev, ei). (ev, ei_accepted ei)) polled) = (q, evs)"
    by (cases "poll_events (w_quic w) (map (\<lambda>(ev, ei). (ev, ei_accepted ei)) polled)")
  obtain w1 evs1 where w1: "quic_events cfg now (zip evs (map snd polled)) (w\<lparr>w_quic := q\<rparr>, []) = Some (w1, evs1)"
      "good w1" "ledger w1 = ledger w"
    using quic_events_keeps [of "w\<lparr>w_quic := q\<rparr>" cfg now "zip evs (map snd polled)" "[]"] assms by auto
  with apply_h3_events_keeps [OF w1(2), of now evs1] show ?thesis
    by (simp add: process_quic_events_def q)
qed

section \<open>Housekeeping\<close>

lemma expire_requests_keeps:
  "good w \<Longrightarrow> good (expire_requests ks w) \<and> ledger (expire_requests ks w) = ledger w
    \<and> w_queue (expire_requests ks w) = w_queue w
    \<and> w_pending (expire_requests ks w) = fold (\<lambda>(k, _). AList.delete k) ks (w_pending w)"
proof (induction ks arbitrary: w)
  case (Cons x ks)
  obtain k p0 where x: "x = (k, p0)" by (cases x)
  show ?case
  proof (cases "map_of (w_pending w) k")
    case None
    then have "AList.delete k (w_pending w) = w_pending w" by (simp add: map_of_eq_None_iff)
    with Cons None show ?thesis by (simp add: x)
  next
    case (Some p)
    let ?w1 = "send_servfail (pe_query p) (pe_peer p) (count_failure (w\<lparr>w_pending := AList.delete k (w_pending w)\<rparr>))"
    have "valid_query (pe_query p)" using Cons.prems Some by (auto simp: good_def dest: pending_ok_lookup)
    with delete_counted [OF Cons.prems Some] have "good ?w1" "ledger ?w1 = ledger w"
        "w_queue ?w1 = w_queue w" "w_pending ?w1 = AList.delete k (w_pending w)"
      by (simp_all add: servfail_counted)
    with Cons.IH [of ?w1] Some show ?thesis by (simp add: x)
  qed
qed simp

lemma expire_queries_keeps:
  "good w \<Longrightarrow> queue_ok qs \<Longrightarrow>
    good (expire_queries now qs w)
    \<and> ledger (expire_queries now qs w) + owed_queue (w_queue w) = ledger w + owed_queue qs
    \<and> w_pending (expire_queries now qs w) = w_pending w
    \<and> w_queue (expire_queries now qs w) = dropWhile (\<lambda>q. qd_deadline q \<le> now) qs"
proof (induction qs arbitrary: w)
  case (Cons q qs)
  let ?w1 = "send_servfail (qd_query q) (qd_peer q) (count_failure w)"
  have v: "valid_query (qd_query q)" "queue_ok qs" using Cons.prems(2) by (simp_all add: queue_ok_def)
  then have "good ?w1" "ledger ?w1 = add_mset (qd_query q, qd_peer q) (ledger w)" "w_queue ?w1 = w_queue w"
      "w_pending ?w1 = w_pending w"
    using Cons.prems(1) by (simp_all add: servfail_counted)
  with Cons.IH [of ?w1] v(2) Cons.prems show ?case
    by (auto simp: owed_queue_def good_def ledger_def owed_def answered_def ac_simps)
qed (simp add: good_def ledger_def owed_def answered_def owed_queue_def ac_simps queue_ok_def)

lemma expire_queue_keeps:
  assumes "good w"
  shows "good (expire_queue now w)" "ledger (expire_queue now w) = ledger w"
    "w_pending (expire_queue now w) = w_pending w"
    "w_queue (expire_queue now w) = dropWhile (\<lambda>q. qd_deadline q \<le> now) (w_queue w)"
proof -
  have "queue_ok (w_queue w)" using assms by (simp add: good_def)
  from expire_queries_keeps [OF assms this, of now]
  show "good (expire_queue now w)" "ledger (expire_queue now w) = ledger w"
    "w_pending (expire_queue now w) = w_pending w"
    "w_queue (expire_queue now w) = dropWhile (\<lambda>q. qd_deadline q \<le> now) (w_queue w)"
    by (simp_all add: expire_queue_def)
qed

text \<open>The later stages of housekeeping leave clients alone.\<close>

definition same_clients :: "worker \<Rightarrow> worker \<Rightarrow> bool" where
  "same_clients w w' \<longleftrightarrow> w_pending w' = w_pending w \<and> w_queue w' = w_queue w \<and> w_sent w' = w_sent w \<and> w_lost w' = w_lost w"

lemma same_clients_counted: "same_clients w w' \<Longrightarrow> ledger w' = ledger w \<and> good w' = good w"
  by (simp add: same_clients_def ledger_defs good_def)

lemma housekeeping_stages:
  "same_clients w (publish_score cfg now secs w)" "same_clients w (consider_migration cfg now secs w)"
  "same_clients w (reconnect now ci w)"
  "same_clients w (if c then w\<lparr>w_reconnect_at := t\<rparr> else w)"
  by (auto simp: same_clients_def publish_score_def consider_migration_def reconnect_def Let_def
      split: option.split sum.split prod.split)

lemma same_clients_trans: "same_clients w w' \<Longrightarrow> same_clients w' w'' \<Longrightarrow> same_clients w w''"
  by (simp add: same_clients_def)

text \<open>Housekeeping is the two expiries as far as clients are concerned.\<close>

lemma housekeeping_clients:
  "\<exists>rt seq. same_clients (expire_queue now ((expire_pending now w)\<lparr>w_last_seq := seq, w_rt := rt\<rparr>)) (housekeeping cfg hi now w)"
proof -
  let ?w1 = "expire_pending now w"
  obtain read seq where rd: "read_if_changed (hi_shared hi) (w_last_seq ?w1) = (read, seq)"
    by (cases "read_if_changed (hi_shared hi) (w_last_seq ?w1)")
  let ?w2 = "upd_rt (adopt_set cfg read now) (?w1\<lparr>w_last_seq := seq\<rparr>)"
  let ?w3 = "expire_queue now ?w2"
  let ?w4 = "publish_score cfg now (hi_score_mono hi) ?w3"
  let ?w5 = "if w_goaway ?w4 \<and> w_pending ?w4 = [] then ?w4\<lparr>w_reconnect_at := Some now\<rparr> else ?w4"
  let ?w6 = "consider_migration cfg now (hi_mono hi) ?w5"
  have "same_clients ?w3 (reconnect now (hi_connect hi) ?w6)"
    by (rule same_clients_trans [OF same_clients_trans [OF same_clients_trans]]; rule housekeeping_stages)
  moreover have "housekeeping cfg hi now w = reconnect now (hi_connect hi) ?w6"
    by (simp add: housekeeping_def Let_def rd)
  ultimately show ?thesis by (intro exI [of _ "adopt_set cfg read now (w_rt ?w1)"] exI [of _ seq]) simp
qed

lemma housekeeping_keeps:
  assumes "good w"
  shows "good (housekeeping cfg hi now w)" "ledger (housekeeping cfg hi now w) = ledger w"
proof -
  obtain rt seq where sc: "same_clients (expire_queue now ((expire_pending now w)\<lparr>w_last_seq := seq, w_rt := rt\<rparr>))
      (housekeeping cfg hi now w)" using housekeeping_clients by blast
  have "good (expire_pending now w)" "ledger (expire_pending now w) = ledger w"
    using expire_requests_keeps [OF assms] by (simp_all add: expire_pending_def)
  then have "good (expire_queue now ((expire_pending now w)\<lparr>w_last_seq := seq, w_rt := rt\<rparr>))"
      "ledger (expire_queue now ((expire_pending now w)\<lparr>w_last_seq := seq, w_rt := rt\<rparr>)) = ledger w"
    by (simp_all add: expire_queue_keeps)
  with same_clients_counted [OF sc] show "good (housekeeping cfg hi now w)"
      "ledger (housekeeping cfg hi now w) = ledger w" by simp_all
qed

section \<open>The contract of a handler\<close>

text \<open>
  A handler of the event loop never panics and keeps the ledger up to the queries it takes in; so does any
  sequence of its steps.
\<close>

locale handler =
  fixes step :: "'i \<Rightarrow> worker \<Rightarrow> (worker, stop) result"
    and takes :: "'i \<Rightarrow> (bytes \<times> sock_addr) multiset"
  assumes no_panic: "good w \<Longrightarrow> step i w \<noteq> Inl Panicked"
    and keeps_good: "good w \<Longrightarrow> step i w = Inr w' \<Longrightarrow> good w'"
    and keeps_ledger: "good w \<Longrightarrow> step i w = Inr w' \<Longrightarrow> ledger w' = ledger w + takes i"
begin

primrec steps :: "'i list \<Rightarrow> worker \<Rightarrow> (worker, stop) result" where
  "steps [] w = Inr w"
| "steps (i # is) w = bindE (step i w) (steps is)"

lemma steps_keep:
  "good w \<Longrightarrow> steps is w \<noteq> Inl Panicked
    \<and> (steps is w = Inr w' \<longrightarrow> good w' \<and> ledger w' = ledger w + sum_list (map takes is))"
proof (induction "is" arbitrary: w)
  case (Cons i "is")
  show ?case
  proof (cases "step i w")
    case (Inl e)
    with no_panic [OF Cons.prems, of i] show ?thesis by simp
  next
    case (Inr w1)
    with Cons.IH [OF keeps_good [OF Cons.prems Inr]] keeps_ledger [OF Cons.prems Inr] show ?thesis
      by (simp add: add.assoc)
  qed
qed auto

end

fun accepted_event :: "worker_event \<Rightarrow> (bytes \<times> sock_addr) multiset" where
  "accepted_event (DnsReady ds) = accepted ds"
| "accepted_event _ = {#}"

lemma event_keeps:
  assumes "good w"
  shows "case handle_event cfg now ev (w, sd) of
      Inl e \<Rightarrow> e = RunError
    | Inr (w', sd') \<Rightarrow> good w' \<and> ledger w' = ledger w + accepted_event ev"
proof (cases ev)
  case (DnsReady ds)
  from drain_keeps [OF assms, of cfg now ds] show ?thesis by (auto simp: DnsReady)
next
  case (QuicReady evs)
  from process_quic_events_keeps [OF assms, of cfg now evs] show ?thesis by (auto simp: QuicReady)
next
  case (TimerFired ok hi)
  then show ?thesis using housekeeping_keeps [OF assms] by simp
qed (use assms in simp)

definition event_step :: "worker_config \<times> instant \<times> worker_event \<Rightarrow> worker \<Rightarrow> (worker, stop) result" where
  "event_step = (\<lambda>(cfg, now, ev) w. bindE (handle_event cfg now ev (w, False)) (\<lambda>(w, _). Inr w))"

interpretation event: handler event_step "\<lambda>(cfg, now, ev). accepted_event ev"
proof (unfold_locales, goal_cases)
  case (1 w i)
  with event_keeps [OF 1, where cfg = "fst i" and now = "fst (snd i)" and ev = "snd (snd i)" and sd = False] show ?case
    by (auto simp: event_step_def case_prod_beta split: sum.splits prod.splits)
next
  case (2 w i w')
  with event_keeps [OF 2(1), where cfg = "fst i" and now = "fst (snd i)" and ev = "snd (snd i)" and sd = False] show ?case
    by (auto simp: event_step_def case_prod_beta split: sum.splits)
next
  case (3 w i w')
  with event_keeps [OF 3(1), where cfg = "fst i" and now = "fst (snd i)" and ev = "snd (snd i)" and sd = False] show ?case
    by (auto simp: event_step_def case_prod_beta split: sum.splits)
qed

section \<open>Passes and runs\<close>

lemma handle_event_worker:
  "bindE (handle_event cfg now ev (w, sd)) (\<lambda>(w, _). Inr w) = event_step (cfg, now, ev) w"
  by (cases ev) (auto simp: event_step_def ok_or_def split: option.split)

lemma handle_events_steps:
  "bindE (handle_events cfg now evs (w, sd)) (\<lambda>(w, _). Inr w) = event.steps (map (\<lambda>ev. (cfg, now, ev)) evs) w"
proof (induction evs arbitrary: w sd)
  case (Cons ev evs)
  have h: "bindE (handle_event cfg now ev (w, sd)) (\<lambda>(w, _). Inr w) = event_step (cfg, now, ev) w"
    by (rule handle_event_worker)
  show ?case
  proof (cases "handle_event cfg now ev (w, sd)")
    case (Inr x)
    with h Cons.IH [of "fst x" "snd x"] show ?thesis by (cases x) (simp flip: h)
  qed (use h in \<open>simp flip: h\<close>)
qed simp

lemma check_drained_keeps:
  "good w \<Longrightarrow> good (check_drained now drained w) \<and> ledger (check_drained now drained w) = ledger w"
  by (simp add: check_drained_def Let_def fail_all_pending_keeps)

definition pass_step :: "worker_config \<times> pass \<Rightarrow> worker \<Rightarrow> (worker, stop) result" where
  "pass_step = (\<lambda>(cfg, now, evs, drained) w. bindE (worker_pass cfg now evs drained w) (\<lambda>(w, _). Inr w))"

definition accepted_pass :: "pass \<Rightarrow> (bytes \<times> sock_addr) multiset" where
  "accepted_pass = (\<lambda>(now, evs, drained). sum_list (map accepted_event evs))"

lemma pass_keeps:
  assumes "good w"
  shows "case worker_pass cfg now evs drained w of
      Inl e \<Rightarrow> e = RunError
    | Inr (w', sd) \<Rightarrow> good w' \<and> ledger w' = ledger w + accepted_pass (now, evs, drained) \<and> (sd \<longrightarrow> w_pending w' = [])"
proof (cases "handle_events cfg now evs (w, False)")
  case (Inl e)
  with handle_events_steps [of cfg now evs w False]
  have "event.steps (map (\<lambda>ev. (cfg, now, ev)) evs) w = Inl e" by simp
  with event.steps_keep [OF assms, of "map (\<lambda>ev. (cfg, now, ev)) evs"] have "e = RunError"
    by (metis stop.exhaust)
  with Inl show ?thesis by (simp add: worker_pass_def)
next
  case (Inr x)
  obtain w1 sd where x: "x = (w1, sd)" by (cases x)
  with Inr handle_events_steps [of cfg now evs w False]
  have "event.steps (map (\<lambda>ev. (cfg, now, ev)) evs) w = Inr w1" by simp
  with event.steps_keep [OF assms, of "map (\<lambda>ev. (cfg, now, ev)) evs" w1]
  have w1: "good w1" "ledger w1 = ledger w + accepted_pass (now, evs, drained)"
    by (simp_all add: accepted_pass_def comp_def)
  with check_drained_keeps [OF w1(1), of now drained] Inr x show ?thesis
    by (simp add: worker_pass_def Let_def fail_all_pending_keeps)
qed

interpretation pass: handler pass_step "\<lambda>(cfg, p). accepted_pass p"
proof (unfold_locales, goal_cases)
  case (1 w i)
  obtain cfg now evs drained where i: "i = (cfg, now, evs, drained)" by (cases i)
  with pass_keeps [OF 1, where cfg = cfg and now = now and evs = evs and drained = drained] show ?case
    by (auto simp: pass_step_def split: sum.splits)
next
  case (2 w i w')
  obtain cfg now evs drained where i: "i = (cfg, now, evs, drained)" by (cases i)
  with 2 pass_keeps [OF 2(1), where cfg = cfg and now = now and evs = evs and drained = drained] show ?case
    by (auto simp: pass_step_def split: sum.splits)
next
  case (3 w i w')
  obtain cfg now evs drained where i: "i = (cfg, now, evs, drained)" by (cases i)
  with 3 pass_keeps [OF 3(1), where cfg = cfg and now = now and evs = evs and drained = drained] show ?case
    by (auto simp: pass_step_def split: sum.splits)
qed

lemma worker_run_steps:
  "case worker_run cfg ps w of
     Inl e \<Rightarrow> \<exists>used. pass.steps (map (Pair cfg) used) w = Inl e
   | Inr (w', sd, rest) \<Rightarrow> \<exists>used. ps = used @ rest \<and> pass.steps (map (Pair cfg) used) w = Inr w'"
proof (induction ps arbitrary: w)
  case (Cons p ps)
  obtain now evs drained where p: "p = (now, evs, drained)" by (cases p)
  show ?case
  proof (cases "worker_pass cfg now evs drained w")
    case (Inl e)
    then have "pass_step (cfg, p) w = Inl e" by (simp add: pass_step_def p)
    then have "pass.steps (map (Pair cfg) [p]) w = Inl e" by simp
    with Inl show ?thesis by (simp add: p del: pass.steps.simps list.map) blast
  next
    case (Inr x)
    obtain w1 sd where x: "x = (w1, sd)" by (cases x)
    have st: "pass_step (cfg, p) w = Inr w1" by (simp add: pass_step_def p Inr x)
    show ?thesis
    proof (cases sd)
      case True
      have "pass.steps (map (Pair cfg) [p]) w = Inr w1" by (simp add: st)
      with Inr x True show ?thesis by (simp add: p del: pass.steps.simps list.map)
    next
      case False
      have "pass.steps (map (Pair cfg) (p # used)) w = pass.steps (map (Pair cfg) used) w1" for used
        by (simp add: st)
      note cons = this
      have run: "worker_run cfg (p # ps) w = worker_run cfg ps w1" using Inr x False by (simp add: p)
      show ?thesis
      proof (cases "worker_run cfg ps w1")
        case (Inl e)
        with Cons.IH [of w1] obtain used where "pass.steps (map (Pair cfg) used) w1 = Inl e" by auto
        with cons [of used] show ?thesis unfolding run Inl by (auto intro!: exI [of _ "p # used"])
      next
        case (Inr y)
        obtain w' sd' rest where y: "y = (w', sd', rest)" by (cases y)
        with Inr Cons.IH [of w1] obtain used where
          "ps = used @ rest" "pass.steps (map (Pair cfg) used) w1 = Inr w'" by auto
        with cons [of used] show ?thesis unfolding run Inr y by (auto intro!: exI [of _ "p # used"])
      qed
    qed
  qed
qed (auto intro: exI [of _ "[]"])

lemma worker_init_good: "worker_init cfg us seq scores now ci = Inr w \<Longrightarrow> good w \<and> ledger w = {#}"
  by (auto simp: worker_init_def ok_or_def good_def pending_ok_def queue_ok_def ledger_defs
      split: if_splits option.splits prod.splits sum.splits)

lemma run_shutdown_pending: "good w \<Longrightarrow> worker_run cfg ps w = Inr (w', True, rest) \<Longrightarrow> w_pending w' = []"
proof (induction ps arbitrary: w)
  case (Cons p ps)
  obtain now evs drained where p: "p = (now, evs, drained)" by (cases p)
  from Cons.prems(2) obtain w1 sd where w1: "worker_pass cfg now evs drained w = Inr (w1, sd)"
    by (cases "worker_pass cfg now evs drained w") (auto simp: p)
  with pass_keeps [OF Cons.prems(1), where cfg = cfg and now = now and evs = evs and drained = drained]
  have "good w1" "sd \<longrightarrow> w_pending w1 = []" by simp_all
  with Cons w1 show ?case by (auto simp: p split: if_splits)
qed simp

text \<open>
  C2. Every accepted query is answered exactly once, and the worker never panics. In any run of a worker,
  whatever the clients, the network and the upstream server do, the queries accepted so far are exactly
  those already answered, those still in flight or queued, and those whose entry was overwritten by a request
  on a reused stream number: no query is answered twice and no answer goes to anyone else. Every reply has
  the ID of the query it answers unless it is too short to have one, at most 64 queries are queued, and after
  a shutdown nothing is in flight.
\<close>

theorem queries_answered_once:
  assumes "worker_init cfg us seq scores t0 ci = Inr w0"
  shows "case worker_run cfg passes w0 of
      Inl e \<Rightarrow> e = RunError
    | Inr (w, shutdown, rest) \<Rightarrow>
        (\<exists>used. passes = used @ rest \<and> sum_list (map accepted_pass used) = answered w + owed w + mset (w_lost w))
        \<and> list_all reply_ok (w_sent w) \<and> length (w_queue w) \<le> MAX_QUEUED \<and> (shutdown \<longrightarrow> w_pending w = [])"
proof -
  from worker_init_good [OF assms] have w0: "good w0" "ledger w0 = {#}" by simp_all
  show ?thesis
  proof (cases "worker_run cfg passes w0")
    case (Inl e)
    with worker_run_steps [where cfg = cfg and ps = passes and w = w0] obtain used where
      "pass.steps (map (Pair cfg) used) w0 = Inl e" by auto
    with pass.steps_keep [OF w0(1), of "map (Pair cfg) used"] have "e = RunError" by (metis stop.exhaust)
    with Inl show ?thesis by simp
  next
    case (Inr x)
    obtain w sd rest where x: "x = (w, sd, rest)" by (cases x)
    with Inr worker_run_steps [where cfg = cfg and ps = passes and w = w0] obtain used where
      used: "passes = used @ rest" "pass.steps (map (Pair cfg) used) w0 = Inr w" by auto
    with pass.steps_keep [OF w0(1), of "map (Pair cfg) used" w]
    have w: "good w" "ledger w = sum_list (map accepted_pass used)" by (simp_all add: w0(2) comp_def)
    have "sd \<longrightarrow> w_pending w = []" using run_shutdown_pending [OF w0(1)] Inr x by auto
    with w used(1) Inr x show ?thesis
      by (auto simp: good_def queue_ok_def ledger_def ac_simps intro!: exI [of _ used])
  qed
qed

definition demo_connect :: connect_in where
  "demo_connect = \<lparr>ci_conn = Some (0, False), ci_sends1 = [], ci_0rtt = False, ci_control = None, ci_writes = [], ci_sends2 = []\<rparr>"

definition demo_query :: "u8 \<Rightarrow> bytes" where
  "demo_query i = [0, i, 1, 0, 0, 1, 0, 0, 0, 0, 0, 0, 0, 0, 1, 0, 1]"

definition demo_peer :: "u16 \<Rightarrow> sock_addr" where
  "demo_peer port = \<lparr>sa_ip = V4 0x7F000001, sa_port = port\<rparr>"

definition demo_dispatch :: dispatch_in where
  "demo_dispatch = \<lparr>di_open = Some 0, di_writes = [], di_finish = True\<rparr>"

lemma demo_valid: "valid_query (demo_query i)" "take MAX_DNS_LEN (demo_query i) = demo_query i"
  by (simp_all add: valid_query_def validate_query_iff demo_query_def MAX_DNS_LEN_def)

lemma demo_worker_starts: "\<exists>w0. worker_init demo_worker demo_set 2 scores_create 0 demo_connect = Inr w0"
proof -
  have "slot_for demo_set 0 = Some 1"
    by (simp add: slot_for_def demo_set_def total_weight_def Let_def)
  then show ?thesis
    by (simp add: worker_init_def runtime_new_def demo_set_def demo_worker_def get_def demo_connect_def
        connect_and_preamble_def quic_connect_def quic_flush_def has_0rtt_def quic_new_def Let_def)
qed

theorem queries_answered_once_witness:
  "\<exists>w0. worker_init demo_worker demo_set 2 scores_create 0 demo_connect = Inr w0
    \<and> (case worker_run demo_worker [(1, [DnsReady [(demo_query 7, demo_peer 5353, demo_dispatch)]], False)] w0 of
         Inl _ \<Rightarrow> False
       | Inr (w, _) \<Rightarrow> answered w + owed w + mset (w_lost w) = {#(demo_query 7, demo_peer 5353)#})"
proof -
  obtain w0 where w0: "worker_init demo_worker demo_set 2 scores_create 0 demo_connect = Inr w0"
    using demo_worker_starts by blast
  let ?ev = "DnsReady [(demo_query 7, demo_peer 5353, demo_dispatch)]"
  have "good w0" using worker_init_good [OF w0] by simp
  from drain_keeps [OF this] obtain w1 where
    "drain_dns demo_worker 1 [(demo_query 7, demo_peer 5353, demo_dispatch)] w0 = Some w1" by blast
  then obtain w rest where r: "worker_run demo_worker [(1, [?ev], False)] w0 = Inr (w, False, rest)" "rest = []"
    by (simp add: worker_pass_def)
  have "accepted_pass (1, [?ev], False) = {#(demo_query 7, demo_peer 5353)#}"
    by (simp add: accepted_pass_def accepted_simps demo_valid)
  with queries_answered_once [OF w0, of "[(1, [?ev], False)]"] r w0 show ?thesis by auto
qed

section \<open>What is sent upstream\<close>

lemma zero_id:
  assumes "valid_query q"
  shows "valid_query (q[0 := 0, 1 := 0])" "take 2 (q[0 := 0, 1 := 0]) = [0, 0]" "drop 2 (q[0 := 0, 1 := 0]) = drop 2 q"
proof -
  from valid_length [OF assms] obtain a b r where q: "q = a # b # r" by (auto simp: Suc_le_length_iff numeral_eq_Suc)
  show "valid_query (q[0 := 0, 1 := 0])" using assms by (simp add: valid_query_def validate_query_iff)
  show "take 2 (q[0 := 0, 1 := 0]) = [0, 0]" "drop 2 (q[0 := 0, 1 := 0]) = drop 2 q"
    by (simp_all add: q numeral_2_eq_2)
qed

lemma pad_query_valid:
  assumes "valid_query q" "pad_query q n = Some (did, q')"
  shows "valid_query q' \<and> take 10 q' = take 10 q"
  using assms padded_valid [of q n] by (auto simp: valid_query_def validate_query_iff pad_query_eq split: if_splits)

lemma wire_query_spec:
  assumes "valid_query q"
  shows "\<exists>wire. wire_query cfg q = Some wire \<and> valid_query wire
    \<and> take 2 wire = (if length q \<le> GET_MAX_DNS_LEN then [0, 0] else take 2 q)
    \<and> (\<not> wc_pad cfg \<longrightarrow> drop 2 wire = drop 2 q)"
proof -
  obtain did q' where pad: "pad_query q 128 = Some (did, q')" using pad_query_total [OF assms, of 128] by fastforce
  from pad_query_valid [OF assms pad] have q': "valid_query q'" "take 2 q' = take 2 q"
    by (auto dest: arg_cong [of _ _ "take 2"])
  show ?thesis
    using zero_id [OF assms] zero_id [OF q'(1)] assms q' valid_length [OF q'(1)] valid_length [OF assms]
    by (auto simp: wire_query_def Let_def pad)
qed



section \<open>Timeliness\<close>

lemma delete_fold_set:
  "set (fold (\<lambda>(k, _). AList.delete k) ks al) = {x \<in> set al. fst x \<notin> fst ` set ks}"
proof (induction ks arbitrary: al)
  case (Cons k ks)
  then show ?case by (cases k) (auto simp: AList.delete_eq)
qed simp

lemma dropWhile_sorted:
  assumes "sorted (map f xs)"
  shows "\<forall>x \<in> set (dropWhile (\<lambda>x. f x \<le> t) xs). (t :: int) < f x"
  using assms
proof (induction xs)
  case (Cons x xs)
  then show ?case by (cases "f x \<le> t") auto
qed simp

lemma fold_min_le: "fold min xs (x :: int) \<le> x \<and> (\<forall>y \<in> set xs. fold min xs x \<le> y)"
proof (induction xs arbitrary: x)
  case (Cons y xs)
  from Cons [of "min y x"] show ?case by auto
qed simp

lemma min_deadline_le: "(k, p) \<in> set ps \<Longrightarrow> \<exists>d. min_deadline ps = Some d \<and> d \<le> pe_deadline p"
proof -
  assume kp: "(k, p) \<in> set ps"
  then obtain d ds where ds: "map (pe_deadline \<circ> snd) ps = d # ds" by (cases ps) auto
  have "pe_deadline p \<in> set (map (pe_deadline \<circ> snd) ps)" using kp by force
  then have "pe_deadline p = d \<or> pe_deadline p \<in> set ds" unfolding ds by auto
  with fold_min_le [of ds d] ds show ?thesis by (auto simp: min_deadline_def)
qed

lemma next_deadline_pending:
  assumes "(k, p) \<in> set (w_pending w)"
  shows "\<exists>d. next_deadline ct w = Some d \<and> d \<le> pe_deadline p"
proof -
  obtain d0 where "min_deadline (w_pending w) = Some d0" "d0 \<le> pe_deadline p"
    using min_deadline_le [OF assms] by blast
  then show ?thesis
    by (auto simp: next_deadline_def Let_def earlier_def min_le_iff_disj split: option.split list.split)
qed

lemma next_deadline_queue:
  assumes "q \<in> set (w_queue w)" "sorted (map qd_deadline (w_queue w))"
  shows "\<exists>d. next_deadline ct w = Some d \<and> d \<le> qd_deadline q"
proof -
  obtain q0 qs where q: "w_queue w = q0 # qs" using assms(1) by (cases "w_queue w") auto
  then have "qd_deadline q0 \<le> qd_deadline q" using assms by auto
  then show ?thesis
    by (auto simp: next_deadline_def Let_def earlier_def min_le_iff_disj q split: option.split)
qed

text \<open>New queries are queued with the latest deadline, so the queue stays in order of deadlines.\<close>

definition queue_timely :: "worker_config \<Rightarrow> instant \<Rightarrow> worker \<Rightarrow> bool" where
  "queue_timely cfg now w \<longleftrightarrow>
    sorted (map qd_deadline (w_queue w)) \<and> list_all (\<lambda>q. qd_deadline q \<le> now + wc_timeout cfg) (w_queue w)"

text \<open>
  The timer is armed no later than any deadline, and housekeeping at a time \<open>now\<close> answers every query whose deadline has
  come, so that all that remain have a later deadline.
\<close>

lemma housekeeping_answers_due:
  assumes "good w" "queue_timely cfg now w"
  shows "list_all (\<lambda>(_, p). now < pe_deadline p) (w_pending (housekeeping cfg hi now w))
    \<and> list_all (\<lambda>q. now < qd_deadline q) (w_queue (housekeeping cfg hi now w))
    \<and> ledger (housekeeping cfg hi now w) = ledger w
    \<and> list_all (\<lambda>(_, p). \<exists>d. next_deadline ct w = Some d \<and> d \<le> pe_deadline p) (w_pending w)
    \<and> list_all (\<lambda>q. \<exists>d. next_deadline ct w = Some d \<and> d \<le> qd_deadline q) (w_queue w)"
proof -
  let ?w1 = "expire_pending now w"
  obtain rt seq where sc: "same_clients (expire_queue now (?w1\<lparr>w_last_seq := seq, w_rt := rt\<rparr>)) (housekeeping cfg hi now w)"
    using housekeeping_clients by blast
  have w1: "good ?w1" "w_queue ?w1 = w_queue w" "w_pending ?w1
      = fold (\<lambda>(k, _). AList.delete k) (filter (\<lambda>(_, p). pe_deadline p \<le> now) (w_pending w)) (w_pending w)"
    using expire_requests_keeps [OF assms(1)] by (simp_all add: expire_pending_def)
  have p: "w_pending (housekeeping cfg hi now w) = w_pending ?w1"
      "w_queue (housekeeping cfg hi now w) = dropWhile (\<lambda>q. qd_deadline q \<le> now) (w_queue w)"
    using sc w1(1,2) by (simp_all add: same_clients_def expire_queue_keeps)
  have "list_all (\<lambda>(_, p). now < pe_deadline p) (w_pending ?w1)"
    by (force simp: w1(3) list_all_iff delete_fold_set)
  moreover have "list_all (\<lambda>q. now < qd_deadline q) (dropWhile (\<lambda>q. qd_deadline q \<le> now) (w_queue w))"
    using dropWhile_sorted [of qd_deadline "w_queue w" now] assms(2) by (simp add: queue_timely_def list_all_iff)
  moreover have "list_all (\<lambda>(_, p). \<exists>d. next_deadline ct w = Some d \<and> d \<le> pe_deadline p) (w_pending w)"
    using next_deadline_pending [of _ _ w ct] by (auto simp: list_all_iff)
  moreover have "list_all (\<lambda>q. \<exists>d. next_deadline ct w = Some d \<and> d \<le> qd_deadline q) (w_queue w)"
    using next_deadline_queue [of _ w ct] assms(2) by (auto simp: list_all_iff queue_timely_def)
  ultimately show ?thesis using housekeeping_keeps(2) [OF assms(1)] by (simp add: p)
qed

definition busy_worker :: worker where
  "busy_worker =
    \<lparr>w_quic = \<lparr>q_conn = True, q_handle = Some 0, zero_rtt_accepted = False, zero_rtt_offered = False\<rparr>,
     w_h3 = register_request h3_new 0,
     w_pending = [(0, \<lparr>pe_query = demo_query 1, pe_peer = demo_peer 1, pe_deadline = from_secs 204, pe_started = from_secs 199\<rparr>)],
     w_queue = [], w_rt = demo_runtime\<lparr>ru_fail_streak := 0, ru_last_score := from_secs 199\<rparr>, w_goaway = False,
     w_h3_ready = True, w_reconnect_at = None, w_backoff = 0, w_last_seq = 2, w_scores = scores_create, w_sent = [],
     w_written = [], w_lost = []\<rparr>"

definition demo_house :: house_in where
  "demo_house =
    \<lparr>hi_shared = \<lparr>sr_seq = 2, sr_page = zero_page\<rparr>, hi_score_mono = 0, hi_mono = 0,
     hi_connect = demo_connect\<lparr>ci_conn := Some (1, True), ci_0rtt := True\<rparr>\<rparr>"

lemma busy_worker_good: "good busy_worker" "queue_timely cfg now busy_worker"
  by (simp_all add: good_def busy_worker_def pending_ok_def queue_ok_def demo_valid queue_timely_def)

lemma housekeeping_answers_due_example:
  "list_all (\<lambda>(_, p). from_secs 205 < pe_deadline p) (w_pending (housekeeping demo_worker demo_house (from_secs 205) busy_worker))
    \<and> ledger (housekeeping demo_worker demo_house (from_secs 205) busy_worker) = {#(demo_query 1, demo_peer 1)#}
    \<and> next_deadline None busy_worker = Some (from_secs 204)"
proof -
  have "ledger busy_worker = {#(demo_query 1, demo_peer 1)#}" "next_deadline None busy_worker = Some (from_secs 204)"
    by (simp_all add: ledger_defs busy_worker_def next_deadline_def next_timeout_def earlier_def min_deadline_def)
  with housekeeping_answers_due [OF busy_worker_good, of "from_secs 205" demo_worker demo_house None] show ?thesis by simp
qed

lemma busy_target: "migration_target (w_rt busy_worker) demo_worker (from_secs 200) 0 = Some (V4 2)"
proof -
  have "slot_for demo_set 0 = Some 1" by (simp add: slot_for_def demo_set_def total_weight_def Let_def)
  then show ?thesis
    by (simp add: migration_target_def busy_worker_def demo_defs weight_of_def get_def saturating_duration_since_def
        MIGRATE_MIN_INTERVAL_def from_secs_def word_le_nat_alt migration_slot_open_def MIGRATE_RATIO_PCT_def)
qed


end
