(* ===== verification/Timeliness.thy ===== *)
theory Timeliness
  imports Answers
begin

text \<open>
  Clients are not kept waiting. Every handler of the event loop keeps the queue in order of deadlines and every deadline
  within one timeout of the time of the pass, so in any run whose passes are in order of time the timer is armed
  early enough and housekeeping answers whatever has come due.
\<close>

section \<open>Deadlines under the handlers\<close>

definition pending_timely :: "worker_config \<Rightarrow> instant \<Rightarrow> worker \<Rightarrow> bool" where
  "pending_timely cfg now w \<longleftrightarrow> list_all (\<lambda>(_, p). pe_deadline p \<le> now + wc_timeout cfg) (w_pending w)"

definition timely :: "worker_config \<Rightarrow> instant \<Rightarrow> worker \<Rightarrow> bool" where
  "timely cfg now w \<longleftrightarrow> queue_timely cfg now w \<and> pending_timely cfg now w"

lemma timely_later: "timely cfg t w \<Longrightarrow> t \<le> now \<Longrightarrow> timely cfg now w"
  by (fastforce simp: timely_def queue_timely_def pending_timely_def list_all_iff)

lemma list_all_alist_update: "list_all P al \<Longrightarrow> P (k, v) \<Longrightarrow> list_all P (AList.update k v al)"
  by (induction al) auto

lemma list_all_alist_delete: "list_all P al \<Longrightarrow> list_all P (AList.delete k al)"
  by (auto simp: AList.delete_eq list_all_iff)

lemma servfail_frame [simp]:
  "w_queue (send_servfail q peer w) = w_queue w" "w_pending (send_servfail q peer w) = w_pending w"
  by (simp_all add: send_servfail_def split: prod.split bool.split)

lemma timely_frame [simp]:
  "timely cfg now (w\<lparr>w_quic := x1\<rparr>) = timely cfg now w" "timely cfg now (w\<lparr>w_h3 := x2\<rparr>) = timely cfg now w"
  "timely cfg now (w\<lparr>w_goaway := x3\<rparr>) = timely cfg now w" "timely cfg now (w\<lparr>w_h3_ready := x4\<rparr>) = timely cfg now w"
  "timely cfg now (w\<lparr>w_reconnect_at := x5\<rparr>) = timely cfg now w" "timely cfg now (w\<lparr>w_last_seq := x6\<rparr>) = timely cfg now w"
  "timely cfg now (w\<lparr>w_written := x7\<rparr>) = timely cfg now w" "timely cfg now (w\<lparr>w_rt := x8\<rparr>) = timely cfg now w"
  "timely cfg now (w\<lparr>w_backoff := x9\<rparr>) = timely cfg now w" "timely cfg now (count_failure w) = timely cfg now w"
  "timely cfg now (send_servfail q peer w) = timely cfg now w" "timely cfg now (send_reply b q peer w) = timely cfg now w"
  by (simp_all add: timely_def queue_timely_def pending_timely_def)

lemma timely_delete: "timely cfg now w \<Longrightarrow> timely cfg now (w\<lparr>w_pending := AList.delete k (w_pending w)\<rparr>)"
  by (simp add: timely_def queue_timely_def pending_timely_def list_all_alist_delete)

lemma timely_dispatch: "timely cfg now w \<Longrightarrow> dispatch_query cfg di q peer now w = Some w' \<Longrightarrow> timely cfg now w'"
proof -
  assume w: "timely cfg now w" and d: "dispatch_query cfg di q peer now w = Some w'"
  have "timely cfg now (insert_pending s \<lparr>pe_query = q, pe_peer = peer, pe_deadline = now + wc_timeout cfg, pe_started = now\<rparr> w1)"
    if "timely cfg now w1" for s w1
    using that by (simp add: timely_def queue_timely_def pending_timely_def insert_pending_def list_all_alist_update)
  with w d show "timely cfg now w'"
    by (cases "build_request cfg q") (auto simp: dispatch_query_def Let_def split: option.splits prod.splits sum.splits)
qed

lemma timely_push:
  "timely cfg now w \<Longrightarrow>
    timely cfg now (w\<lparr>w_queue := w_queue w @ [\<lparr>qd_query = q, qd_peer = peer, qd_deadline = now + wc_timeout cfg\<rparr>]\<rparr>)"
  by (auto simp: timely_def queue_timely_def pending_timely_def sorted_append list_all_iff)

lemma timely_drain: "timely cfg now w \<Longrightarrow> drain_dns cfg now ds w = Some w' \<Longrightarrow> timely cfg now w'"
proof (induction ds arbitrary: w)
  case (Cons d ds)
  obtain buf peer di where d: "d = (buf, peer, di)" by (cases d)
  from Cons.prems Cons.IH [OF timely_dispatch [OF Cons.prems(1)]] Cons.IH [OF timely_push [OF Cons.prems(1)]]
    Cons.IH [of w] Cons.IH [of "send_servfail (take MAX_DNS_LEN buf) peer (count_failure w)"] show ?case
    by (auto simp: d Let_def Option.bind_eq_Some_conv split: if_splits)
qed simp

lemma timely_flush: "timely cfg now w \<Longrightarrow> flush_queries cfg now dis k qs w = Some w' \<Longrightarrow> timely cfg now w'"
proof (induction qs arbitrary: k w)
  case (Cons q qs)
  from Cons.prems Cons.IH [OF timely_dispatch [OF Cons.prems(1)]]
    Cons.IH [of "send_servfail (qd_query q) (qd_peer q) (count_failure w)"] show ?case
    by (auto simp: Option.bind_eq_Some_conv split: if_splits)
qed simp

lemma timely_flush_queue: "timely cfg now w \<Longrightarrow> flush_queue cfg now dis w = Some w' \<Longrightarrow> timely cfg now w'"
proof -
  assume "timely cfg now w" and f: "flush_queue cfg now dis w = Some w'"
  then have "timely cfg now (w\<lparr>w_queue := []\<rparr>)" by (simp add: timely_def queue_timely_def pending_timely_def)
  from timely_flush [OF this] f show "timely cfg now w'" by (simp add: flush_queue_def)
qed

lemma timely_connected: "timely cfg now w \<Longrightarrow> on_connected cfg now ei w = Some w' \<Longrightarrow> timely cfg now w'"
  by (auto simp: on_connected_def Let_def split: if_splits dest: timely_flush_queue [rotated])

lemma timely_fail_all: "timely cfg now w \<Longrightarrow> timely cfg now (fail_all ps w)"
  by (induction ps arbitrary: w) auto

lemma timely_fail_all_pending: "timely cfg now w \<Longrightarrow> timely cfg now (fail_all_pending w)"
  unfolding fail_all_pending_def by (intro timely_fail_all) (simp add: timely_def queue_timely_def pending_timely_def)

lemma timely_quic_event: "timely cfg now w \<Longrightarrow> quic_event cfg now x (w, evs) = Some (w', evs') \<Longrightarrow> timely cfg now w'"
  by (cases "(cfg, now, x, w, evs)" rule: quic_event.cases)
    (auto simp: on_connection_lost_def Let_def timely_fail_all_pending on_stream_readable_def
      split: prod.splits dest: timely_connected [rotated])

lemma timely_quic_events: "timely cfg now w \<Longrightarrow> quic_events cfg now xs (w, evs) = Some (w', evs') \<Longrightarrow> timely cfg now w'"
proof (induction xs arbitrary: w evs)
  case (Cons x xs)
  then show ?case by (auto simp: Option.bind_eq_Some_conv dest: timely_quic_event)
qed simp

lemma timely_h3_event: "timely cfg now w \<Longrightarrow> timely cfg now (apply_h3_event t ev w)"
  using timely_delete [of cfg now w]
  by (cases "(t, ev, w)" rule: apply_h3_event.cases) (auto simp: Let_def split: option.split)

lemma timely_process: "timely cfg now w \<Longrightarrow> process_quic_events cfg now polled w = Some w' \<Longrightarrow> timely cfg now w'"
proof -
  have "timely cfg now (fold (apply_h3_event now) evs w)" if "timely cfg now w" for evs w
    using that by (induction evs arbitrary: w) (auto simp: timely_h3_event)
  then show "timely cfg now w \<Longrightarrow> process_quic_events cfg now polled w = Some w' \<Longrightarrow> timely cfg now w'"
    by (auto simp: process_quic_events_def split: prod.splits dest: timely_quic_events [rotated])
qed

lemma timely_house: "good w \<Longrightarrow> timely cfg now w \<Longrightarrow> timely cfg now (housekeeping cfg hi now w)"
proof -
  assume w: "good w" "timely cfg now w"
  obtain rt seq where sc: "same_clients (expire_queue now ((expire_pending now w)\<lparr>w_last_seq := seq, w_rt := rt\<rparr>))
      (housekeeping cfg hi now w)" using housekeeping_clients by blast
  have e: "good (expire_pending now w)" "w_queue (expire_pending now w) = w_queue w"
      "set (w_pending (expire_pending now w)) \<subseteq> set (w_pending w)"
    using expire_requests_keeps [OF w(1)] by (auto simp: expire_pending_def delete_fold_set)
  then have "w_queue (housekeeping cfg hi now w) = dropWhile (\<lambda>q. qd_deadline q \<le> now) (w_queue w)"
      "w_pending (housekeeping cfg hi now w) = w_pending (expire_pending now w)"
    using sc by (simp_all add: same_clients_def expire_queue_keeps)
  with w(2) e(3) show "timely cfg now (housekeeping cfg hi now w)"
    by (auto simp: timely_def queue_timely_def pending_timely_def list_all_iff dropWhile_eq_drop sorted_wrt_drop
        drop_map [symmetric] dest: in_set_dropD)
qed

section \<open>Passes and runs\<close>

lemma timely_events:
  "good w \<Longrightarrow> timely cfg now w \<Longrightarrow> handle_events cfg now evs (w, sd) = Inr (w', sd') \<Longrightarrow> timely cfg now w'"
proof (induction evs arbitrary: w sd)
  case (Cons ev evs)
  then obtain w1 sd1 where h: "handle_event cfg now ev (w, sd) = Inr (w1, sd1)" "handle_events cfg now evs (w1, sd1) = Inr (w', sd')"
    by (auto simp: bindE_eq_Inr)
  have "timely cfg now w1" using h(1) Cons.prems(1,2)
    by (cases ev) (auto simp: ok_or_def timely_house split: option.splits if_splits dest: timely_drain timely_process)
  moreover have "good w1" using event_keeps [OF Cons.prems(1), where cfg = cfg and now = now and ev = ev and sd = sd] h(1) by simp
  ultimately show ?case using Cons.IH h(2) by blast
qed simp

lemma timely_pass:
  "good w \<Longrightarrow> timely cfg now w \<Longrightarrow> worker_pass cfg now evs drained w = Inr (w', sd) \<Longrightarrow> timely cfg now w'"
proof -
  assume w: "good w" "timely cfg now w" and p: "worker_pass cfg now evs drained w = Inr (w', sd)"
  then obtain w1 where w1: "handle_events cfg now evs (w, False) = Inr (w1, sd)"
      and w': "w' = (if sd then fail_all_pending (check_drained now drained w1) else check_drained now drained w1)"
    by (auto simp: worker_pass_def bindE_eq_Inr Let_def)
  have "timely cfg now (check_drained now drained w1)"
    using timely_events [OF w w1] by (simp add: check_drained_def Let_def timely_fail_all_pending)
  then show "timely cfg now w'" by (simp add: w' timely_fail_all_pending)
qed

lemma timely_run:
  "good w \<Longrightarrow> timely cfg t w \<Longrightarrow> sorted (t # map fst passes @ [now]) \<Longrightarrow> worker_run cfg passes w = Inr (w', sd, rest)
    \<Longrightarrow> good w' \<and> timely cfg now w'"
proof (induction passes arbitrary: t w)
  case Nil
  then show ?case using timely_later by simp
next
  case (Cons p ps)
  obtain t1 evs drained where p: "p = (t1, evs, drained)" by (cases p)
  have le: "t \<le> t1" "t1 \<le> now" "sorted (t1 # map fst ps @ [now])" using Cons.prems(3) by (auto simp: p)
  obtain w1 sd1 where w1: "worker_pass cfg t1 evs drained w = Inr (w1, sd1)"
      "(if sd1 then Inr (w1, True, ps) else worker_run cfg ps w1) = Inr (w', sd, rest)"
    using Cons.prems(4) by (auto simp: p bindE_eq_Inr)
  have g: "good w1" using pass_keeps [OF Cons.prems(1), where cfg = cfg and now = t1 and evs = evs and drained = drained] w1(1) by simp
  have t1: "timely cfg t1 w1" using timely_pass [OF Cons.prems(1) timely_later [OF Cons.prems(2) le(1)] w1(1)] .
  show ?case
  proof (cases sd1)
    case True
    with w1(2) g timely_later [OF t1 le(2)] show ?thesis by simp
  next
    case False
    with Cons.IH [OF g t1 le(3)] w1(2) show ?thesis by simp
  qed
qed

text \<open>
  C17. No client waits past its deadline, in any run. At any time \<open>now\<close> after passes in order of time, every query in flight or
  queued has a deadline at most one timeout away, the timer of the event loop is armed no later than that deadline,
  and when housekeeping runs at \<open>now\<close> every query whose deadline has come is answered: all that remain have a later deadline,
  and none has disappeared unanswered.
\<close>

theorem deadlines_met:
  assumes "worker_init cfg us seq scores t0 ci = Inr w0" and "sorted (map fst passes @ [now])"
    and "worker_run cfg passes w0 = Inr (w, shutdown, rest)"
  shows "list_all (\<lambda>(_, p). pe_deadline p \<le> now + wc_timeout cfg
        \<and> (\<exists>d. next_deadline ct w = Some d \<and> d \<le> pe_deadline p)) (w_pending w)
    \<and> list_all (\<lambda>q. qd_deadline q \<le> now + wc_timeout cfg
        \<and> (\<exists>d. next_deadline ct w = Some d \<and> d \<le> qd_deadline q)) (w_queue w)
    \<and> list_all (\<lambda>(_, p). now < pe_deadline p) (w_pending (housekeeping cfg hi now w))
    \<and> list_all (\<lambda>q. now < qd_deadline q) (w_queue (housekeeping cfg hi now w))
    \<and> ledger (housekeeping cfg hi now w) = ledger w"
proof -
  let ?t = "case passes of [] \<Rightarrow> now | p # _ \<Rightarrow> fst p"
  have w0: "good w0" "timely cfg ?t w0"
    using worker_init_good [OF assms(1)] assms(1)
    by (auto simp: timely_def queue_timely_def pending_timely_def worker_init_def ok_or_def
        split: if_splits option.splits prod.splits sum.splits)
  have "sorted (?t # map fst passes @ [now])" using assms(2) by (cases passes) auto
  from timely_run [OF w0 this assms(3)] have w: "good w" "queue_timely cfg now w" "pending_timely cfg now w"
    by (simp_all add: timely_def)
  note due = housekeeping_answers_due [OF w(1,2), of hi ct]
  from w(2,3) due show ?thesis
    by (auto simp: queue_timely_def pending_timely_def list_all_iff)
qed

theorem deadlines_met_witness:
  "\<exists>w0 w. worker_init demo_worker demo_set 2 scores_create 0 demo_connect = Inr w0
    \<and> worker_run demo_worker [(1, [DnsReady [(demo_query 7, demo_peer 5353, demo_dispatch)]], False)] w0 = Inr (w, False, [])
    \<and> list_all (\<lambda>(_, p). from_secs 10 < pe_deadline p) (w_pending (housekeeping demo_worker demo_house (from_secs 10) w))
    \<and> list_all (\<lambda>q. from_secs 10 < qd_deadline q) (w_queue (housekeeping demo_worker demo_house (from_secs 10) w))
    \<and> ledger (housekeeping demo_worker demo_house (from_secs 10) w) = {#(demo_query 7, demo_peer 5353)#}"
proof -
  obtain w0 where w0: "worker_init demo_worker demo_set 2 scores_create 0 demo_connect = Inr w0"
    using demo_worker_starts by blast
  let ?ps = "[(1, [DnsReady [(demo_query 7, demo_peer 5353, demo_dispatch)]], False)] :: pass list"
  have g: "good w0" "ledger w0 = {#}" using worker_init_good [OF w0] by simp_all
  from drain_keeps [OF g(1), of demo_worker 1 "[(demo_query 7, demo_peer 5353, demo_dispatch)]"] obtain w1 where
    w1: "drain_dns demo_worker 1 [(demo_query 7, demo_peer 5353, demo_dispatch)] w0 = Some w1" "good w1"
      "ledger w1 = {#(demo_query 7, demo_peer 5353)#}" by (auto simp: g(2) accepted_simps demo_valid)
  then have r: "worker_run demo_worker ?ps w0 = Inr (check_drained 1 False w1, False, [])" by (simp add: worker_pass_def)
  have "sorted (map fst ?ps @ [from_secs 10])" by (simp add: from_secs_def)
  from deadlines_met [OF w0 this r, of None demo_house] w0 r w1(2,3) show ?thesis
    by (auto simp: check_drained_keeps)
qed

end
