(* ===== verification/End_To_End.thy ===== *)
theory End_To_End
  imports Answers
begin

text \<open>
  One query from the client's datagram to the client's answer: \<open>drain_dns\<close>, the request on its stream, the
  response arriving in any pieces over any number of events, and the reply, through \<open>worker.rs\<close>, \<open>h3.rs\<close>, \<open>dns.rs\<close>
  and \<open>quic.rs\<close>.
\<close>

section \<open>The upstream server's response\<close>

text \<open>
  The environment: response bytes on one stream, in batches of chunks; each batch is announced by one event and the last one
  ends with the end of the stream.
\<close>

definition readable_in :: "chunk_next list \<Rightarrow> event_in" where
  "readable_in cs =
    \<lparr>ei_accepted = False, ei_readable = ReadOk, ei_chunks = cs, ei_control = None, ei_writes = [],
     ei_dispatch = (\<lambda>_. \<lparr>di_open = None, di_writes = [], di_finish = False\<rparr>)\<rparr>"

fun respond :: "worker_config \<Rightarrow> u64 \<Rightarrow> (instant \<times> bytes list) list \<Rightarrow> instant \<times> bytes list \<Rightarrow> worker \<Rightarrow> worker option" where
  "respond cfg s [] (t, cs) w =
    process_quic_events cfg t [(Readable s, readable_in (map Chunk cs @ [ChunkEof]))] w"
| "respond cfg s ((t, cs) # bs) b w =
    Option.bind (process_quic_events cfg t [(Readable s, readable_in (map Chunk cs))] w) (respond cfg s bs b)"

lemma feed_all_response:
  "\<exists>r'. feed_all (set_stream h s (Response r)) s cs ev = (set_stream h s (Response r'), ev)"
proof (induction cs arbitrary: r)
  case (Cons c cs)
  obtain r' where "h3_feed (set_stream h s (Response r)) s c ev = (set_stream h s (Response r'), ev)"
    by (cases "frame_loop response_frame (parser_feed (r_parser r) c) (r_status r, r_body r, r_got_data r, r_failed r)")
      (simp add: feed_response [of "set_stream _ _ _"] case_prod_beta)
  with Cons [of r'] show ?case by (simp add: feed_all_def)
qed (auto simp: feed_all_def)

lemma feed_all_append: "feed_all h s (xs @ ys) ev = (case feed_all h s xs ev of (h', ev') \<Rightarrow> feed_all h' s ys ev')"
  by (simp add: feed_all_def case_prod_beta)

lemma read_feed:
  "read_chunks (map Chunk cs @ rest) (\<lambda>c (h, evs). h3_feed h s c evs) (h, ev)
    = read_chunks rest (\<lambda>c (h, evs). h3_feed h s c evs) (feed_all h s cs ev)"
proof (induction cs arbitrary: h ev)
  case (Cons c cs)
  then show ?case by (cases "h3_feed h s c ev") (simp add: feed_all_def)
qed (simp add: feed_all_def)

lemma process_one:
  assumes "q_conn (w_quic w)"
  shows "process_quic_events cfg t [(Readable s, ei)] w =
    (case on_stream_readable s ei (w, []) of (w', evs) \<Rightarrow> Some (fold (apply_h3_event t) evs w'))"
proof -
  have "w\<lparr>w_quic := w_quic w\<rparr> = w" by simp
  with assms show ?thesis
    by (simp add: process_quic_events_def poll_events_def case_prod_beta)
qed

text \<open>A batch that does not end the stream only moves the response on.\<close>

lemma respond_batch:
  assumes "q_conn (w_quic w)" "w_h3 w = set_stream h s (Response r)"
  shows "\<exists>r'. feed_all (w_h3 w) s cs [] = (set_stream h s (Response r'), [])
    \<and> process_quic_events cfg t [(Readable s, readable_in (map Chunk cs))] w = Some (w\<lparr>w_h3 := set_stream h s (Response r')\<rparr>)"
proof -
  obtain r' where r': "feed_all (w_h3 w) s cs [] = (set_stream h s (Response r'), [])"
    using feed_all_response [of h s r cs "[]"] assms(2) by auto
  have "on_stream_readable s (readable_in (map Chunk cs)) (w, []) = (w\<lparr>w_h3 := set_stream h s (Response r')\<rparr>, [])"
    using read_feed [of cs "[]" s "w_h3 w" "[]"] assms(1) r'
    by (simp add: on_stream_readable_def read_stream_def readable_in_def)
  with r' show ?thesis by (intro exI [of _ r']) (simp add: process_one [OF assms(1)])
qed

lemma respond_feeds:
  assumes "q_conn (w_quic w)" "w_h3 w = set_stream h s (Response r)"
  shows "\<exists>h'. feed_all (w_h3 w) s (concat (map snd bs) @ cs) [] = (h', [])
    \<and> respond cfg s bs (t, cs) w =
        (case finish h' s [] of (h'', evs) \<Rightarrow> Some (fold (apply_h3_event t) evs (w\<lparr>w_h3 := h''\<rparr>)))"
  using assms
proof (induction bs arbitrary: w r)
  case Nil
  obtain r' where r': "feed_all (w_h3 w) s cs [] = (set_stream h s (Response r'), [])"
    using feed_all_response [of h s r cs "[]"] Nil.prems(2) by auto
  have "on_stream_readable s (readable_in (map Chunk cs @ [ChunkEof])) (w, []) =
      (case finish (set_stream h s (Response r')) s [] of (h'', evs) \<Rightarrow> (w\<lparr>w_h3 := h''\<rparr>, evs))"
    using read_feed [of cs "[ChunkEof]" s "w_h3 w" "[]"] Nil.prems(1) r'
    by (simp add: on_stream_readable_def read_stream_def readable_in_def)
  with r' show ?case by (simp add: process_one [OF Nil.prems(1)] case_prod_beta)
next
  case (Cons b bs)
  obtain t0 cs0 where b: "b = (t0, cs0)" by (cases b)
  obtain r' where r': "feed_all (w_h3 w) s cs0 [] = (set_stream h s (Response r'), [])"
      "process_quic_events cfg t0 [(Readable s, readable_in (map Chunk cs0))] w = Some (w\<lparr>w_h3 := set_stream h s (Response r')\<rparr>)"
    using respond_batch [OF Cons.prems] by blast
  from Cons.IH [of "w\<lparr>w_h3 := set_stream h s (Response r')\<rparr>" r'] Cons.prems(1) r' show ?case
    by (simp add: b feed_all_append)
qed

section \<open>From the query to the reply\<close>

lemma write_loop_no_error: "None \<notin> set ws \<Longrightarrow> snd (write_loop ws data off) = Inr ()"
proof (induction ws arbitrary: off)
  case (Cons x ws)
  then show ?case by (cases x) (subst write_loop.simps, auto)+
qed (subst write_loop.simps, simp)

lemma write_all_no_error: "q_conn q \<Longrightarrow> None \<notin> set ws \<Longrightarrow> snd (write_all q ws data) = Inr ()"
  using write_loop_no_error [of ws data 0] by (simp add: write_all_def case_prod_beta)

text \<open>A query that meets no error is in flight on its stream afterwards.\<close>

lemma dispatched:
  assumes "good w" "valid_query q" "q_conn (w_quic w)" "map_of (w_pending w) s = None"
    and di: "di_open di = Some s" "None \<notin> set (di_writes di)" "di_finish di"
  shows "\<exists>written. dispatch_query cfg di q peer now w = Some (w\<lparr>w_h3 := register_request (w_h3 w) s,
    w_pending := w_pending w @ [(s, \<lparr>pe_query = q, pe_peer = peer, pe_deadline = now + wc_timeout cfg, pe_started = now\<rparr>)],
    w_written := w_written w @ [(s, written)]\<rparr>)"
proof -
  obtain req where req: "build_request cfg q = Some req" using build_request_total [OF assms(2)] by blast
  obtain taken where wr: "write_all (w_quic w) (di_writes di) req = (taken, Inr ())"
    using write_all_no_error [OF assms(3) di(2), of req] by (cases "write_all (w_quic w) (di_writes di) req") auto
  have "s \<notin> fst ` set (w_pending w)" using assms(4) by (simp add: map_of_eq_None_iff)
  then show ?thesis
    using assms(3,4) di
    by (intro exI [of _ taken])
      (simp add: dispatch_query_def open_bi_def req wr finish_stream_def insert_pending_def alist_update_new Let_def)
qed

definition reply_bytes :: "bytes \<Rightarrow> bytes option \<Rightarrow> bytes" where
  "reply_bytes q body = (case body of Some b \<Rightarrow> restore_id q b | None \<Rightarrow> servfail_header (take 12 q @ echoed_question q))"

text \<open>
  C1. From end to end. A valid query that reaches a connected worker and is written to a fresh request stream
  without error is answered by exactly what the upstream server sends on that stream: however the response is cut into
  chunks, events and batches, once it has ended the client that asked gets exactly one new datagram, the DATA
  payloads of a status-200 response with the client's own ID put back, or a SERVFAIL for its question when the
  response is anything else. Nothing else is sent, and no other request is disturbed.
\<close>

theorem query_gets_response:
  assumes "good w" "valid_query (take MAX_DNS_LEN buf)"
    and up: "q_conn (w_quic w)" "w_h3_ready w" "\<not> w_goaway w" "map_of (w_pending w) s = None"
    and di: "di_open di = Some s" "None \<notin> set (di_writes di)" "di_finish di"
    and resp: "list_all frame_valid fs" "next_frame (parser_of tail) = None"
      "concat (concat (map snd bs) @ cs) = concat (map frame_enc fs) @ tail"
  shows "\<exists>w1 w2. drain_dns cfg now [(buf, peer, di)] w = Some w1 \<and> respond cfg s bs (t, cs) w1 = Some w2
    \<and> w_sent w1 = w_sent w \<and> w_pending w2 = w_pending w \<and> w_queue w2 = w_queue w
    \<and> w_sent w2 = w_sent w @ [\<lparr>re_bytes = reply_bytes (take MAX_DNS_LEN buf) (delivered fs), re_peer = peer,
        re_query = take MAX_DNS_LEN buf\<rparr>]"
proof -
  let ?q = "take MAX_DNS_LEN buf"
  let ?p = "\<lparr>pe_query = ?q, pe_peer = peer, pe_deadline = now + wc_timeout cfg, pe_started = now\<rparr>"
  obtain written where d: "dispatch_query cfg di ?q peer now w = Some (w\<lparr>w_h3 := register_request (w_h3 w) s,
      w_pending := w_pending w @ [(s, ?p)], w_written := w_written w @ [(s, written)]\<rparr>)"
    using dispatched [OF assms(1,2) up(1,4) di] by blast
  define w1 where "w1 = w\<lparr>w_h3 := register_request (w_h3 w) s, w_pending := w_pending w @ [(s, ?p)],
      w_written := w_written w @ [(s, written)]\<rparr>"
  have drain: "drain_dns cfg now [(buf, peer, di)] w = Some w1"
    using assms(2) up d by (simp add: isl_validate has_conn_def w1_def Let_def)
  from up(1) obtain h' where h': "feed_all (w_h3 w1) s (concat (map snd bs) @ cs) [] = (h', [])"
      "respond cfg s bs (t, cs) w1 =
        (case finish h' s [] of (h'', evs) \<Rightarrow> Some (fold (apply_h3_event t) evs (w1\<lparr>w_h3 := h''\<rparr>)))"
  proof -
    have "q_conn (w_quic w1)" using up(1) by (simp add: w1_def)
    moreover have "w_h3 w1 = set_stream (w_h3 w) s (Response \<lparr>r_parser = parser_default, r_status = None,
        r_body = [], r_got_data = False, r_failed = False\<rparr>)" by (simp add: w1_def register_request_set)
    ultimately show thesis using respond_feeds that by blast
  qed
  have fin: "finish h' s [] = (remove (w_h3 w) s, [case delivered fs of Some body \<Rightarrow> ResponseEv s body | None \<Rightarrow> FailedEv s])"
    using response_event [OF resp, where h = "w_h3 w" and s = s and ev = "[]"] h'(1) by (simp add: w1_def)
  have look: "map_of (w_pending w @ [(s, ?p)]) s = Some ?p" using up(4) by (simp add: map_add_def)
  have del: "AList.delete s (w_pending w @ [(s, ?p)]) = w_pending w"
    using up(4) by (force simp: AList.delete_eq map_of_eq_None_iff filter_id_conv)
  define w2 where "w2 = apply_h3_event t (case delivered fs of Some body \<Rightarrow> ResponseEv s body | None \<Rightarrow> FailedEv s)
    (w1\<lparr>w_h3 := remove (w_h3 w) s\<rparr>)"
  have "respond cfg s bs (t, cs) w1 = Some w2" by (simp add: h'(2) fin w2_def)
  moreover have "w_pending w2 = w_pending w \<and> w_queue w2 = w_queue w
    \<and> w_sent w2 = w_sent w @ [\<lparr>re_bytes = reply_bytes ?q (delivered fs), re_peer = peer, re_query = ?q\<rparr>]"
    using look del send_servfail_valid(1) [OF assms(2)]
    by (auto simp: w2_def w1_def reply_bytes_def split: option.split)
  ultimately show ?thesis using drain by (auto simp: w1_def)
qed

definition idle_worker :: worker where
  "idle_worker = busy_worker\<lparr>w_pending := [], w_h3 := h3_new\<rparr>"

theorem query_gets_response_witness:
  "let fs = [(FRAME_HEADERS, encode_field_section [('':status'', ''200'')] []), (FRAME_DATA, [9, 9, 0x81, 0x80])];
       bytes = concat (map frame_enc fs)
   in \<exists>w1 w2. drain_dns demo_worker 0 [(demo_query 7, demo_peer 5353, demo_dispatch)] idle_worker = Some w1
      \<and> respond demo_worker 0 [(1, map (\<lambda>b. [b]) (take 5 bytes))] (2, [drop 5 bytes]) w1 = Some w2
      \<and> w_sent w2 = [\<lparr>re_bytes = [0, 7, 0x81, 0x80], re_peer = demo_peer 5353, re_query = demo_query 7\<rparr>]"
proof -
  let ?fs = "[(FRAME_HEADERS, encode_field_section [('':status'', ''200'')] []), (FRAME_DATA, [9, 9, 0x81, 0x80])]"
  let ?b = "concat (map frame_enc ?fs)"
  have g: "good idle_worker" "map_of (w_pending idle_worker) 0 = None"
    by (simp_all add: idle_worker_def busy_worker_def good_def pending_ok_def queue_ok_def)
  have q: "valid_query (take MAX_DNS_LEN (demo_query 7))" by (simp add: demo_valid)
  have up: "q_conn (w_quic idle_worker)" "w_h3_ready idle_worker" "\<not> w_goaway idle_worker"
    by (simp_all add: idle_worker_def busy_worker_def)
  have di: "di_open demo_dispatch = Some 0" "None \<notin> set (di_writes demo_dispatch)" "di_finish demo_dispatch"
    by (simp_all add: demo_dispatch_def)
  have fs: "list_all frame_valid ?fs" "next_frame (parser_of []) = None"
    by (simp_all add: frame_valid_def h3_consts short_section next_frame_empty)
  have cut: "concat (concat (map snd [(1 :: instant, map (\<lambda>b. [b]) (take 5 ?b))]) @ [drop 5 ?b]) = ?b @ []"
    by (simp del: take_append drop_append append_assoc list.map concat.simps add: concat_map_singleton)
      (simp del: take_append drop_append)
  have "delivered ?fs = Some [9, 9, 0x81, 0x80]"
    by (simp add: delivered_def data_payloads_def header_statuses_def h3_consts section_statuses)
  then have r: "reply_bytes (take MAX_DNS_LEN (demo_query 7)) (delivered ?fs) = [0, 7, 0x81, 0x80]"
    by (simp add: reply_bytes_def restore_id_def demo_valid) (simp add: demo_query_def)
  from query_gets_response [OF g(1) q up g(2) di fs cut, of demo_worker 0 "demo_peer 5353" 2] show ?thesis
    unfolding Let_def r by (auto simp: demo_valid idle_worker_def busy_worker_def)
qed

end
