(* ===== verification/Handlers.thy ===== *)
theory Handlers
  imports Answers
begin

text \<open>
  Invariants of the worker, proved once: a predicate on workers that the elementary updates of
  \<^verbatim>\<open>src/pkgs/microdoh3/src/worker.rs\<close> keep is kept by every handler, by every pass of the event loop and so by every
  run. The locale lists the elementary updates, its lemmas follow the handlers in the order of the code.
\<close>

lemma saturating_nonneg: "0 \<le> saturating_duration_since t1 t0"
  by (simp add: saturating_duration_since_def)

section \<open>The contract of an invariant\<close>

locale worker_invariant =
  fixes cfg :: worker_config
    and I :: "runtime \<Rightarrow> duration \<Rightarrow> shared_scores \<Rightarrow> reply list \<Rightarrow> (bytes \<times> sock_addr) list \<Rightarrow> bool"
  assumes reply: "I rt b sc sent gone \<Longrightarrow> I rt b sc (sent @ [r]) gone"
    and overwrite: "I rt b sc sent gone \<Longrightarrow> I rt b sc sent (gone @ xs)"
    and failure: "I rt b sc sent gone \<Longrightarrow> I (rt\<lparr>ru_quality := on_failure (ru_quality rt)\<rparr>) b sc sent gone"
    and success: "I rt b sc sent gone \<Longrightarrow> 0 \<le> d \<Longrightarrow> I (rt\<lparr>ru_quality := on_success d (ru_quality rt)\<rparr>) b sc sent gone"
    and streak: "I rt b sc sent gone \<Longrightarrow> I (rt\<lparr>ru_fail_streak := n\<rparr>) b sc sent gone"
    and no_backoff: "I rt b sc sent gone \<Longrightarrow> I rt 0 sc sent gone"
    and backoff: "I rt b sc sent gone \<Longrightarrow> I rt (next_backoff b) sc sent gone"
    and adopt: "I rt b sc sent gone \<Longrightarrow> I (adopt_set cfg (fst (read_if_changed sh seq)) now rt) b sc sent gone"
    and score: "I rt b sc sent gone \<Longrightarrow>
      I (rt\<lparr>ru_quality := reset_window (ru_quality rt), ru_last_score := now\<rparr>) b
        (score_write sc (wc_child_idx cfg) (quality_sample (ru_quality rt) (Some (sa_ip (ru_my_remote rt))) flags) secs) sent gone"
    and migrate: "I rt b sc sent gone \<Longrightarrow> I (migrate_to cfg target now rt) b sc sent gone"
begin

definition holds :: "worker \<Rightarrow> bool" where
  "holds w \<longleftrightarrow> I (w_rt w) (w_backoff w) (w_scores w) (w_sent w) (w_lost w)"

lemma holds_frame [simp]:
  "holds (w\<lparr>w_quic := x1\<rparr>) = holds w" "holds (w\<lparr>w_h3 := x2\<rparr>) = holds w" "holds (w\<lparr>w_goaway := x3\<rparr>) = holds w"
  "holds (w\<lparr>w_h3_ready := x4\<rparr>) = holds w" "holds (w\<lparr>w_reconnect_at := x5\<rparr>) = holds w"
  "holds (w\<lparr>w_last_seq := x6\<rparr>) = holds w" "holds (w\<lparr>w_written := x7\<rparr>) = holds w"
  "holds (w\<lparr>w_queue := x8\<rparr>) = holds w" "holds (w\<lparr>w_pending := x9\<rparr>) = holds w"
  by (simp_all add: holds_def)

lemma keeps_failure: "holds w \<Longrightarrow> holds (count_failure w)"
  by (simp add: holds_def count_failure_def failure)

lemma keeps_reply: "holds w \<Longrightarrow> holds (send_reply b q peer w)"
  by (simp add: holds_def send_reply_def reply)

lemma keeps_insert: "holds w \<Longrightarrow> holds (insert_pending k p w)"
  by (simp add: holds_def insert_pending_def overwrite)

lemma keeps_servfail: "holds w \<Longrightarrow> holds (send_servfail q peer w)"
  by (auto simp: send_servfail_def keeps_reply split: prod.split bool.split)

lemma keeps_fail_all: "holds w \<Longrightarrow> holds (fail_all ps w)"
  by (induction ps arbitrary: w) (auto simp: keeps_servfail keeps_failure)

lemma keeps_fail_all_pending: "holds w \<Longrightarrow> holds (fail_all_pending w)"
  by (simp add: fail_all_pending_def keeps_fail_all)

lemma keeps_dispatch: "holds w \<Longrightarrow> dispatch_query cfg' di q peer now w = Some w' \<Longrightarrow> holds w'"
  by (cases "build_request cfg' q")
    (auto simp: dispatch_query_def Let_def keeps_servfail keeps_failure keeps_insert split: option.splits prod.splits sum.splits)

lemma keeps_drain: "holds w \<Longrightarrow> drain_dns cfg' now ds w = Some w' \<Longrightarrow> holds w'"
proof (induction ds arbitrary: w)
  case (Cons d ds)
  obtain buf peer di where d: "d = (buf, peer, di)" by (cases d)
  note next_datagram = Cons.IH [OF keeps_servfail [OF keeps_failure [OF Cons.prems(1)]]] Cons.IH [OF keeps_dispatch [OF Cons.prems(1)]]
  from Cons.prems Cons.IH [of "w\<lparr>w_queue := _\<rparr>"] Cons.IH [of w] next_datagram show ?case
    by (simp add: d Let_def Option.bind_eq_Some_conv split: if_splits) blast
qed simp

lemma keeps_flush: "holds w \<Longrightarrow> flush_queries cfg' now dis k qs w = Some w' \<Longrightarrow> holds w'"
proof (induction qs arbitrary: k w)
  case (Cons q qs)
  from Cons.prems Cons.IH [OF keeps_servfail [OF keeps_failure [OF Cons.prems(1)]]] Cons.IH [OF keeps_dispatch [OF Cons.prems(1)]]
  show ?case by (auto simp: Option.bind_eq_Some_conv split: if_splits)
qed simp

lemma keeps_connected: "holds w \<Longrightarrow> on_connected cfg' now ei w = Some w' \<Longrightarrow> holds w'"
proof -
  assume w: "holds w" and c: "on_connected cfg' now ei w = Some w'"
  have "holds (w\<lparr>w_backoff := 0, w_reconnect_at := None, w_rt := (w_rt w)\<lparr>ru_fail_streak := 0\<rparr>\<rparr>)"
    using w by (simp add: holds_def streak no_backoff)
  with c show "holds w'" by (auto simp: on_connected_def flush_queue_def Let_def split: if_splits dest: keeps_flush [rotated])
qed

lemma keeps_streak: "holds w \<Longrightarrow> holds (upd_rt streak_failure w)"
  by (simp add: holds_def streak_failure_def streak)

lemma keeps_lost: "holds w \<Longrightarrow> holds (on_connection_lost now app_closed w)"
proof -
  assume w: "holds w"
  let ?w1 = "upd_rt (\<lambda>rt. if app_closed then rt\<lparr>ru_fail_streak := 0\<rparr> else streak_failure rt) w"
  have "holds ?w1" using w by (simp add: holds_def streak_failure_def streak)
  then have "holds (fail_all_pending ?w1)" by (rule keeps_fail_all_pending)
  then show "holds (on_connection_lost now app_closed w)"
    unfolding on_connection_lost_def Let_def by (simp add: holds_def backoff)
qed

lemma keeps_readable: "holds w \<Longrightarrow> on_stream_readable idx ei (w, evs) = (w', evs') \<Longrightarrow> holds w'"
  by (auto simp: on_stream_readable_def split: prod.splits)

lemma keeps_quic_event: "holds w \<Longrightarrow> quic_event cfg' now x (w, evs) = Some (w', evs') \<Longrightarrow> holds w'"
  by (cases "(cfg', now, x, w, evs)" rule: quic_event.cases) (auto intro: keeps_connected keeps_lost dest: keeps_readable)

lemma keeps_quic_events: "holds w \<Longrightarrow> quic_events cfg' now xs (w, evs) = Some (w', evs') \<Longrightarrow> holds w'"
proof (induction xs arbitrary: w evs)
  case (Cons x xs)
  then show ?case by (auto simp: Option.bind_eq_Some_conv dest: keeps_quic_event)
qed simp

lemma keeps_success: "holds w \<Longrightarrow> 0 \<le> d \<Longrightarrow> holds (w\<lparr>w_pending := ps, w_rt := (w_rt w)\<lparr>ru_quality := on_success d (ru_quality (w_rt w))\<rparr>\<rparr>)"
  by (simp add: holds_def success)

lemma keeps_h3_event: "holds w \<Longrightarrow> holds (apply_h3_event now ev w)"
  by (cases "(now, ev, w)" rule: apply_h3_event.cases) (auto simp: Let_def keeps_servfail keeps_failure keeps_reply keeps_success saturating_nonneg split: option.split)

lemma keeps_h3_events: "holds w \<Longrightarrow> holds (fold (apply_h3_event now) evs w)"
  by (induction evs arbitrary: w) (auto simp: keeps_h3_event)

lemma keeps_process: "holds w \<Longrightarrow> process_quic_events cfg' now polled w = Some w' \<Longrightarrow> holds w'"
  by (auto simp: process_quic_events_def intro!: keeps_h3_events split: prod.splits dest: keeps_quic_events [rotated])

lemma keeps_expire_requests: "holds w \<Longrightarrow> holds (expire_requests ks w)"
proof (induction ks arbitrary: w)
  case (Cons x ks)
  obtain k p0 where x: "x = (k, p0)" by (cases x)
  show ?case using Cons by (auto simp: x keeps_servfail keeps_failure split: option.split)
qed simp

lemma keeps_expire_queries: "holds w \<Longrightarrow> holds (expire_queries now qs w)"
  by (induction qs arbitrary: w) (auto simp: keeps_servfail keeps_failure)

lemma keeps_moved: "holds w \<Longrightarrow> holds (consider_migration cfg now secs w)"
  by (auto simp: consider_migration_def holds_def migrate split: option.split)

lemma keeps_reconnect: "holds w \<Longrightarrow> holds (reconnect now ci w)"
  by (auto simp: reconnect_def Let_def holds_def streak_failure_def streak split: option.split prod.split sum.split)

lemma keeps_score: "holds w \<Longrightarrow> holds (publish_score cfg now secs w)"
  by (simp add: publish_score_def holds_def score)

lemma keeps_housekeeping: "holds w \<Longrightarrow> holds (housekeeping cfg hi now w)"
proof -
  assume w: "holds w"
  obtain read seq where rd: "read_if_changed (hi_shared hi) (w_last_seq (expire_pending now w)) = (read, seq)"
    by (cases "read_if_changed (hi_shared hi) (w_last_seq (expire_pending now w))")
  have "holds ((expire_pending now w)\<lparr>w_last_seq := seq\<rparr>)" using w by (simp add: expire_pending_def keeps_expire_requests)
  then have "holds (upd_rt (adopt_set cfg read now) ((expire_pending now w)\<lparr>w_last_seq := seq\<rparr>))"
    using adopt [where sh = "hi_shared hi" and seq = "w_last_seq (expire_pending now w)"] by (simp add: holds_def rd)
  then show "holds (housekeeping cfg hi now w)"
    by (simp add: housekeeping_def rd Let_def keeps_reconnect keeps_moved keeps_score expire_queue_def keeps_expire_queries)
qed

lemma keeps_event: "holds w \<Longrightarrow> handle_event cfg now ev (w, sd) = Inr (w', sd') \<Longrightarrow> holds w'"
  by (cases ev) (auto simp: ok_or_def keeps_housekeeping split: option.splits if_splits dest: keeps_drain keeps_process)

lemma keeps_events: "holds w \<Longrightarrow> handle_events cfg now evs (w, sd) = Inr (w', sd') \<Longrightarrow> holds w'"
proof (induction evs arbitrary: w sd)
  case (Cons ev evs)
  then show ?case by (auto simp: bindE_eq_Inr dest: keeps_event)
qed simp

lemma keeps_drained: "holds w \<Longrightarrow> holds (check_drained now drained w)"
  using keeps_fail_all_pending [OF keeps_streak] by (simp add: check_drained_def Let_def)

lemma keeps_pass: "holds w \<Longrightarrow> worker_pass cfg now evs drained w = Inr (w', sd) \<Longrightarrow> holds w'"
  by (auto simp: worker_pass_def bindE_eq_Inr Let_def intro: keeps_fail_all_pending keeps_drained dest: keeps_events split: if_splits)

lemma keeps_run: "holds w \<Longrightarrow> worker_run cfg ps w = Inr (w', sd, rest) \<Longrightarrow> holds w'"
proof (induction ps arbitrary: w)
  case (Cons p ps)
  then show ?case by (cases p) (auto simp: bindE_eq_Inr split: if_splits dest: keeps_pass)
qed simp

end

section \<open>The shape of the state\<close>

definition runtime_ok :: "worker_config \<Rightarrow> runtime \<Rightarrow> bool" where
  "runtime_ok cfg rt \<longleftrightarrow>
     ru_child_idx rt = wc_child_idx cfg \<and> sa_port (ru_my_remote rt) = u_port (wc_upstream cfg)
     \<and> us_addrs (ru_set rt) \<noteq> [] \<and> length (us_addrs (ru_set rt)) \<le> MAX_ADDRS
     \<and> length (us_weights (ru_set rt)) = length (us_addrs (ru_set rt))
     \<and> ru_slot rt < length (us_addrs (ru_set rt)) \<and> unat (ql_ewma_us (ru_quality rt)) < 2 ^ 32"

lemma slot_loop_range: "slot_loop target ws acc i = Some k \<Longrightarrow> k < i + length ws"
  by (induction ws arbitrary: acc i) (fastforce simp: Let_def split: if_splits)+

lemma slot_for_range:
  assumes "slot_for us idx = Some i" "length (us_addrs us) \<le> MAX_ADDRS"
  shows "i < length (us_addrs us)"
proof -
  define n where "n = min (length (us_addrs us)) (length (us_weights us))"
  have n: "0 < n" "n \<le> length (us_addrs us)" "n \<le> 16" "n \<le> length (us_weights us)"
    using assms by (auto simp: slot_for_def n_def Let_def MAX_ADDRS_def split: if_splits)
  have "unat ((of_nat idx :: u64) mod of_nat n) < n"
  proof -
    have "unat (of_nat n :: u64) = n" using n(3) by (intro unat_of_nat_u64) simp
    then show ?thesis using n(1) by (simp add: unat_mod)
  qed
  with assms(1) n slot_loop_range show ?thesis
    by (fastforce simp: slot_for_def Let_def n_def [symmetric] split: if_splits option.splits)
qed

lemma decode_page_shape:
  "length (us_addrs (decode_page p)) \<le> MAX_ADDRS \<and> length (us_weights (decode_page p)) = length (us_addrs (decode_page p))"
  by (auto simp: decode_page_def Let_def min_def MAX_ADDRS_def word_le_nat_alt)

lemma read_shape:
  "fst (read_if_changed sh seq) = Some us \<Longrightarrow>
    length (us_addrs us) \<le> MAX_ADDRS \<and> length (us_weights us) = length (us_addrs us)"
  using decode_page_shape by (auto simp: read_if_changed_def Let_def split: if_splits)

lemma adopt_runtime_ok: "runtime_ok cfg rt \<Longrightarrow> runtime_ok cfg (adopt_set cfg (fst (read_if_changed sh seq)) now rt)"
proof (cases "fst (read_if_changed sh seq)")
  case (Some us)
  assume rt: "runtime_ok cfg rt"
  note us = read_shape [OF Some]
  show ?thesis
  proof (cases "slot_for us (wc_child_idx cfg)")
    case None
    with us have "us_addrs us = []" by (auto simp: slot_for_def Let_def split: if_splits option.splits)
    with rt Some show ?thesis by (simp add: adopt_set_def)
  next
    case s: (Some i)
    then have "i < length (us_addrs us)" using us by (auto dest: slot_for_range)
    with rt us Some s show ?thesis by (auto simp: adopt_set_def runtime_ok_def Let_def)
  qed
qed (simp add: adopt_set_def)

lemma migrate_runtime_ok: "runtime_ok cfg rt \<Longrightarrow> runtime_ok cfg (migrate_to cfg target now rt)"
  by (auto simp: runtime_ok_def migrate_to_def quality_new_def position_eq_Some split: option.split)

lemma success_runtime_ok:
  assumes "runtime_ok cfg rt" "0 \<le> d"
  shows "runtime_ok cfg (rt\<lparr>ru_quality := on_success d (ru_quality rt)\<rparr>)"
proof -
  have "unat (ql_ewma_us (on_success d (ru_quality rt))) < 2 ^ 32"
    using on_success_ewma [of d "ru_quality rt"] assms capped_us_less [of d] by (auto simp: runtime_ok_def)
  with assms(1) show ?thesis by (simp add: runtime_ok_def)
qed

text \<open>The backoff stays between zero and its cap, the scores page keeps its slots.\<close>

definition shape_ok ::
  "worker_config \<Rightarrow> runtime \<Rightarrow> duration \<Rightarrow> shared_scores \<Rightarrow> reply list \<Rightarrow> (bytes \<times> sock_addr) list \<Rightarrow> bool" where
  "shape_ok cfg rt b sc sent gone \<longleftrightarrow>
    runtime_ok cfg rt \<and> 0 \<le> b \<and> b \<le> RECONNECT_BACKOFF_MAX \<and> length sc = MAX_WORKERS"

interpretation shape: worker_invariant cfg "shape_ok cfg" for cfg
  by unfold_locales
    (auto simp: shape_ok_def adopt_runtime_ok migrate_runtime_ok success_runtime_ok,
     auto simp: runtime_ok_def on_failure_def reset_window_def next_backoff_def RECONNECT_BACKOFF_MAX_def
       from_secs_def from_millis_def score_write_def Let_def)

lemma run_good: "good w \<Longrightarrow> worker_run cfg ps w = Inr (w', sd, rest) \<Longrightarrow> good w'"
  using worker_run_steps [where cfg = cfg and ps = ps and w = w] pass.steps_keep by fastforce

text \<open>
  C10. The state of a worker stays well-formed: started on a set read from the resolve page, after any
  sequence of passes the worker still has its own index, talks to the upstream's port, holds a non-empty set of at most
  16 addresses with one weight each and a slot within it; the latency estimate fits 32 bits, so that its 64-bit update
  cannot overflow; the reconnect backoff is between zero and five seconds; stream numbers are unique in
  the pending map, at most 64 queries are queued and the scores page has its 32 slots.
\<close>

theorem worker_state_typed:
  assumes "worker_init cfg (decode_page p) seq scores t0 ci = Inr w0" "length scores = MAX_WORKERS"
    and "worker_run cfg passes w0 = Inr (w, shutdown, rest)"
  shows "ru_child_idx (w_rt w) = wc_child_idx cfg \<and> sa_port (ru_my_remote (w_rt w)) = u_port (wc_upstream cfg)
    \<and> (let us = ru_set (w_rt w) in us_addrs us \<noteq> [] \<and> length (us_addrs us) \<le> MAX_ADDRS
         \<and> length (us_weights us) = length (us_addrs us) \<and> ru_slot (w_rt w) < length (us_addrs us))
    \<and> unat (ql_ewma_us (ru_quality (w_rt w))) < 2 ^ 32
    \<and> 0 \<le> w_backoff w \<and> w_backoff w \<le> from_secs 5
    \<and> distinct (map fst (w_pending w)) \<and> length (w_queue w) \<le> 64 \<and> length (w_scores w) = 32"
proof -
  have "shape.holds cfg w0"
    using assms(1,2) decode_page_shape [of p]
    by (auto simp: shape.holds_def shape_ok_def worker_init_def ok_or_def runtime_new_def runtime_ok_def quality_new_def
        RECONNECT_BACKOFF_MAX_def from_secs_def Let_def split: if_splits option.splits prod.splits sum.splits)
  then have "shape.holds cfg w" using assms(3) by (rule shape.keeps_run)
  moreover have "good w" using worker_init_good [OF assms(1)] assms(3) run_good by blast
  ultimately show ?thesis
    by (simp add: shape.holds_def shape_ok_def runtime_ok_def good_def pending_ok_def queue_ok_def Let_def MAX_QUEUED_def
        MAX_WORKERS_def RECONNECT_BACKOFF_MAX_def)
qed

theorem worker_state_typed_witness:
  "\<exists>p w0 w. worker_init demo_worker (decode_page p) 2 scores_create 0 demo_connect = Inr w0
    \<and> worker_run demo_worker [(1, [DnsReady [(demo_query 7, demo_peer 5353, demo_dispatch)]], False)] w0 = Inr (w, False, [])
    \<and> w_backoff w \<le> from_secs 5 \<and> ru_slot (w_rt w) < length (us_addrs (ru_set (w_rt w)))"
proof -
  let ?pb = "\<lparr>pb_addrs = [V4 1], pb_weights = [3], pb_workers = 2, pb_now1 = 0, pb_now2 = 0, pb_ttl = 60\<rparr> :: publication"
  let ?p = "publish_page ?pb zero_page"
  have d: "us_addrs (decode_page ?p) = [V4 1]" "us_weights (decode_page ?p) = [3]" "us_workers (decode_page ?p) = 2"
    by (simp_all add: decode_publish page_ok_zero MAX_ADDRS_def weight_or_def get_def)
  then have "slot_for (decode_page ?p) 0 = Some 0"
    by (simp add: slot_for_def total_weight_def Let_def)
  then obtain w0 where w0: "worker_init demo_worker (decode_page ?p) 2 scores_create 0 demo_connect = Inr w0"
    by (simp add: worker_init_def runtime_new_def d demo_worker_def get_def demo_connect_def
        connect_and_preamble_def quic_connect_def quic_flush_def has_0rtt_def quic_new_def Let_def)
  have "good w0" using worker_init_good [OF w0] by simp
  from drain_keeps [OF this] obtain w1 where
    "drain_dns demo_worker 1 [(demo_query 7, demo_peer 5353, demo_dispatch)] w0 = Some w1" by blast
  then obtain w where r: "worker_run demo_worker [(1, [DnsReady [(demo_query 7, demo_peer 5353, demo_dispatch)]], False)] w0
      = Inr (w, False, [])" by (simp add: worker_pass_def)
  have "length scores_create = MAX_WORKERS" by (simp add: scores_create_def)
  from worker_state_typed [OF w0 this r] w0 r show ?thesis by (auto simp: Let_def)
qed

end
