(* ===== verification/Service.thy ===== *)
theory Service
  imports Handlers
begin

text \<open>
  What a worker promises its clients, as an abstract service, and that the worker of \<open>worker.rs\<close> implements
  it. The service only knows which queries it owes an answer and which replies it has sent: it takes a valid
  query, answers a query it owes with a reply that carries the query's ID, or abandons a query. Each pass of the event
  loop is simulated by a sequence of such steps.
\<close>

section \<open>The abstract service\<close>

record service =
  sv_owed :: "(bytes \<times> sock_addr) multiset"
  sv_replies :: "reply list"

datatype act = Take "bytes \<times> sock_addr" | Answer reply | Abandon "bytes \<times> sock_addr"

abbreviation reply_key :: "reply \<Rightarrow> bytes \<times> sock_addr" where
  "reply_key r \<equiv> (re_query r, re_peer r)"

inductive serve :: "service \<Rightarrow> act \<Rightarrow> service \<Rightarrow> bool" where
  take: "valid_query (fst x) \<Longrightarrow> serve st (Take x) (st\<lparr>sv_owed := add_mset x (sv_owed st)\<rparr>)"
| answer: "sv_owed st = add_mset (reply_key r) rest \<Longrightarrow> reply_ok r \<Longrightarrow>
    serve st (Answer r) (st\<lparr>sv_owed := rest, sv_replies := sv_replies st @ [r]\<rparr>)"
| abandon: "sv_owed st = add_mset x rest \<Longrightarrow> serve st (Abandon x) (st\<lparr>sv_owed := rest\<rparr>)"

inductive serves :: "service \<Rightarrow> act list \<Rightarrow> service \<Rightarrow> bool" where
  nil: "serves st [] st"
| cons: "serve st a st' \<Longrightarrow> serves st' as st'' \<Longrightarrow> serves st (a # as) st''"

inductive_cases serveE: "serve st a st'"

lemma serves_append: "serves st as st' \<Longrightarrow> serves st' bs st'' \<Longrightarrow> serves st (as @ bs) st''"
  by (induction rule: serves.induct) (auto intro: serves.intros)

fun taken :: "act list \<Rightarrow> (bytes \<times> sock_addr) list" where
  "taken [] = []"
| "taken (Take x # as) = x # taken as"
| "taken (_ # as) = taken as"

fun replied :: "act list \<Rightarrow> reply list" where
  "replied [] = []"
| "replied (Answer r # as) = r # replied as"
| "replied (_ # as) = replied as"

lemma taken_append [simp]: "taken (as @ bs) = taken as @ taken bs"
  by (induction as rule: taken.induct) simp_all

lemma replied_append [simp]: "replied (as @ bs) = replied as @ replied bs"
  by (induction as rule: replied.induct) simp_all

lemma taken_map [simp]: "taken (map Take xs) = xs" "taken (map Answer rs) = []" "taken (map Abandon xs) = []"
  by (induction xs, simp_all) (induction rs, simp_all)

lemma replied_map [simp]: "replied (map Take xs) = []" "replied (map Answer rs) = rs" "replied (map Abandon xs) = []"
  by (induction xs, simp_all) (induction rs, simp_all)

text \<open>What the service promises: every query it has taken was answered, abandoned or is rest, nothing else is answered.\<close>

fun abandoned :: "act list \<Rightarrow> (bytes \<times> sock_addr) list" where
  "abandoned [] = []"
| "abandoned (Abandon x # as) = x # abandoned as"
| "abandoned (_ # as) = abandoned as"

lemma abandoned_append [simp]: "abandoned (as @ bs) = abandoned as @ abandoned bs"
  by (induction as rule: abandoned.induct) simp_all

lemma abandoned_map [simp]: "abandoned (map Take xs) = []" "abandoned (map Answer rs) = []" "abandoned (map Abandon xs) = xs"
  by (induction xs, simp_all) (induction rs, simp_all)

lemma serves_balance:
  "serves st as st' \<Longrightarrow> sv_replies st' = sv_replies st @ replied as
    \<and> sv_owed st + mset (taken as) = sv_owed st' + mset (map reply_key (replied as)) + mset (abandoned as)"
proof (induction rule: serves.induct)
  case (cons st a st' as st'')
  from cons.hyps(1) cons.IH show ?case by (cases rule: serve.cases) (auto simp: ac_simps)
qed simp

subsection \<open>Runs of one kind of act\<close>

lemma serves_take:
  "list_all (\<lambda>x. valid_query (fst x)) xs \<Longrightarrow>
    serves \<lparr>sv_owed = rest, sv_replies = rs\<rparr> (map Take xs) \<lparr>sv_owed = rest + mset xs, sv_replies = rs\<rparr>"
proof (induction xs arbitrary: rest)
  case (Cons x xs)
  have "serve \<lparr>sv_owed = rest, sv_replies = rs\<rparr> (Take x) \<lparr>sv_owed = add_mset x rest, sv_replies = rs\<rparr>"
    using serve.take [of x "\<lparr>sv_owed = rest, sv_replies = rs\<rparr>"] Cons.prems by simp
  with Cons.IH [of "add_mset x rest"] Cons.prems show ?case by (auto intro: serves.cons)
qed (simp add: serves.nil)

lemma serves_answer:
  "list_all reply_ok new \<Longrightarrow>
    serves \<lparr>sv_owed = rest + mset (map reply_key new), sv_replies = rs\<rparr> (map Answer new)
      \<lparr>sv_owed = rest, sv_replies = rs @ new\<rparr>"
proof (induction new arbitrary: rs)
  case (Cons r new)
  have "serve \<lparr>sv_owed = rest + mset (map reply_key (r # new)), sv_replies = rs\<rparr> (Answer r)
      \<lparr>sv_owed = rest + mset (map reply_key new), sv_replies = rs @ [r]\<rparr>"
    using serve.answer [of "\<lparr>sv_owed = rest + mset (map reply_key (r # new)), sv_replies = rs\<rparr>" r
        "rest + mset (map reply_key new)"] Cons.prems by simp
  with Cons.IH [of "rs @ [r]"] Cons.prems show ?case by (auto intro: serves.cons)
qed (simp add: serves.nil)

lemma serves_abandon:
  "serves \<lparr>sv_owed = rest + mset xs, sv_replies = rs\<rparr> (map Abandon xs) \<lparr>sv_owed = rest, sv_replies = rs\<rparr>"
proof (induction xs)
  case (Cons x xs)
  have "serve \<lparr>sv_owed = rest + mset (x # xs), sv_replies = rs\<rparr> (Abandon x) \<lparr>sv_owed = rest + mset xs, sv_replies = rs\<rparr>"
    using serve.abandon [of "\<lparr>sv_owed = rest + mset (x # xs), sv_replies = rs\<rparr>" x "rest + mset xs"] by simp
  with Cons show ?case by (auto intro: serves.cons)
qed (simp add: serves.nil)

section \<open>Replies are only ever added\<close>

definition logged ::
  "reply list \<Rightarrow> (bytes \<times> sock_addr) list \<Rightarrow> runtime \<Rightarrow> duration \<Rightarrow> shared_scores \<Rightarrow> reply list
    \<Rightarrow> (bytes \<times> sock_addr) list \<Rightarrow> bool" where
  "logged sent0 gone0 rt b sc sent gone \<longleftrightarrow> (\<exists>new lost. sent = sent0 @ new \<and> gone = gone0 @ lost)"

interpretation log: worker_invariant cfg "logged sent0 gone0" for cfg sent0 gone0
  by unfold_locales (auto simp: logged_def)

definition extends :: "worker \<Rightarrow> worker \<Rightarrow> bool" where
  "extends w w' \<longleftrightarrow> (\<exists>new gone. w_sent w' = w_sent w @ new \<and> w_lost w' = w_lost w @ gone)"

lemma extends_pass: "worker_pass cfg now evs drained w = Inr (w', sd) \<Longrightarrow> extends w w'"
  using log.keeps_pass [of "w_sent w" "w_lost w" w cfg now evs drained w' sd]
  by (simp add: log.holds_def logged_def extends_def)

section \<open>The simulation\<close>

text \<open>The abstract state of a worker.\<close>

definition abs_worker :: "worker \<Rightarrow> service" where
  "abs_worker w = \<lparr>sv_owed = owed w, sv_replies = w_sent w\<rparr>"

text \<open>A handler that takes in valid queries only and adds to its logs is simulated by the service.\<close>

locale serving = handler +
  assumes only_adds: "step i w = Inr w' \<Longrightarrow> extends w w'"
    and takes_valid: "x \<in># takes i \<Longrightarrow> valid_query (fst x)"
begin

lemma step_simulated:
  assumes "good w" "step i w = Inr w'"
  shows "\<exists>acts. serves (abs_worker w) acts (abs_worker w') \<and> mset (taken acts) = takes i
    \<and> w_lost w' = w_lost w @ abandoned acts"
proof -
  obtain new gone where log: "w_sent w' = w_sent w @ new" "w_lost w' = w_lost w @ gone"
    using only_adds [OF assms(2)] by (auto simp: extends_def)
  obtain xs where xs: "mset xs = takes i" using ex_mset by blast
  have valid: "list_all (\<lambda>x. valid_query (fst x)) xs"
    using takes_valid [of _ i] by (simp add: list_all_iff flip: xs)
  have ok: "list_all reply_ok new" using keeps_good [OF assms] log by (simp add: good_def)
  have "owed w + mset xs = owed w' + mset gone + mset (map reply_key new)"
    using keeps_ledger [OF assms] log by (simp add: ledger_def answered_def xs ac_simps)
  then have "serves (abs_worker w) (map Take xs @ map Answer new @ map Abandon gone) (abs_worker w')"
    using serves_take [OF valid, of "owed w" "w_sent w"] serves_answer [OF ok, of "owed w' + mset gone" "w_sent w"]
      serves_abandon [of "owed w'" gone "w_sent w @ new"] log(1)
    by (auto simp: abs_worker_def intro: serves_append)
  then show ?thesis by (intro exI [of _ "map Take xs @ map Answer new @ map Abandon gone"]) (simp add: xs log(2))
qed

lemma steps_simulated:
  "good w \<Longrightarrow> steps is w = Inr w' \<Longrightarrow>
    \<exists>acts. serves (abs_worker w) acts (abs_worker w') \<and> mset (taken acts) = sum_list (map takes is)
      \<and> w_lost w' = w_lost w @ abandoned acts"
proof (induction "is" arbitrary: w)
  case Nil
  then show ?case by (intro exI [of _ "[]"]) (simp add: serves.nil)
next
  case (Cons i "is")
  then obtain w1 where w1: "step i w = Inr w1" "steps is w1 = Inr w'" by (cases "step i w") auto
  from step_simulated [OF Cons.prems(1) w1(1)] obtain as where
    as: "serves (abs_worker w) as (abs_worker w1)" "mset (taken as) = takes i" "w_lost w1 = w_lost w @ abandoned as" by blast
  from Cons.IH [OF keeps_good [OF Cons.prems(1) w1(1)] w1(2)] obtain bs where
    "serves (abs_worker w1) bs (abs_worker w')" "mset (taken bs) = sum_list (map takes is)"
    "w_lost w' = w_lost w1 @ abandoned bs" by blast
  with as show ?case by (intro exI [of _ "as @ bs"]) (auto intro: serves_append)
qed

end

lemma accepted_valid: "x \<in># accepted ds \<Longrightarrow> valid_query (fst x)"
  by (auto simp: accepted_def isl_validate)

lemma accepted_pass_valid: "x \<in># accepted_pass p \<Longrightarrow> valid_query (fst x)"
proof -
  have ev: "x \<in># accepted_event e \<Longrightarrow> valid_query (fst x)" for e
    by (cases e) (auto dest: accepted_valid)
  have "x \<in># sum_list (map accepted_event evs) \<Longrightarrow> valid_query (fst x)" for evs
    by (induction evs) (auto dest: ev)
  then show "x \<in># accepted_pass p \<Longrightarrow> valid_query (fst x)" by (cases p) (simp add: accepted_pass_def)
qed

interpretation pass_service: serving pass_step "\<lambda>(cfg, p). accepted_pass p"
proof (unfold_locales, goal_cases)
  case (1 i w w')
  then show ?case by (auto simp: pass_step_def bindE_eq_Inr dest: extends_pass split: prod.splits)
next
  case (2 x i)
  then show ?case by (cases i) (auto dest: accepted_pass_valid)
qed



end
