(* ===== verification/Loops.thy ===== *)
theory Loops
  imports Shared Bootstrap
begin

text \<open>
  The two loops that retry until something outside succeeds: \<open>ResolveReader::read_initial\<close> of
  \<^verbatim>\<open>src/pkgs/microdoh3/src/shared.rs\<close>, with which a worker waits for its first upstream set, and the retry of the
  first resolution in \<open>main\<close> of \<^verbatim>\<open>src/pkgs/microdoh3/src/main.rs\<close>. Either may spin for ever, so each is a
  partial function whose value \<^term>\<open>None\<close> means that it does not return; what the outside gives at the
  \<open>k\<close>-th attempt is the argument.
\<close>

section \<open>The loops\<close>

text \<open>
  One call of \<open>read_if_changed\<close> beside a running writer: the page as the loads find it, and the counter at
  the second load. When the two loads of the counter differ the call returns nothing and remembers nothing.
\<close>

definition read_attempt :: "shared_resolve \<times> u32 \<Rightarrow> u32 \<Rightarrow> upstream_set option \<times> u32" where
  "read_attempt = (\<lambda>(sh, second) last_seq.
     case read_if_changed sh last_seq of
       (None, seq) \<Rightarrow> (None, seq)
     | (Some us, seq) \<Rightarrow> if sr_seq sh \<noteq> second then (None, last_seq) else (Some us, seq))"

partial_function (option) read_initial ::
  "(nat \<Rightarrow> shared_resolve \<times> u32) \<Rightarrow> u32 \<Rightarrow> nat \<Rightarrow> (upstream_set \<times> u32) option" where
  "read_initial attempts last_seq k =
    (case read_attempt (attempts k) last_seq of
       (Some us, seq) \<Rightarrow> if us_addrs us \<noteq> [] then Some (us, seq) else read_initial attempts seq (Suc k)
     | (None, seq) \<Rightarrow> read_initial attempts seq (Suc k))"

text \<open>One round of the first resolution: the two exchanges, the clock, and the shutdown flag after a failure.\<close>

record boot_round =
  br_aaaa :: exchange
  br_a :: exchange
  br_now :: instant
  br_shutdown :: bool

datatype main_exit = Exit nat | MainPanic

partial_function (option) first_resolution ::
  "packet_builder \<Rightarrow> packet_parser \<Rightarrow> string \<Rightarrow> u16 \<Rightarrow> (nat \<Rightarrow> boot_round) \<Rightarrow> nat
    \<Rightarrow> (resolve_state \<times> sock_addr list, main_exit) result option" where
  "first_resolution build parse host port rounds k =
    (case resolve_upstream build parse host port (br_aaaa (rounds k)) (br_a (rounds k)) (br_now (rounds k)) of
       Inr r \<Rightarrow> Some (Inr r)
     | Inl _ \<Rightarrow>
         if br_shutdown (rounds k) then Some (Inl (Exit 0))
         else first_resolution build parse host port rounds (Suc k))"

section \<open>The contract of a retry loop\<close>

text \<open>
  A loop that goes on to the next attempt until one stops it, and does not return when none does. It returns exactly
  when some attempt stops it, with the outcome of the first one that does.
\<close>

locale retry_loop =
  fixes loop :: "nat \<Rightarrow> 'a option" and stops :: "nat \<Rightarrow> bool" and outcome :: "nat \<Rightarrow> 'a"
  assumes stop: "stops k \<Longrightarrow> loop k = Some (outcome k)"
    and retry: "\<not> stops k \<Longrightarrow> loop k = loop (Suc k)"
    and returned: "loop k = Some x \<Longrightarrow> \<exists>j \<ge> k. stops j"
begin

lemma skips: "(\<And>j. k \<le> j \<Longrightarrow> j < k + d \<Longrightarrow> \<not> stops j) \<Longrightarrow> loop k = loop (k + d)"
proof (induction d arbitrary: k)
  case (Suc d)
  have "loop k = loop (Suc k)" using Suc.prems [of k] by (simp add: retry)
  also have "\<dots> = loop (Suc k + d)" using Suc.prems by (intro Suc.IH) simp
  finally show ?case by simp
qed simp

lemma returns_first:
  assumes "stops k" "\<And>j. j < k \<Longrightarrow> \<not> stops j"
  shows "loop 0 = Some (outcome k)"
  using skips [of 0 k] assms stop [of k] by simp

lemma loop_eq: "loop 0 = (if \<exists>k. stops k then Some (outcome (LEAST k. stops k)) else None)"
proof (cases "\<exists>k. stops k")
  case True
  have "loop 0 = Some (outcome (LEAST k. stops k))"
    by (rule returns_first) (use True in \<open>auto intro: LeastI_ex dest: not_less_Least\<close>)
  with True show ?thesis by simp
next
  case False
  then show ?thesis using returned [of 0] by (cases "loop 0") auto
qed

end

section \<open>The first resolution\<close>

definition boot_stops :: "packet_builder \<Rightarrow> packet_parser \<Rightarrow> string \<Rightarrow> u16 \<Rightarrow> boot_round \<Rightarrow> bool" where
  "boot_stops build parse host port r \<longleftrightarrow>
    \<not> isl (resolve_upstream build parse host port (br_aaaa r) (br_a r) (br_now r)) \<or> br_shutdown r"

definition boot_outcome :: "packet_builder \<Rightarrow> packet_parser \<Rightarrow> string \<Rightarrow> u16 \<Rightarrow> boot_round
    \<Rightarrow> (resolve_state \<times> sock_addr list, main_exit) result" where
  "boot_outcome build parse host port r =
    map_err (\<lambda>_. Exit 0) (resolve_upstream build parse host port (br_aaaa r) (br_a r) (br_now r))"

lemma first_resolution_returned:
  assumes "first_resolution build parse host port rounds k = Some x"
  shows "\<exists>j \<ge> k. boot_stops build parse host port (rounds j)"
  using assms
proof (rule first_resolution.raw_induct [rotated], goal_cases)
  case (1 loop build parse host port rounds k x)
  show ?case
  proof (cases "boot_stops build parse host port (rounds k)")
    case False
    then have "loop build parse host port rounds (Suc k) = Some x"
      using 1(2) by (auto simp: boot_stops_def split: sum.splits)
    from 1(1) [OF this] show ?thesis by (meson Suc_leD)
  qed auto
qed

interpretation boot: retry_loop "first_resolution build parse host port rounds"
    "\<lambda>k. boot_stops build parse host port (rounds k)" "\<lambda>k. boot_outcome build parse host port (rounds k)"
  for build parse host port rounds
proof (unfold_locales, goal_cases)
  case (1 k)
  then show ?case
    by (subst first_resolution.simps) (auto simp: boot_stops_def boot_outcome_def split: sum.splits)
next
  case (2 k)
  then show ?case
    by (subst first_resolution.simps) (auto simp: boot_stops_def split: sum.splits)
next
  case (3 k x)
  then show ?case by (rule first_resolution_returned)
qed

text \<open>
  C29. The supervisor waits for its upstream exactly as long as needed: the retry loop of \<open>main\<close> returns if and
  only if some round resolves the host or finds the shutdown flag set, and then with the outcome of the first such
  round, the addresses when it resolves and exit code 0 otherwise.
\<close>

theorem first_resolution_returns:
  "first_resolution build parse host port rounds 0 =
    (let stops = (\<lambda>k. \<not> isl (resolve_upstream build parse host port (br_aaaa (rounds k)) (br_a (rounds k)) (br_now (rounds k)))
           \<or> br_shutdown (rounds k));
         first = (LEAST k. stops k)
     in if \<exists>k. stops k
        then Some (map_err (\<lambda>_. Exit 0)
          (resolve_upstream build parse host port (br_aaaa (rounds first)) (br_a (rounds first)) (br_now (rounds first))))
        else None)"
  using boot.loop_eq [of build parse host port rounds] by (simp add: boot_stops_def boot_outcome_def Let_def)

theorem first_resolution_returns_witness:
  "first_resolution (\<lambda>_ _ _. None) (\<lambda>_. None) ''zz'' 443
     (\<lambda>k. \<lparr>br_aaaa = (0, True, []), br_a = (0, True, []), br_now = 0, br_shutdown = (k = 2)\<rparr>) 0 = Some (Inl (Exit 0))"
proof -
  let ?rounds = "\<lambda>k. \<lparr>br_aaaa = (0, True, []), br_a = (0, True, []), br_now = 0, br_shutdown = (k = (2 :: nat))\<rparr>"
  have v4: "read_ipv4_addr (as_bytes ''zz'') = None"
  proof -
    have "(4 :: nat) = Suc 3" by simp
    then show ?thesis
      by (simp only: read_ipv4_addr_def read_ipv4_groups.simps) (simp add: read_separator_def read_number_def to_digit_def as_bytes_def)
  qed
  then have "read_groups 8 0 (as_bytes ''zz'') = ([], False, as_bytes ''zz'')"
    by (subst read_groups.simps) (simp add: read_separator_def read_number_def to_digit_def as_bytes_def)
  with v4 have "parse_ip (as_bytes ''zz'') = None"
    by (simp add: parse_ip_def read_ipv6_addr_def read_given_char_def as_bytes_def)
  then have r: "resolve_upstream (\<lambda>_ _ _. None) (\<lambda>_. None) ''zz'' 443 (0, True, []) (0, True, []) 0 = Inl BsIo"
    by (simp add: resolve_upstream_def resolve_def resolve_ask_def query_def)
  then have l: "(LEAST k. \<not> isl (resolve_upstream (\<lambda>_ _ _. None) (\<lambda>_. None) ''zz'' 443 (br_aaaa (?rounds k)) (br_a (?rounds k))
      (br_now (?rounds k))) \<or> br_shutdown (?rounds k)) = 2" by (intro Least_equality) auto
  then show ?thesis
    using r first_resolution_returns [of "\<lambda>_ _ _. None" "\<lambda>_. None" "''zz''" 443 ?rounds] by (simp add: Let_def)
qed

section \<open>The first read of a worker\<close>

text \<open>
  An attempt that no store disturbs; one a fresh reader accepts, since the counter is not the initial zero; and one
  that ends the loop, since the set is not empty.
\<close>

definition undisturbed :: "shared_resolve \<times> u32 \<Rightarrow> bool" where
  "undisturbed a \<longleftrightarrow> sr_seq (fst a) mod 2 \<noteq> 1 \<and> snd a = sr_seq (fst a)"

definition stable :: "shared_resolve \<times> u32 \<Rightarrow> bool" where
  "stable a \<longleftrightarrow> undisturbed a \<and> sr_seq (fst a) \<noteq> 0"

abbreviation set_of :: "shared_resolve \<times> u32 \<Rightarrow> upstream_set" where
  "set_of a \<equiv> decode_page (sr_page (fst a))"

definition usable :: "shared_resolve \<times> u32 \<Rightarrow> bool" where
  "usable a \<longleftrightarrow> stable a \<and> us_addrs (set_of a) \<noteq> []"

lemma read_attempt_eq:
  "read_attempt a l = (if undisturbed a \<and> sr_seq (fst a) \<noteq> l then (Some (set_of a), sr_seq (fst a)) else (None, l))"
  by (cases a) (simp add: read_attempt_def read_if_changed_def undisturbed_def Let_def)

text \<open>The sequence number the reader remembers before its \<open>k\<close>-th attempt, and the attempts that end the loop.\<close>

primrec remembered :: "(nat \<Rightarrow> shared_resolve \<times> u32) \<Rightarrow> nat \<Rightarrow> u32" where
  "remembered attempts 0 = 0"
| "remembered attempts (Suc k) = snd (read_attempt (attempts k) (remembered attempts k))"

definition ends_read :: "(nat \<Rightarrow> shared_resolve \<times> u32) \<Rightarrow> nat \<Rightarrow> bool" where
  "ends_read attempts k \<longleftrightarrow>
    (case fst (read_attempt (attempts k) (remembered attempts k)) of None \<Rightarrow> False | Some us \<Rightarrow> us_addrs us \<noteq> [])"

lemma read_initial_returned:
  assumes "read_initial attempts last_seq k = Some x"
  shows "last_seq = remembered attempts k \<longrightarrow> (\<exists>j \<ge> k. ends_read attempts j)"
  using assms
proof (rule read_initial.raw_induct [rotated], goal_cases)
  case (1 loop attempts last_seq k x)
  show ?case
  proof (cases "ends_read attempts k")
    case False
    have "loop attempts (remembered attempts (Suc k)) (Suc k) = Some x" if "last_seq = remembered attempts k"
      using 1(2) False that by (auto simp: ends_read_def split: prod.splits option.splits if_splits)
    with 1(1) [of attempts "remembered attempts (Suc k)" "Suc k" x] show ?thesis by (meson Suc_leD)
  qed auto
qed

interpretation first_read: retry_loop "\<lambda>k. read_initial attempts (remembered attempts k) k" "ends_read attempts"
    "\<lambda>k. (the (fst (read_attempt (attempts k) (remembered attempts k))), remembered attempts (Suc k))"
  for attempts
proof (unfold_locales, goal_cases)
  case (1 k)
  then show ?case
    by (subst read_initial.simps) (auto simp: ends_read_def split: prod.splits option.splits)
next
  case (2 k)
  then show ?case
    by (subst read_initial.simps) (auto simp: ends_read_def split: prod.splits option.splits)
next
  case (3 k x)
  from read_initial_returned [OF 3] show ?case by simp
qed

text \<open>Until a usable publication is found, only counters of empty publications are remembered.\<close>

lemma remembered_empty:
  assumes "\<forall>j < k. \<not> ends_read attempts j"
  shows "remembered attempts k = 0
    \<or> (\<exists>i < k. stable (attempts i) \<and> \<not> usable (attempts i) \<and> remembered attempts k = sr_seq (fst (attempts i)))"
  using assms
proof (induction k)
  case (Suc k)
  then have "\<not> ends_read attempts k" by simp
  then have "us_addrs (set_of (attempts k)) = []"
    if "undisturbed (attempts k)" "sr_seq (fst (attempts k)) \<noteq> remembered attempts k"
    using that by (simp add: ends_read_def read_attempt_eq)
  with Suc show ?case
    by (auto simp: read_attempt_eq stable_def usable_def intro: less_SucI)
qed simp

lemma read_initial_eq:
  assumes "\<And>i j. i < j \<Longrightarrow> stable (attempts i) \<Longrightarrow> \<not> usable (attempts i) \<Longrightarrow> undisturbed (attempts j)
      \<Longrightarrow> us_addrs (set_of (attempts j)) \<noteq> [] \<Longrightarrow> sr_seq (fst (attempts j)) \<notin> {0, sr_seq (fst (attempts i))}"
  shows "read_initial attempts 0 0 =
    (if \<exists>k. usable (attempts k)
     then let a = attempts (LEAST k. usable (attempts k)) in Some (set_of a, sr_seq (fst a))
     else None)"
proof -
  have first: "ends_read attempts k \<longleftrightarrow> usable (attempts k)" if before: "\<forall>j < k. \<not> ends_read attempts j" for k
  proof -
    have "remembered attempts k \<noteq> sr_seq (fst (attempts k)) \<longleftrightarrow> sr_seq (fst (attempts k)) \<noteq> 0"
      if "undisturbed (attempts k)" "us_addrs (set_of (attempts k)) \<noteq> []"
      using remembered_empty [OF before] assms [OF _ _ _ that] by auto
    then show ?thesis by (auto simp: ends_read_def read_attempt_eq usable_def stable_def)
  qed
  have none_before: "\<forall>j < k. \<not> ends_read attempts j" if "\<forall>j < k. \<not> usable (attempts j)" for k
    using that by (induction k) (auto simp: less_Suc_eq first)
  show ?thesis
  proof (cases "\<exists>k. usable (attempts k)")
    case True
    define m where "m = (LEAST k. usable (attempts k))"
    have m: "usable (attempts m)" "\<forall>j < m. \<not> ends_read attempts j"
      using LeastI_ex [OF True] none_before [of m] not_less_Least unfolding m_def by blast+
    then have ends: "ends_read attempts m" by (simp add: first)
    then have "read_attempt (attempts m) (remembered attempts m) = (Some (set_of (attempts m)), sr_seq (fst (attempts m)))"
      by (auto simp: ends_read_def read_attempt_eq split: if_splits)
    with first_read.returns_first [OF ends] m(2) True show ?thesis by (simp add: m_def [symmetric] Let_def)
  next
    case False
    then have "\<not> ends_read attempts k" for k using none_before [of "Suc k"] by simp
    with False show ?thesis using first_read.loop_eq [of attempts] by simp
  qed
qed

text \<open>
  C28. A worker that starts gets its upstream set: on a page whose committed contents are identified by the counter and which is
  empty before the first publication, \<open>read_initial\<close> returns if and only if some attempt finds a non-empty publication
  that no store disturbs, and then with the set of the first such attempt and its sequence number. Until then it
  spins, passing over torn reads and empty sets.
\<close>

theorem read_initial_returns:
  assumes "\<forall>i j. undisturbed (attempts i) \<and> undisturbed (attempts j) \<and> sr_seq (fst (attempts i)) = sr_seq (fst (attempts j))
      \<longrightarrow> sr_page (fst (attempts i)) = sr_page (fst (attempts j))"
    and "\<forall>j. undisturbed (attempts j) \<and> sr_seq (fst (attempts j)) = 0 \<longrightarrow> us_addrs (decode_page (sr_page (fst (attempts j)))) = []"
  shows "read_initial attempts 0 0 =
    (let found = (\<lambda>k. undisturbed (attempts k) \<and> us_addrs (decode_page (sr_page (fst (attempts k)))) \<noteq> []);
         sh = fst (attempts (LEAST k. found k))
     in if \<exists>k. found k then Some (decode_page (sr_page sh), sr_seq sh) else None)"
proof -
  have found: "usable (attempts k) \<longleftrightarrow> undisturbed (attempts k) \<and> us_addrs (set_of (attempts k)) \<noteq> []" for k
    using assms(2) by (auto simp: usable_def stable_def)
  have "sr_seq (fst (attempts j)) \<notin> {0, sr_seq (fst (attempts i))}"
    if "stable (attempts i)" "\<not> usable (attempts i)" "undisturbed (attempts j)" "us_addrs (set_of (attempts j)) \<noteq> []" for i j
    using that assms unfolding found by (metis insertE singletonD stable_def)
  then show ?thesis using read_initial_eq [of attempts] by (simp add: found Let_def)
qed

theorem read_initial_returns_witness:
  "\<exists>us. read_initial (\<lambda>k. if k < 3 then (resolve_create, 0)
      else (publish \<lparr>pb_addrs = [V4 1], pb_weights = [3], pb_workers = 2, pb_now1 = 0, pb_now2 = 0, pb_ttl = 60\<rparr> resolve_create, 2)) 0 0
    = Some (us, 2) \<and> us_addrs us = [V4 1]"
proof -
  let ?pb = "\<lparr>pb_addrs = [V4 1], pb_weights = [3], pb_workers = 2, pb_now1 = 0, pb_now2 = 0, pb_ttl = 60\<rparr> :: publication"
  let ?at = "\<lambda>k :: nat. if k < 3 then (resolve_create, 0 :: u32) else (publish ?pb resolve_create, 2)"
  have addrs: "us_addrs (decode_page (publish_page ?pb zero_page)) = [V4 1]" "us_addrs (decode_page zero_page) = []"
    by (simp_all add: decode_publish page_ok_zero MAX_ADDRS_def) (simp add: decode_page_def zero_page_def)
  have st: "undisturbed (?at k)" "sr_seq (fst (?at k)) = (if k < 3 then 0 else 2)"
      "sr_page (fst (?at k)) = (if k < 3 then zero_page else publish_page ?pb zero_page)" for k
    by (auto simp: undisturbed_def resolve_create_def publish_def Let_def)
  have found: "us_addrs (decode_page (sr_page (fst (?at k)))) \<noteq> [] \<longleftrightarrow> 3 \<le> k" for k
    unfolding st using addrs by simp
  have l: "(LEAST k :: nat. 3 \<le> k) = 3" by (rule Least_equality) simp_all
  have "read_initial ?at 0 0 = (let found = (\<lambda>k. undisturbed (?at k) \<and> us_addrs (decode_page (sr_page (fst (?at k)))) \<noteq> []);
         sh = fst (?at (LEAST k. found k))
     in if \<exists>k. found k then Some (decode_page (sr_page sh), sr_seq sh) else None)"
    by (rule read_initial_returns, unfold st) (auto simp: addrs split: if_splits)
  then have "read_initial ?at 0 0 = Some (decode_page (sr_page (fst (?at 3))), sr_seq (fst (?at 3)))"
    unfolding found using l by (auto simp: Let_def st(1) simp del: if_split)
  then have "read_initial ?at 0 0 = Some (decode_page (publish_page ?pb zero_page), 2)"
    by (simp add: publish_def resolve_create_def Let_def)
  with addrs show ?thesis by blast
qed

end
