(* ===== verification/System_Calls.thy ===== *)
theory System_Calls
  imports Net Event Shared
begin

text \<open>
  What the program asks of the operating system before its loops run: the sockets of a worker
  (\<^verbatim>\<open>worker.rs\<close>, \<^verbatim>\<open>bootstrap.rs\<close>), the poller (\<^verbatim>\<open>event.rs\<close>) and the shared pages (\<^verbatim>\<open>shared.rs\<close>), as the sequences
  of system calls the code makes. The kernel is a function that says of each call whether it succeeds; a call followed by
  \<open>?\<close> ends the function when it fails. The second part lays the two shared structs out in memory as
  \<open>repr(C)\<close> prescribes.
\<close>

section \<open>Sequences of calls\<close>

datatype family = AF_INET | AF_INET6
datatype signal = SigTerm | SigInt | SigPipe
datatype handler_kind = Handler | Ignore

datatype sys_call =
    Socket family
  | ReusePort
  | RcvBuf nat
  | SndBuf nat
  | BusyPoll nat
  | V6Only bool
  | Bind sock_addr
  | UdpBind sock_addr
  | NonBlocking
  | EpollCreate
  | TimerCreate
  | SocketPair
  | Sigaction signal handler_kind
  | EpollAdd u64
  | MemfdCreate string
  | Ftruncate nat
  | Mmap nat bool

type_synonym kernel = "sys_call \<Rightarrow> bool"

text \<open>Calls that must succeed: the calls made, and whether all of them did.\<close>

fun require :: "kernel \<Rightarrow> sys_call list \<Rightarrow> sys_call list \<times> bool" where
  "require ok [] = ([], True)"
| "require ok (c # cs) = (if ok c then (case require ok cs of (made, r) \<Rightarrow> (c # made, r)) else ([c], False))"

section \<open>Sockets\<close>

definition family_of :: "sock_addr \<Rightarrow> family" where
  "family_of addr = (case sa_ip addr of V4 _ \<Rightarrow> AF_INET | V6 _ \<Rightarrow> AF_INET6)"

text \<open>\<open>bind_dns_socket\<close>; the result of the busy-poll option is ignored.\<close>

definition bind_dns_socket :: "kernel \<Rightarrow> sock_addr \<Rightarrow> bool \<Rightarrow> sys_call list \<times> bool" where
  "bind_dns_socket ok addr busy_poll =
    (case require ok [Socket (family_of addr), ReusePort, RcvBuf (4 * 1024 * 1024), SndBuf (4 * 1024 * 1024)] of
       (made, False) \<Rightarrow> (made, False)
     | (made, True) \<Rightarrow>
         (case require ok [Bind addr] of
            (bound, r) \<Rightarrow> (made @ (if busy_poll then [BusyPoll 50] else []) @ bound, r)))"

definition any_v6 :: sock_addr where "any_v6 = \<lparr>sa_ip = V6 0, sa_port = 0\<rparr>"
definition any_v4 :: sock_addr where "any_v4 = \<lparr>sa_ip = V4 0, sa_port = 0\<rparr>"

definition bind_dual_stack :: "kernel \<Rightarrow> sys_call list \<times> bool" where
  "bind_dual_stack ok = require ok [Socket AF_INET6, V6Only False, Bind any_v6]"

text \<open>\<open>bind_quic_socket\<close>: the family of the socket, if any.\<close>

definition bind_quic_socket :: "kernel \<Rightarrow> sys_call list \<times> family option" where
  "bind_quic_socket ok =
    (case bind_dual_stack ok of
       (made, True) \<Rightarrow> (made, Some AF_INET6)
     | (made, False) \<Rightarrow>
         (case require ok [UdpBind any_v4, NonBlocking] of
            (made', r) \<Rightarrow> (made @ made', if r then Some AF_INET else None)))"

definition bind_matching :: "kernel \<Rightarrow> sock_addr \<Rightarrow> sys_call list \<times> bool" where
  "bind_matching ok server =
    (let any = (case sa_ip server of V6 _ \<Rightarrow> any_v6 | V4 _ \<Rightarrow> any_v4) in require ok [UdpBind any])"

section \<open>The poller\<close>

definition poller_new :: "kernel \<Rightarrow> sys_call list \<times> bool" where
  "poller_new ok =
    (case require ok [EpollCreate, TimerCreate, SocketPair] of
       (made, False) \<Rightarrow> (made, False)
     | (made, True) \<Rightarrow>
         (case require ok [EpollAdd TOKEN_TIMER, EpollAdd TOKEN_SIGNAL] of
            (added, r) \<Rightarrow> (made @ [Sigaction SigTerm Handler, Sigaction SigInt Handler, Sigaction SigPipe Ignore] @ added, r)))"

definition add_socket :: "kernel \<Rightarrow> u64 \<Rightarrow> sys_call list \<times> bool" where
  "add_socket ok token = require ok [EpollAdd token]"

text \<open>The signal handler writes one byte to the pipe once its descriptor is known.\<close>

definition on_signal :: "int \<Rightarrow> (int \<times> bytes) list" where
  "on_signal fd = (if fd \<ge> 0 then [(fd, as_bytes ''x'')] else [])"

section \<open>Shared memory\<close>

definition SHM_SIZE :: nat where "SHM_SIZE = 4096"

definition create_shm :: "string \<Rightarrow> sys_call list" where
  "create_shm name = [MemfdCreate name, Ftruncate SHM_SIZE]"

definition map_fd :: "bool \<Rightarrow> sys_call list" where
  "map_fd writable = [Mmap SHM_SIZE writable]"

definition resolve_writer_create :: "kernel \<Rightarrow> sys_call list \<times> bool" where
  "resolve_writer_create ok = require ok (create_shm ''microdoh3-resolve'' @ map_fd True)"

definition resolve_reader_map :: "kernel \<Rightarrow> sys_call list \<times> bool" where
  "resolve_reader_map ok = require ok (map_fd False)"

definition score_writer_map :: "kernel \<Rightarrow> sys_call list \<times> bool" where
  "score_writer_map ok = require ok (map_fd True)"

definition score_reader_create :: "kernel \<Rightarrow> sys_call list \<times> bool" where
  "score_reader_create ok = require ok (create_shm ''microdoh3-scores'' @ map_fd False)"

text \<open>
  \<open>repr(C)\<close>: each field, given as size and alignment, goes to the next offset its alignment allows, and the size of
  the struct is rounded up to its largest alignment.
\<close>

definition align_up :: "nat \<Rightarrow> nat \<Rightarrow> nat" where
  "align_up n al = (n + (al - 1)) div al * al"

fun place :: "nat \<Rightarrow> (nat \<times> nat) list \<Rightarrow> nat list \<times> nat" where
  "place off [] = ([], off)"
| "place off ((sz, al) # fs) =
    (let here = align_up off al in case place (here + sz) fs of (offs, end) \<Rightarrow> (here # offs, end))"

definition struct_align :: "(nat \<times> nat) list \<Rightarrow> nat" where
  "struct_align fs = fold max (map snd fs) 1"

definition struct_size :: "(nat \<times> nat) list \<Rightarrow> nat" where
  "struct_size fs = align_up (snd (place 0 fs)) (struct_align fs)"

definition raw_addr_fields :: "(nat \<times> nat) list" where
  "raw_addr_fields = [(16, 1), (1, 1), (15, 1)]"

definition array_of :: "nat \<Rightarrow> (nat \<times> nat) list \<Rightarrow> nat \<times> nat" where
  "array_of n fs = (n * struct_size fs, struct_align fs)"

text \<open>Fields of \<open>SharedResolve\<close>: seq, count, revision, workers, the two clocks, addresses and weights.\<close>

definition shared_resolve_fields :: "(nat \<times> nat) list" where
  "shared_resolve_fields =
    [(4, 4), (4, 4), (4, 4), (4, 4), (8, 8), (8, 8), array_of MAX_ADDRS raw_addr_fields, (MAX_ADDRS * 4, 4)]"

text \<open>Fields of \<open>ScoreSlot\<close>: seq, address, score, ok, fail, flags, the clock and the padding.\<close>

definition score_slot_fields :: "(nat \<times> nat) list" where
  "score_slot_fields = [(4, 4), array_of 1 raw_addr_fields, (4, 4), (4, 4), (4, 4), (4, 4), (8, 8), (4, 1)]"

definition shared_scores_fields :: "(nat \<times> nat) list" where
  "shared_scores_fields = [array_of MAX_WORKERS score_slot_fields]"

section \<open>What the calls guarantee\<close>

lemma require_eq:
  "require ok cs = (if list_all ok cs then (cs, True) else (takeWhile ok cs @ [hd (dropWhile ok cs)], False))"
  by (induction cs) auto

text \<open>
  The sockets of a worker are what the prefork and the migration rely on. The DNS socket is handed out exactly when
  every required call has succeeded, and then the port was made shareable before the bind, on a socket of the listen
  address's family. The QUIC socket reaches both families exactly when the dual-stack calls succeed, and then the
  restriction to IPv6 was lifted before the bind; otherwise it is an IPv4 socket, and there is none only when both ways fail.
\<close>

lemma sockets_usable:
  "(snd (bind_dns_socket ok addr bp) \<longleftrightarrow>
      list_all ok [Socket (family_of addr), ReusePort, RcvBuf 4194304, SndBuf 4194304, Bind addr])
   \<and> (snd (bind_dns_socket ok addr bp) \<longrightarrow>
        filter (\<lambda>c. c \<noteq> BusyPoll 50) (fst (bind_dns_socket ok addr bp))
          = [Socket (family_of addr), ReusePort, RcvBuf 4194304, SndBuf 4194304, Bind addr])
   \<and> snd (bind_quic_socket ok) =
       (if list_all ok [Socket AF_INET6, V6Only False, Bind any_v6] then Some AF_INET6
        else if ok (UdpBind any_v4) \<and> ok NonBlocking then Some AF_INET else None)
   \<and> (snd (bind_quic_socket ok) = Some AF_INET6 \<longrightarrow>
        fst (bind_quic_socket ok) = [Socket AF_INET6, V6Only False, Bind any_v6])"
proof -
  have "bind_dns_socket ok addr bp =
      (if list_all ok [Socket (family_of addr), ReusePort, RcvBuf 4194304, SndBuf 4194304] then
         (case require ok [Bind addr] of (bound, r) \<Rightarrow>
           ([Socket (family_of addr), ReusePort, RcvBuf 4194304, SndBuf 4194304]
             @ (if bp then [BusyPoll 50] else []) @ bound, r))
       else (fst (require ok [Socket (family_of addr), ReusePort, RcvBuf 4194304, SndBuf 4194304]), False))"
    unfolding bind_dns_socket_def require_eq [of ok "[Socket _, _, _, _]"] by simp
  moreover have "bind_quic_socket ok =
      (if list_all ok [Socket AF_INET6, V6Only False, Bind any_v6] then ([Socket AF_INET6, V6Only False, Bind any_v6], Some AF_INET6)
       else (case require ok [UdpBind any_v4, NonBlocking] of
            (made', r) \<Rightarrow> (fst (bind_dual_stack ok) @ made', if r then Some AF_INET else None)))"
    unfolding bind_quic_socket_def bind_dual_stack_def require_eq [of ok "[Socket _, _, _]"] by simp
  ultimately show ?thesis by (simp, blast)
qed

lemma sockets_usable_witness:
  "filter (\<lambda>c. c \<noteq> BusyPoll 50) (fst (bind_dns_socket (\<lambda>c. c \<noteq> BusyPoll 50) any_v4 True))
    = [Socket AF_INET, ReusePort, RcvBuf 4194304, SndBuf 4194304, Bind any_v4]
   \<and> snd (bind_quic_socket (\<lambda>c. c \<noteq> Socket AF_INET6)) = Some AF_INET"
  using sockets_usable [of "\<lambda>c. c \<noteq> BusyPoll 50" any_v4 True] sockets_usable [of "\<lambda>c. c \<noteq> Socket AF_INET6"]
  by (simp add: family_of_def any_v4_def)

section \<open>The pages fit\<close>

lemma align_up_mod: "0 < al \<Longrightarrow> align_up n al mod al = 0"
  by (simp add: align_up_def)

lemma align_up_ge: "0 < al \<Longrightarrow> n \<le> align_up n al"
proof -
  assume "0 < al"
  then have "(n + (al - 1)) mod al \<le> al - 1" by (simp add: less_Suc_eq_le [symmetric])
  moreover have "align_up n al = n + (al - 1) - (n + (al - 1)) mod al"
    by (simp add: align_up_def minus_mod_eq_div_mult)
  ultimately show ?thesis by simp
qed

text \<open>Fields are aligned, in order and do not overlap.\<close>

fun placed :: "nat \<Rightarrow> (nat \<times> nat) list \<Rightarrow> nat list \<Rightarrow> nat \<Rightarrow> bool" where
  "placed off [] [] end \<longleftrightarrow> off \<le> end"
| "placed off ((sz, al) # fs) (o1 # os) end \<longleftrightarrow> off \<le> o1 \<and> o1 mod al = 0 \<and> placed (o1 + sz) fs os end"
| "placed off _ _ end \<longleftrightarrow> False"

lemma place_placed:
  "list_all (\<lambda>(_, al). 0 < al) fs \<Longrightarrow> place off fs = (offs, end) \<Longrightarrow> placed off fs offs end"
proof (induction fs arbitrary: off offs)
  case (Cons f fs)
  obtain sz al where f: "f = (sz, al)" by (cases f)
  obtain offs' where p: "place (align_up off al + sz) fs = (offs', end)" "offs = align_up off al # offs'"
    using Cons.prems(2) by (auto simp: f Let_def split: prod.splits)
  have "0 < al" "list_all (\<lambda>(_, al). 0 < al) fs" using Cons.prems(1) by (simp_all add: f)
  with Cons.IH [OF _ p(1)] show ?case by (simp add: f p(2) align_up_mod align_up_ge)
qed simp

lemma layout_eval:
  "place 0 shared_resolve_fields = ([0, 4, 8, 12, 16, 24, 32, 544], 608)"
  "struct_size shared_resolve_fields = 608"
  "place 0 score_slot_fields = ([0, 4, 36, 40, 44, 48, 56, 64], 68)"
  "struct_size score_slot_fields = 72" "struct_align score_slot_fields = 8"
  "struct_size shared_scores_fields = 2304"
  by (simp_all add: shared_resolve_fields_def score_slot_fields_def shared_scores_fields_def array_of_def raw_addr_fields_def
      struct_size_def struct_align_def align_up_def MAX_ADDRS_def MAX_WORKERS_def Let_def)



end
