(* ===== verification/Startup.thy ===== *)
theory Startup
  imports Loops Supervisor Cpus System_Calls Handlers
begin

text \<open>
  The start of \<^verbatim>\<open>src/pkgs/microdoh3/src/main.rs\<close>: the command line, its validation, the first resolution and
  the hand-over to the supervise loop, and what a forked child does before its event loop. The options arrive as the record
  that clap builds; files are functions from names to contents. \<open>exit\<close> and panics are values.
\<close>

section \<open>Socket addresses as text\<close>

text \<open>
  \<open>str::parse::<SocketAddr>()\<close> of the standard library; a scope identifier of an IPv6 address is read and
  dropped, since the model's addresses have none. The port has no bound on its digits.
\<close>

definition read_port :: "u16 parser" where
  "read_port bs = map_option (\<lambda>(v, r). (of_nat v, r)) (read_number 10 (length bs) 65536 True bs)"

definition read_socket_addr_v4 :: "sock_addr parser" where
  "read_socket_addr_v4 bs =
    Option.bind (read_ipv4_addr bs) (\<lambda>(ip, r).
    Option.bind (read_given_char 58 r) (\<lambda>(_, r).
    map_option (\<lambda>(port, r). (\<lparr>sa_ip = V4 ip, sa_port = port\<rparr>, r)) (read_port r)))"

definition skip_scope_id :: "bytes \<Rightarrow> bytes" where
  "skip_scope_id bs =
    (case Option.bind (read_given_char 37 bs) (\<lambda>(_, r). read_number 10 (length r) (2 ^ 32) True r) of
       Some (_, r) \<Rightarrow> r
     | None \<Rightarrow> bs)"

definition read_socket_addr_v6 :: "sock_addr parser" where
  "read_socket_addr_v6 bs =
    Option.bind (read_given_char 91 bs) (\<lambda>(_, r).
    Option.bind (read_ipv6_addr r) (\<lambda>(ip, r).
    Option.bind (read_given_char 93 (skip_scope_id r)) (\<lambda>(_, r).
    Option.bind (read_given_char 58 r) (\<lambda>(_, r).
    map_option (\<lambda>(port, r). (\<lparr>sa_ip = V6 ip, sa_port = port\<rparr>, r)) (read_port r)))))"

definition parse_sock_addr :: "bytes \<Rightarrow> sock_addr option" where
  "parse_sock_addr s =
    (case (case read_socket_addr_v4 s of Some x \<Rightarrow> Some x | None \<Rightarrow> read_socket_addr_v6 s) of
       Some (addr, []) \<Rightarrow> Some addr
     | _ \<Rightarrow> None)"

section \<open>The command line\<close>

record cli =
  cl_listen :: string
  cl_upstream :: string
  cl_token :: "string option"
  cl_token_file :: "string option"
  cl_bootstrap_dns :: string
  cl_prefer_ipv4 :: bool
  cl_xps_cpus :: bool
  cl_xps_interface :: "string list"
  cl_timeout_secs :: u64
  cl_pad :: bool
  cl_workers :: u32
  cl_cpus :: "string option"
  cl_busy_poll :: bool
  cl_spin :: bool
  cl_mlockall :: bool
  cl_verbose :: bool

text \<open>The options of a command line without arguments, from the attributes of the fields.\<close>

definition cli_default :: cli where
  "cli_default =
    \<lparr>cl_listen = ''0.0.0.0:5300'', cl_upstream = ''https://dns.google/dns-query'', cl_token = None,
     cl_token_file = None, cl_bootstrap_dns = ''8.8.8.8'', cl_prefer_ipv4 = False, cl_xps_cpus = False,
     cl_xps_interface = [], cl_timeout_secs = 30, cl_pad = False, cl_workers = 0, cl_cpus = None,
     cl_busy_poll = False, cl_spin = False, cl_mlockall = False, cl_verbose = False\<rparr>"

text \<open>What \<open>main\<close> reads from the file system; \<^term>\<open>None\<close> where reading fails.\<close>

record host_files =
  hf_token :: "string \<Rightarrow> string option"
  hf_cpu_dir :: "cpu_entry list option"
  hf_parallelism :: "nat option"
  hf_queues :: "bytes \<Rightarrow> queue_entry list option"
  hf_routes :: "bytes option"

record settings =
  se_listen :: sock_addr
  se_upstream :: https_url
  se_bootstrap_dns :: ip_addr
  se_token :: "string option"
  se_cpus :: "u32 list"

text \<open>The token file, trimmed, comes before the option and its environment variable; a token is ASCII.\<close>

definition choose_token :: "cli \<Rightarrow> host_files \<Rightarrow> (string option, main_exit) result" where
  "choose_token cli fs =
    (case cl_token_file cli of
       Some path \<Rightarrow>
         (case hf_token fs path of
            Some s \<Rightarrow> Inr (Some (bytes_str (trim (as_bytes s))))
          | None \<Rightarrow> Inl (Exit 2))
     | None \<Rightarrow> Inr (cl_token cli))"

definition choose_cpus :: "cli \<Rightarrow> host_files \<Rightarrow> (u32 list, main_exit) result" where
  "choose_cpus cli fs =
    (case worker_cpus (map_option as_bytes (cl_cpus cli)) (cl_xps_cpus cli)
            (xps_worker_cpus (hf_queues fs) (hf_routes fs) (map as_bytes (cl_xps_interface cli)))
            (physical_cores (hf_cpu_dir fs) (hf_parallelism fs)) (cl_workers cli) of
       Plan cpus \<Rightarrow> Inr cpus
     | InvalidCpus \<Rightarrow> Inl (Exit 2)
     | SlicePanic \<Rightarrow> Inl MainPanic)"

definition read_settings :: "cli \<Rightarrow> host_files \<Rightarrow> (settings, main_exit) result" where
  "read_settings cli fs =
    bindE (ok_or (parse_sock_addr (as_bytes (cl_listen cli))) (Exit 2)) (\<lambda>listen.
    bindE (map_err (\<lambda>_. Exit 2) (url_parse (cl_upstream cli))) (\<lambda>upstream.
    bindE (ok_or (parse_ip (as_bytes (cl_bootstrap_dns cli))) (Exit 2)) (\<lambda>bootstrap_dns.
    bindE (choose_token cli fs) (\<lambda>token.
    bindE (choose_cpus cli fs) (\<lambda>cpus.
      Inr \<lparr>se_listen = listen, se_upstream = upstream, se_bootstrap_dns = bootstrap_dns, se_token = token,
           se_cpus = cpus\<rparr>)))))"

section \<open>From the options to the supervise loop\<close>

definition sup_config_of :: "packet_builder \<Rightarrow> packet_parser \<Rightarrow> cli \<Rightarrow> settings \<Rightarrow> sup_config" where
  "sup_config_of build parse cli se =
    \<lparr>cf_host = u_host (se_upstream se), cf_prefer_ipv4 = cl_prefer_ipv4 cli, cf_cpus = se_cpus se,
     cf_build = build, cf_parse = parse\<rparr>"

text \<open>\<open>main\<close> up to its loop, which creates the two memory files on the way.\<close>

definition startup :: "packet_builder \<Rightarrow> packet_parser \<Rightarrow> cli \<Rightarrow> host_files \<Rightarrow> kernel \<Rightarrow> (nat \<Rightarrow> boot_round) \<Rightarrow> sup_input
    \<Rightarrow> (settings \<times> sup_state, main_exit) result option" where
  "startup build parse cli fs ok rounds inp =
    (case read_settings cli fs of
       Inl e \<Rightarrow> Some (Inl e)
     | Inr se \<Rightarrow>
         if \<not> snd (resolve_writer_create ok) then Some (Inl (Exit 2))
         else if \<not> snd (score_reader_create ok) then Some (Inl (Exit 2))
         else
           map_option (\<lambda>r. bindE r (\<lambda>(rs, remotes). Inr (se, sup_init (sup_config_of build parse cli se) inp rs remotes)))
             (first_resolution build parse (u_host (se_upstream se)) (u_port (se_upstream se)) rounds 0))"

text \<open>The child branch of \<open>spawn_worker\<close>: its configuration, and the exit code of \<open>run\<close>.\<close>

definition worker_config_of :: "cli \<Rightarrow> settings \<Rightarrow> usize \<Rightarrow> worker_config" where
  "worker_config_of cli se child_idx =
    \<lparr>wc_listen = se_listen se, wc_upstream = se_upstream se, wc_token = se_token se,
     wc_timeout = from_secs (unat (cl_timeout_secs cli)), wc_pad = cl_pad cli, wc_busy_poll = cl_busy_poll cli,
     wc_spin = cl_spin cli, wc_mlockall = cl_mlockall cli, wc_child_idx = child_idx\<rparr>"

text \<open>
  The beginning of \<open>run\<close>: the DNS socket and the resolve page, the blocking first read, the scores page, the
  runtime, the QUIC socket, the engine's configuration (\<open>engine_ok\<close>), the poller, and the first connection.
\<close>

definition run_start :: "worker_config \<Rightarrow> kernel \<Rightarrow> (nat \<Rightarrow> shared_resolve \<times> u32) \<Rightarrow> bool \<Rightarrow> shared_scores \<Rightarrow> instant \<Rightarrow> connect_in
    \<Rightarrow> (worker, stop) result option" where
  "run_start cfg ok attempts engine_ok scores now ci =
    (if \<not> snd (bind_dns_socket ok (wc_listen cfg) (wc_busy_poll cfg)) \<or> \<not> snd (resolve_reader_map ok) then Some (Inl RunError)
     else
       map_option (\<lambda>(us, seq).
         if us_addrs us = [] \<or> \<not> snd (score_writer_map ok) then Inl RunError
         else if runtime_new us cfg now = None then Inl Panicked
         else if snd (bind_quic_socket ok) = None \<or> \<not> engine_ok \<or> \<not> snd (poller_new ok)
             \<or> \<not> snd (add_socket ok TOKEN_DNS) \<or> \<not> snd (add_socket ok TOKEN_QUIC) then Inl RunError
         else worker_init cfg us seq scores now ci)
       (read_initial attempts 0 0))"

text \<open>When every call succeeds nothing is missing.\<close>

lemma all_granted:
  assumes "\<forall>c. ok c"
  shows "snd (bind_dns_socket ok addr bp)" "snd (resolve_reader_map ok)" "snd (score_writer_map ok)"
    "snd (bind_quic_socket ok) \<noteq> None" "snd (poller_new ok)" "snd (add_socket ok token)"
    "snd (resolve_writer_create ok)" "snd (score_reader_create ok)"
  using assms by (simp_all add: bind_dns_socket_def resolve_reader_map_def score_writer_map_def bind_quic_socket_def
      bind_dual_stack_def poller_new_def add_socket_def resolve_writer_create_def score_reader_create_def
      create_shm_def map_fd_def)

section \<open>Listen addresses\<close>

lemma to_digit_ten: "to_digit 10 b = (if 48 \<le> b \<and> b \<le> 57 then Some (unat b - 48) else None)"
  by (auto simp: to_digit_def Let_def word_le_nat_alt)

lemma read_digits_val:
  assumes "digits_val bound bs acc = Some v" "n + length bs \<le> m"
  shows "read_digits 10 m bound bs acc n = Some (v, n + length bs, [])"
  using assms
proof (induction bs arbitrary: acc n)
  case (Cons b bs)
  from Cons.prems Cons.IH [of _ "n + 1"] show ?case by (auto simp: to_digit_ten Let_def split: if_splits)
qed simp

lemma read_port_show: "read_port (as_bytes (show_nat (unat p))) = Some (p, [])"
proof -
  have "unat p < 65536" using unsigned_less [where 'a = nat, of p] by simp
  from read_digits_val [OF digits_val_show [OF this], of 0 "length (show_nat (unat p))"] show ?thesis
    using show_nat_nonempty [of "unat p"] by (simp add: read_port_def read_number_def)
qed

lemma no_digit_colon: "no_digit (58 # r)"
  by (simp add: no_digit_def to_digit_ten)

lemma parse_sock_addr_v4:
  "parse_sock_addr (ipv4_text a @ 58 # as_bytes (show_nat (unat p))) = Some \<lparr>sa_ip = V4 a, sa_port = p\<rparr>"
  using read_ipv4_text [OF no_digit_colon, of a "as_bytes (show_nat (unat p))"]
  by (simp add: parse_sock_addr_def read_socket_addr_v4_def read_given_char_def read_port_show)

section \<open>Validation\<close>

lemma split_on_nonempty: "split_on c s \<noteq> []"
  by (induction s) (auto split: list.split)

lemma choose_cpus_cases:
  assumes "\<forall>n. hf_parallelism fs = Some n \<longrightarrow> 1 \<le> n"
  shows "case choose_cpus cli fs of
      Inl e \<Rightarrow> e = Exit 2 \<and> (\<exists>l s. cl_cpus cli = Some l \<and> s \<in> set (split_on 44 (as_bytes l)) \<and> parse_u32 (trim s) = None)
    | Inr cpus \<Rightarrow> cpus \<noteq> []"
proof (cases "cl_cpus cli")
  case None
  have "physical_cores (hf_cpu_dir fs) (hf_parallelism fs) \<noteq> []" using assms by (rule physical_cores_nonempty)
  moreover have "1 \<le> unat (cl_workers cli)" if "cl_workers cli \<noteq> 0" using that by (simp add: unat_gt_0 Suc_le_eq)
  ultimately show ?thesis by (auto simp: choose_cpus_def worker_cpus_def None Let_def Suc_le_eq max_def split: if_splits)
next
  case (Some l)
  then show ?thesis
    by (auto simp: choose_cpus_def worker_cpus_def Let_def split_on_nonempty)
qed


lemma default_texts:
  "parse_sock_addr (as_bytes ''0.0.0.0:5300'') = Some \<lparr>sa_ip = V4 0, sa_port = 5300\<rparr>"
  "url_parse ''https://dns.google/dns-query'' =
    Inr \<lparr>u_host = ''dns.google'', u_port = 443, u_path = ''/dns-query'', u_authority = ''dns.google''\<rparr>"
  "parse_ip (as_bytes ''8.8.8.8'') = Some (V4 0x08080808)"
proof -
  have "as_bytes ''0.0.0.0:5300'' = ipv4_text 0 @ 58 # as_bytes (show_nat (unat (5300 :: u16)))"
    by (simp add: ipv4_text_def octets_def upt_rec dec_byte_def digit_def as_bytes_def show_nat.simps char_of_def bit_0)
  then show "parse_sock_addr (as_bytes ''0.0.0.0:5300'') = Some \<lparr>sa_ip = V4 0, sa_port = 5300\<rparr>"
    by (simp only: parse_sock_addr_v4)
  show "url_parse ''https://dns.google/dns-query'' =
      Inr \<lparr>u_host = ''dns.google'', u_port = 443, u_path = ''/dns-query'', u_authority = ''dns.google''\<rparr>"
    by (simp add: url_parse_def strip_prefix_def find_char_def split_host_def rsplit_once_def authority_out_def)
  show "parse_ip (as_bytes ''8.8.8.8'') = Some (V4 0x08080808)" by (simp add: literal_host parse_ip_text)
qed

definition demo_files :: host_files where
  "demo_files = \<lparr>hf_token = (\<lambda>_. None), hf_cpu_dir = None, hf_parallelism = Some 2, hf_queues = (\<lambda>_. None), hf_routes = None\<rparr>"


section \<open>Every worker starts\<close>

lemma page_counter_even: "sup_reach cf env st \<Longrightarrow> even (sr_seq (sp_shared st))"
proof (induction rule: sup_reach.induct)
  case (started port ex_aaaa ex_a now rs remotes inp)
  show ?case by (simp add: sup_init_def Let_def publish_def resolve_create_def)
next
  case (pass st inp st' t)
  have "even (sr_seq (sp_shared (publish_weights cf inp (time_refresh inp (read_refresh cf inp (start_refresh cf inp
      (st\<lparr>sp_children := ch, sp_restarts := rs\<rparr>)))))))" for ch rs
    using pass.IH by (auto simp: publish_weights_def time_refresh_def read_refresh_def start_refresh_def publish_def Let_def
        split: option.split sum.split prod.split)
  then show ?case using pass.hyps(3) by (auto simp: supervise_step_def Let_def split: prod.splits if_splits)
qed

lemma runtime_new_on_page:
  assumes "page_agrees cf st"
  shows "\<exists>rt. runtime_new (decode_page (sr_page (sp_shared st))) cfg now = Some rt
    \<and> sa_ip (ru_my_remote rt) \<in> fst ` set (sp_published st) \<and> sa_port (ru_my_remote rt) = u_port (wc_upstream cfg)
    \<and> ru_child_idx rt = wc_child_idx cfg"
proof -
  define us where "us = decode_page (sr_page (sp_shared st))"
  have us: "us_addrs us = map fst (sp_published st)" "sp_published st \<noteq> []" "length (us_addrs us) \<le> MAX_ADDRS"
    using assms by (simp_all add: page_agrees_def us_def Let_def)
  define slot where "slot = (case slot_for us (wc_child_idx cfg) of Some i \<Rightarrow> i | None \<Rightarrow> 0)"
  have "slot < length (us_addrs us)"
    using slot_for_range [OF _ us(3)] us(1,2) by (auto simp: slot_def split: option.split)
  moreover from this have "us_addrs us ! slot \<in> fst ` set (sp_published st)" using us(1) by (metis list.set_map nth_mem)
  ultimately show ?thesis
    unfolding us_def [symmetric] by (auto simp: runtime_new_def Let_def slot_def [symmetric] get_def)
qed

lemma run_start_init:
  assumes "\<forall>j. stable (attempts j) \<longrightarrow> (\<exists>st. sup_reach cf env st \<and> fst (attempts j) = sp_shared st)"
    and "\<exists>j. stable (attempts j)"
  shows "\<exists>st seq. sup_reach cf env st \<and> read_initial attempts 0 0 = Some (decode_page (sr_page (sp_shared st)), seq)"
proof -
  have "us_addrs (decode_page (sr_page (sp_shared st))) \<noteq> []" if "sup_reach cf env st" for st
    using sup_agrees [OF that] by (auto simp: page_agrees_def Let_def)
  then have us: "usable (attempts j) \<longleftrightarrow> stable (attempts j)" for j
    using assms(1) by (metis usable_def)
  have "stable (attempts (LEAST k. stable (attempts k)))" using assms(2) by (rule LeastI_ex)
  moreover have "read_initial attempts 0 0 = (let a = attempts (LEAST k. stable (attempts k)) in Some (set_of a, sr_seq (fst a)))"
    using read_initial_eq [of attempts] assms(2) by (simp add: us)
  ultimately show ?thesis using assms(1) by (metis (full_types))
qed

lemma startup_reaches:
  assumes "startup build parse cli fs ok rounds inp = Some (Inr (se, st0))" and "env [] inp"
  shows "sup_reach (sup_config_of build parse cli se) env st0
    \<and> (\<exists>rs remotes. st0 = sup_init (sup_config_of build parse cli se) inp rs remotes)"
proof -
  let ?cf = "sup_config_of build parse cli se"
  from assms(1) obtain rs remotes where
    fr: "first_resolution build parse (u_host (se_upstream se)) (u_port (se_upstream se)) rounds 0 = Some (Inr (rs, remotes))"
    and st0: "st0 = sup_init ?cf inp rs remotes"
    by (auto simp: startup_def bindE_eq_Inr split: sum.splits if_splits)
  from fr boot.loop_eq [of build parse "u_host (se_upstream se)" "u_port (se_upstream se)" rounds] obtain k where
    "boot_outcome build parse (u_host (se_upstream se)) (u_port (se_upstream se)) (rounds k) = Inr (rs, remotes)"
    by (auto split: if_splits)
  then have "resolve_upstream build parse (u_host (se_upstream se)) (u_port (se_upstream se)) (br_aaaa (rounds k))
      (br_a (rounds k)) (br_now (rounds k)) = Inr (rs, remotes)"
    by (auto simp: boot_outcome_def map_err_def split: sum.splits)
  then have "sup_reach ?cf env st0"
    unfolding st0 using assms(2) by (intro started) (simp_all add: sup_config_of_def)
  with st0 show ?thesis by blast
qed


lemma reachable_stable: "sup_reach cf env st \<Longrightarrow> sr_seq (sp_shared st) \<noteq> 0 \<Longrightarrow> stable (sp_shared st, sr_seq (sp_shared st))"
  using page_counter_even [of cf env st] by (simp add: stable_def undisturbed_def odd_iff_mod_2_eq_one [symmetric])

definition demo_cli :: cli where
  "demo_cli = cli_default\<lparr>cl_upstream := ''https://8.8.8.8/dns-query''\<rparr>"

definition demo_rounds :: "nat \<Rightarrow> boot_round" where
  "demo_rounds k = \<lparr>br_aaaa = (0, True, []), br_a = (0, True, []), br_now = 0, br_shutdown = False\<rparr>"

definition demo_settings :: settings where
  "demo_settings = \<lparr>se_listen = \<lparr>sa_ip = V4 0, sa_port = 5300\<rparr>,
     se_upstream = \<lparr>u_host = ''8.8.8.8'', u_port = 443, u_path = ''/dns-query'', u_authority = ''8.8.8.8''\<rparr>,
     se_bootstrap_dns = V4 0x08080808, se_token = None, se_cpus = [0, 1]\<rparr>"

lemma demo_startup:
  "\<exists>st0. startup (\<lambda>_ _ _. None) (\<lambda>_. None) demo_cli demo_files (\<lambda>_. True) demo_rounds (demo_input 100 [])
     = Some (Inr (demo_settings, st0))"
proof -
  have url: "url_parse ''https://8.8.8.8/dns-query'' =
      Inr \<lparr>u_host = ''8.8.8.8'', u_port = 443, u_path = ''/dns-query'', u_authority = ''8.8.8.8''\<rparr>"
    by (simp add: url_parse_def strip_prefix_def find_char_def split_host_def rsplit_once_def authority_out_def)
  have "physical_cores None (Some 2) = [0, 1]" by (simp add: physical_cores_def upt_rec)
  then have "read_settings demo_cli demo_files = Inr demo_settings"
    by (simp add: read_settings_def demo_cli_def cli_default_def url default_texts choose_token_def choose_cpus_def
        demo_files_def demo_settings_def worker_cpus_def Let_def)
  then show ?thesis
    by (simp add: startup_def first_resolution.simps [of _ _ _ _ _ 0] demo_rounds_def resolve_literal default_texts demo_settings_def
        all_granted)
qed


end
