(* ===== verification/Publication.thy ===== *)
theory Publication
  imports Seqlock Supervisor
begin

text \<open>
  From the supervisor's variables to the worker's: the resolve page of a reachable supervisor is the result of its publications, and
  whatever the interleaving of their stores with the loads of a worker, the set the worker gets is the one the supervisor has
  recorded. This joins \<open>Supervisor\<close>, where a publication is one step, with \<open>Seqlock\<close>, where it is many.
\<close>

section \<open>The publications of a supervisor\<close>

definition page_after :: "publication list \<Rightarrow> shared_resolve" where
  "page_after hist = foldl (\<lambda>sh pb. publish pb sh) resolve_create hist"

lemma page_after_snoc: "page_after (hist @ [pb]) = publish pb (page_after hist)"
  by (simp add: page_after_def)

lemma page_after_fields:
  "sr_seq (page_after hist) = of_nat (2 * length hist)"
  "sr_page (page_after hist) = foldl (\<lambda>p pb. publish_page pb p) zero_page hist"
  by (induction hist rule: rev_induct)
    (simp_all add: page_after_snoc, simp_all add: page_after_def resolve_create_def publish_def Let_def)

lemma refresh_keeps_page [simp]:
  "sp_shared (start_refresh cf inp st) = sp_shared st" "sp_shared (read_refresh cf inp st) = sp_shared st"
  "sp_shared (time_refresh inp st) = sp_shared st"
  by (simp_all add: start_refresh_def read_refresh_def time_refresh_def split: option.split sum.split prod.split)

lemma publish_weights_page:
  "sp_shared (publish_weights cf inp st) = sp_shared st \<or> (\<exists>pb. sp_shared (publish_weights cf inp st) = publish pb (sp_shared st))"
  by (auto simp: publish_weights_def Let_def)

text \<open>Each pass publishes at most once.\<close>

lemma step_page:
  assumes "supervise_step cf inp st = Inr (st', t)"
  shows "sp_shared st' = sp_shared st \<or> (\<exists>pb. sp_shared st' = publish pb (sp_shared st))"
proof -
  obtain ch rs where "sp_shared st' = sp_shared (publish_weights cf inp (time_refresh inp (read_refresh cf inp (start_refresh cf inp
      (st\<lparr>sp_children := ch, sp_restarts := rs\<rparr>)))))"
    using assms by (auto simp: supervise_step_def Let_def split: prod.splits if_splits)
  with publish_weights_page [of cf inp "time_refresh inp (read_refresh cf inp (start_refresh cf inp
      (st\<lparr>sp_children := ch, sp_restarts := rs\<rparr>)))"] show ?thesis by simp
qed

lemma reachable_history: "sup_reach cf env st \<Longrightarrow> \<exists>hist. hist \<noteq> [] \<and> sp_shared st = page_after hist"
proof (induction rule: sup_reach.induct)
  case (started port ex_aaaa ex_a now rs remotes inp)
  have "\<exists>pb. sp_shared (sup_init cf inp rs remotes) = page_after [pb]"
    by (auto simp: sup_init_def Let_def page_after_def)
  then show ?case by blast
next
  case (pass st inp st' t)
  then obtain hist where hist: "hist \<noteq> []" "sp_shared st = page_after hist" by blast
  show ?case
  proof (cases "sp_shared st' = sp_shared st")
    case True
    with hist show ?thesis by auto
  next
    case False
    with step_page [OF pass.hyps(3)] obtain pb where "sp_shared st' = page_after (hist @ [pb])"
      by (auto simp: hist(2) page_after_snoc)
    then show ?thesis by blast
  qed
qed

text \<open>
  C15. A worker adopts exactly what the supervisor has published. The page of every reachable supervisor is the result of
  publications made store by store beside a worker's loads, and in every interleaving with that result, at the step at which
  \<open>read_if_changed\<close> returns, the set it returns has exactly the addresses and weights the supervisor recorded as
  published, is not empty, carries the size of the fleet, and the counter it remembers is the supervisor's. Fewer than \<open>2 ^ 32\<close>
  counter stores fall into one read.
\<close>

theorem worker_adopts_published:
  assumes "sup_reach cf env st"
  shows "(\<exists>s. resolve_reach s \<and> sp_shared st = foldl (\<lambda>sh pb. publish pb sh) resolve_create (lk_hist s))
    \<and> (\<forall>s s' last_seq first t0 k acc l res.
        resolve_reach s \<and> sp_shared st = foldl (\<lambda>sh pb. publish pb sh) resolve_create (lk_hist s)
        \<and> lock_step publish_writes resolve_reads (0, empty_set) keep_first s s'
        \<and> lk_reader s = RReading last_seq first t0 k acc \<and> lk_reader s' = RGot l res \<and> lk_ticks s < t0 + 2 ^ 32 \<longrightarrow>
        us_addrs (snd res) = map fst (sp_published st) \<and> us_weights (snd res) = map snd (sp_published st)
        \<and> us_addrs (snd res) \<noteq> [] \<and> us_workers (snd res) = of_nat (length (cf_cpus cf)) \<and> l = sr_seq (sp_shared st))"
proof (rule conjI)
  from reachable_history [OF assms] obtain hist where "sp_shared st = page_after hist" by blast
  moreover obtain s where "resolve_reach s" "lk_hist s = hist" using resolve_lock.reach_history [OF page_ok_zero] by blast
  ultimately show "\<exists>s. resolve_reach s \<and> sp_shared st = foldl (\<lambda>sh pb. publish pb sh) resolve_create (lk_hist s)"
    unfolding page_after_def by blast
next
  have ag: "page_agrees cf st" using assms by (rule sup_agrees)
  have "us_addrs (snd res) = map fst (sp_published st) \<and> us_weights (snd res) = map snd (sp_published st)
      \<and> us_addrs (snd res) \<noteq> [] \<and> us_workers (snd res) = of_nat (length (cf_cpus cf)) \<and> l = sr_seq (sp_shared st)"
    if "resolve_reach s" "sp_shared st = page_after (lk_hist s)"
      "lock_step publish_writes resolve_reads (0, empty_set) keep_first s s'"
      "lk_reader s = RReading last_seq first t0 k acc" "lk_reader s' = RGot l res" "lk_ticks s < t0 + 2 ^ 32"
    for s s' last_seq first t0 k acc l res
  proof -
    from resolve_lock.returned_read [OF page_ok_zero that(1,3-6)]
    have "snd res = decode_page (sr_page (sp_shared st))" "l = sr_seq (sp_shared st)"
      by (simp_all add: resolve_lock.committed_def that(2) page_after_fields keep_first_def)
    with ag show ?thesis by (auto simp: page_agrees_def Let_def)
  qed
  then show "\<forall>s s' last_seq first t0 k acc l res.
      resolve_reach s \<and> sp_shared st = foldl (\<lambda>sh pb. publish pb sh) resolve_create (lk_hist s)
      \<and> lock_step publish_writes resolve_reads (0, empty_set) keep_first s s'
      \<and> lk_reader s = RReading last_seq first t0 k acc \<and> lk_reader s' = RGot l res \<and> lk_ticks s < t0 + 2 ^ 32 \<longrightarrow>
      us_addrs (snd res) = map fst (sp_published st) \<and> us_weights (snd res) = map snd (sp_published st)
      \<and> us_addrs (snd res) \<noteq> [] \<and> us_workers (snd res) = of_nat (length (cf_cpus cf)) \<and> l = sr_seq (sp_shared st)"
    unfolding page_after_def by blast
qed

text \<open>The set a worker of a fresh supervisor with one literal upstream reads: that address with weight 1, for two workers.\<close>

theorem worker_adopts_published_witness:
  "\<exists>s l res. resolve_reach s \<and> lk_reader s = RGot l res \<and> l = 2
     \<and> us_addrs (snd res) = [V4 0x08080808] \<and> us_weights (snd res) = [1] \<and> us_workers (snd res) = 2"
proof -
  let ?rs = "\<lparr>rs_addrs = [V4 0x08080808], rs_expires_at = from_secs (86400 * 365)\<rparr>"
  let ?inp = "demo_input 100 []"
  let ?st = "sup_init demo_config ?inp ?rs [\<lparr>sa_ip = V4 0x08080808, sa_port = 443\<rparr>]"
  let ?pb = "publication_of demo_config [(V4 0x08080808, 1)] ?inp (rs_expires_at ?rs)"
  let ?acc = "run_reads resolve_reads (publish_page ?pb zero_page) (0, empty_set)"
  let ?s = "\<lparr>lk_seq = 2, lk_page = publish_page ?pb zero_page, lk_writer = WIdle,
      lk_reader = RReading 0 2 2 (length resolve_reads) ?acc, lk_ticks = 2, lk_hist = [?pb]\<rparr>"
  let ?t = "?s\<lparr>lk_reader := RGot (keep_first 0 2) ?acc\<rparr>"
  have sup: "sup_reach demo_config calm ?st" using demo_calm by (intro demo_started) simp
  have one: "update_candidates [] [V4 0x08080808] (cf_prefer_ipv4 demo_config) = [V4 0x08080808]"
    by (simp add: update_candidates_def Let_def MAX_ADDRS_def)
  have pub: "sp_published ?st = [(V4 0x08080808, 1)]" "sp_shared ?st = page_after (lk_hist ?s)"
    by (simp_all add: sup_init_def one page_after_def Let_def)
  have r: "resolve_reach ?s" using page_ok_zero by (rule resolve_lock.reach_one_read)
  have t: "lock_step publish_writes resolve_reads (0, empty_set) keep_first ?s ?t" by (rule r_accept) simp_all
  have "us_addrs (snd ?acc) = map fst (sp_published ?st) \<and> us_weights (snd ?acc) = map snd (sp_published ?st)
      \<and> us_addrs (snd ?acc) \<noteq> [] \<and> us_workers (snd ?acc) = of_nat (length (cf_cpus demo_config))
      \<and> keep_first 0 2 = sr_seq (sp_shared ?st)"
    by (rule worker_adopts_published [OF sup, THEN conjunct2, rule_format, of ?s ?t 0 2 2 "length resolve_reads" ?acc])
      (intro conjI r t pub(2) [unfolded page_after_def], simp_all)
  moreover have "resolve_reach ?t" using r t unfolding lock_reach_def by (rule rtranclp.rtrancl_into_rtrancl)
  ultimately show ?thesis unfolding pub(1)
    by (intro exI [of _ ?t] exI [of _ "keep_first 0 2"] exI [of _ ?acc]) (simp add: demo_config_def keep_first_def)
qed

end
