(* ===== verification/Weak_Memory.thy ===== *)
theory Weak_Memory
  imports Seqlock
begin

text \<open>
  The seqlocks of \<^verbatim>\<open>src/pkgs/microdoh3/src/shared.rs\<close> on a machine that reorders: the stores of a writer wait in a buffer and
  become visible in any order that the memory orderings of the code allow. A \<open>Release\<close> store becomes visible after all earlier stores
  of its thread but holds back no later one; a \<open>SeqCst\<close> fence waits for the buffer to drain. The loads a reader makes between its two
  fences happen in any order. Once visible, a store is visible to all. \<open>ScoreWriter::write\<close> has a fence after the store of the odd
  counter, \<open>ResolveWriter::publish\<close> has none; the parameter \<open>fenced\<close> says which of the two a program is.
\<close>

section \<open>Buffered stores\<close>

datatype 'p instr = Seq u32 | Field nat "'p \<Rightarrow> 'p" | Fence

definition writer_code :: "bool \<Rightarrow> ('p \<Rightarrow> 'p) list \<Rightarrow> u32 \<Rightarrow> 'p instr list" where
  "writer_code fenced fs old =
    Seq (old + 1) # (if fenced then [Fence] else []) @ map2 Field [0..<length fs] fs @ [Fence, Seq (old + 2)]"

datatype ('p, 'r) reader_state =
    QIdle u32
  | QReading u32 u32 nat "nat \<rightharpoonup> 'p"
  | QGot u32 'r

record ('p, 'a, 'r) weak_state =
  wk_seq :: u32
  wk_page :: 'p
  wk_own :: u32
  wk_code :: "'p instr list"
  wk_buffer :: "'p instr list"
  wk_reader :: "('p, 'r) reader_state"
  wk_ticks :: nat
  wk_begun :: "'a list"

text \<open>Which buffered store may become visible before the earlier ones \<open>xs\<close>.\<close>

fun may_pass :: "'p instr list \<Rightarrow> 'p instr \<Rightarrow> bool" where
  "may_pass xs (Seq v) \<longleftrightarrow> xs = []"
| "may_pass xs (Field n f) \<longleftrightarrow> list_all (\<lambda>x. case x of Field m _ \<Rightarrow> m \<noteq> n | _ \<Rightarrow> True) xs"
| "may_pass xs Fence \<longleftrightarrow> False"

fun make_visible :: "'p instr \<Rightarrow> ('p, 'a, 'r) weak_state \<Rightarrow> ('p, 'a, 'r) weak_state" where
  "make_visible (Seq v) s = s\<lparr>wk_seq := v, wk_ticks := wk_ticks s + 1\<rparr>"
| "make_visible (Field n f) s = s\<lparr>wk_page := f (wk_page s)\<rparr>"
| "make_visible Fence s = s"

text \<open>The result of a read whose load \<open>k\<close> saw the page \<open>vals k\<close>.\<close>

definition gather :: "('p \<Rightarrow> 'r \<Rightarrow> 'r) list \<Rightarrow> (nat \<rightharpoonup> 'p) \<Rightarrow> 'r \<Rightarrow> 'r" where
  "gather reads vals r = fold (\<lambda>k. (reads ! k) (the (vals k))) [0..<length reads] r"

inductive weak_step ::
  "bool \<Rightarrow> ('a \<Rightarrow> ('p \<Rightarrow> 'p) list) \<Rightarrow> ('p \<Rightarrow> 'r \<Rightarrow> 'r) list \<Rightarrow> 'r \<Rightarrow> (u32 \<Rightarrow> u32 \<Rightarrow> u32)
    \<Rightarrow> ('p, 'a, 'r) weak_state \<Rightarrow> ('p, 'a, 'r) weak_state \<Rightarrow> bool"
  for fenced writes reads r0 next_last where
  s_begin: "wk_code s = [] \<Longrightarrow>
    weak_step fenced writes reads r0 next_last s
      (s\<lparr>wk_code := writer_code fenced (writes a) (wk_own s), wk_own := wk_own s + 2, wk_begun := wk_begun s @ [a]\<rparr>)"
| s_issue: "wk_code s = i # rest \<Longrightarrow> i \<noteq> Fence \<Longrightarrow>
    weak_step fenced writes reads r0 next_last s (s\<lparr>wk_code := rest, wk_buffer := wk_buffer s @ [i]\<rparr>)"
| s_wait: "wk_code s = Fence # rest \<Longrightarrow> wk_buffer s = [] \<Longrightarrow>
    weak_step fenced writes reads r0 next_last s (s\<lparr>wk_code := rest\<rparr>)"
| s_drain: "wk_buffer s = xs @ i # ys \<Longrightarrow> may_pass xs i \<Longrightarrow>
    weak_step fenced writes reads r0 next_last s (make_visible i (s\<lparr>wk_buffer := xs @ ys\<rparr>))"
| q_unchanged: "wk_reader s = QIdle last_seq \<Longrightarrow> wk_seq s = last_seq \<or> wk_seq s mod 2 = 1 \<Longrightarrow>
    weak_step fenced writes reads r0 next_last s s"
| q_start: "wk_reader s = QIdle last_seq \<Longrightarrow> wk_seq s \<noteq> last_seq \<Longrightarrow> wk_seq s mod 2 \<noteq> 1 \<Longrightarrow>
    weak_step fenced writes reads r0 next_last s (s\<lparr>wk_reader := QReading last_seq (wk_seq s) (wk_ticks s) Map.empty\<rparr>)"
| q_load: "wk_reader s = QReading last_seq first t0 vals \<Longrightarrow> k < length reads \<Longrightarrow> vals k = None \<Longrightarrow>
    weak_step fenced writes reads r0 next_last s (s\<lparr>wk_reader := QReading last_seq first t0 (vals(k \<mapsto> wk_page s))\<rparr>)"
| q_accept: "wk_reader s = QReading last_seq first t0 vals \<Longrightarrow> dom vals = {..<length reads} \<Longrightarrow> wk_seq s = first \<Longrightarrow>
    weak_step fenced writes reads r0 next_last s (s\<lparr>wk_reader := QGot (next_last last_seq first) (gather reads vals r0)\<rparr>)"
| q_reject: "wk_reader s = QReading last_seq first t0 vals \<Longrightarrow> dom vals = {..<length reads} \<Longrightarrow> wk_seq s \<noteq> first \<Longrightarrow>
    weak_step fenced writes reads r0 next_last s (s\<lparr>wk_reader := QIdle last_seq\<rparr>)"
| q_again: "wk_reader s = QGot last_seq res \<Longrightarrow>
    weak_step fenced writes reads r0 next_last s (s\<lparr>wk_reader := QIdle last_seq\<rparr>)"

definition weak_init :: "'p \<Rightarrow> ('p, 'a, 'r) weak_state" where
  "weak_init p = \<lparr>wk_seq = 0, wk_page = p, wk_own = 0, wk_code = [], wk_buffer = [], wk_reader = QIdle 0,
     wk_ticks = 0, wk_begun = []\<rparr>"

definition weak_reach ::
  "bool \<Rightarrow> ('a \<Rightarrow> ('p \<Rightarrow> 'p) list) \<Rightarrow> ('p \<Rightarrow> 'r \<Rightarrow> 'r) list \<Rightarrow> 'r \<Rightarrow> (u32 \<Rightarrow> u32 \<Rightarrow> u32)
    \<Rightarrow> 'p \<Rightarrow> ('p, 'a, 'r) weak_state \<Rightarrow> bool" where
  "weak_reach fenced writes reads r0 next_last p s \<longleftrightarrow>
    (weak_step fenced writes reads r0 next_last)\<^sup>*\<^sup>* (weak_init p) s"

section \<open>With the fence no read is torn\<close>

lemma run_writes_move:
  assumes "\<And>g. g \<in> set fs \<Longrightarrow> f \<circ> g = g \<circ> f"
  shows "run_writes (fs @ f # gs) p = run_writes (fs @ gs) (f p)"
  using assms by (induction fs arbitrary: p) (simp_all add: fun_eq_iff)

lemma gather_const:
  assumes "dom vals = {..<length reads}" "\<And>k v. vals k = Some v \<Longrightarrow> v = p"
  shows "gather reads vals r = run_reads reads p r"
proof -
  have "gather reads vals r = fold (\<lambda>k. (reads ! k) p) [0..<length reads] r"
    unfolding gather_def
  proof (rule fold_cong)
    fix k
    assume "k \<in> set [0..<length reads]"
    then have "k \<in> dom vals" using assms(1) by simp
    then show "(reads ! k) (the (vals k)) = (reads ! k) p" using assms(2) by (auto simp: dom_def)
  qed simp_all
  also have "\<dots> = fold (\<lambda>f. f p) (map ((!) reads) [0..<length reads]) r" by (simp add: fold_map comp_def)
  finally show ?thesis by (simp add: map_nth run_reads_def)
qed

text \<open>
  A page whose stores within one publication are to different places, so that their order does not matter.
\<close>

locale weak_seqlock = seqlock writes reads r0 next_last pub decode shape
  for writes :: "'a \<Rightarrow> ('p \<Rightarrow> 'p) list"
    and reads :: "('p \<Rightarrow> 'r \<Rightarrow> 'r) list"
    and r0 :: 'r
    and next_last :: "u32 \<Rightarrow> u32 \<Rightarrow> u32"
    and pub :: "'a \<Rightarrow> 'p \<Rightarrow> 'p"
    and decode :: "'p \<Rightarrow> 'r"
    and shape :: "'p \<Rightarrow> bool" +
  assumes commute: "f \<in> set (writes a) \<Longrightarrow> g \<in> set (writes a) \<Longrightarrow> f \<circ> g = g \<circ> f"
begin

text \<open>Where the writer can be: the store that closes a publication may still be in the buffer when the next one has begun.\<close>

definition closing :: "'a list \<Rightarrow> nat \<Rightarrow> 'p instr list \<Rightarrow> bool" where
  "closing h t buf \<longleftrightarrow> t = 2 * length h \<and> buf = []
     \<or> t + 1 = 2 * length h \<and> buf = [Seq (2 * of_nat (length h))]"

abbreviation fields :: "(nat \<times> ('p \<Rightarrow> 'p)) list \<Rightarrow> 'p instr list" where
  "fields \<equiv> map (\<lambda>(n, f). Field n f)"

inductive phase :: "'p \<Rightarrow> 'a list \<Rightarrow> nat \<Rightarrow> 'p \<Rightarrow> 'p instr list \<Rightarrow> 'p instr list \<Rightarrow> bool" for p where
  idle: "closing h t buf \<Longrightarrow> phase p h t (committed p h) [] buf"
| begun: "closing h t buf \<Longrightarrow>
    phase p (h @ [a]) t (committed p h) (writer_code True (writes a) (2 * of_nat (length h))) buf"
| odd_issued: "closing h t buf \<Longrightarrow>
    phase p (h @ [a]) t (committed p h) (tl (writer_code True (writes a) (2 * of_nat (length h))))
      (buf @ [Seq (2 * of_nat (length h) + 1)])"
| odd_visible:
    "phase p (h @ [a]) (Suc (2 * length h)) (committed p h) (tl (writer_code True (writes a) (2 * of_nat (length h)))) []"
| storing: "snd ` set (bs @ rest) \<subseteq> set (writes a) \<Longrightarrow>
    run_writes (map snd (bs @ rest)) page = committed p (h @ [a]) \<Longrightarrow>
    phase p (h @ [a]) (Suc (2 * length h)) page (fields rest @ [Fence, Seq (2 * of_nat (length h) + 2)]) (fields bs)"
| stored:
    "phase p (h @ [a]) (Suc (2 * length h)) (committed p (h @ [a])) [Seq (2 * of_nat (length h) + 2)] []"

definition weak_inv :: "'p \<Rightarrow> ('p, 'a, 'r) weak_state \<Rightarrow> bool" where
  "weak_inv p s \<longleftrightarrow> phase p (wk_begun s) (wk_ticks s) (wk_page s) (wk_code s) (wk_buffer s)
     \<and> wk_own s = 2 * of_nat (length (wk_begun s)) \<and> wk_seq s = of_nat (wk_ticks s)"

lemma phase_begin:
  assumes "phase p h t page [] buf"
  shows "phase p (h @ [a]) t page (writer_code True (writes a) (2 * of_nat (length h))) buf"
  using assms
proof cases
  case idle
  then show ?thesis by (simp add: phase.begun)
qed (auto simp: writer_code_def)

lemma phase_issue:
  assumes "phase p h t page (i # rest) buf" "i \<noteq> Fence"
  shows "phase p h t page rest (buf @ [i])"
  using assms(1)
proof cases
  case (begun h' a)
  then show ?thesis using phase.odd_issued [of h' t buf p a] by (auto simp: writer_code_def)
next
  case (storing bs rest' a h')
  show ?thesis
  proof (cases rest')
    case (Cons b bs')
    then show ?thesis using storing phase.storing [of "bs @ [b]" bs' a page p h'] by (auto simp: case_prod_beta)
  qed (use storing assms(2) in simp)
next
  case (stored h' a)
  then show ?thesis using phase.idle [of "h' @ [a]" t "[i]" p] by (auto simp: closing_def)
qed (use assms(2) in \<open>auto simp: writer_code_def\<close>)

lemma phase_wait:
  assumes "shape p" "phase p h t page (Fence # rest) []"
  shows "phase p h t page rest []"
  using assms(2)
proof cases
  case (odd_visible h' a)
  have "run_writes (writes a) (committed p h') = committed p (h' @ [a])"
    using assms(1) by (simp add: committed_snoc writes_pub committed_shape)
  moreover have "snd ` set (zip [0..<length (writes a)] (writes a)) \<subseteq> set (writes a)" by (auto dest: set_zip_rightD)
  ultimately show ?thesis
    using odd_visible phase.storing [of "[]" "zip [0..<length (writes a)] (writes a)" a "committed p h'" p h']
    by (simp add: writer_code_def)
next
  case (storing bs rest' a h')
  have "bs = []" using storing by simp
  moreover have "rest' = []" using storing by (cases rest') auto
  ultimately show ?thesis using storing by (auto intro: phase.stored)
qed (auto simp: writer_code_def)

lemma phase_drain_seq:
  assumes "phase p h t page code (xs @ Seq v # ys)" "xs = []"
  shows "phase p h (t + 1) page code ys \<and> v = of_nat (t + 1)"
  using assms(1) unfolding assms(2)
proof cases
  case (odd_issued h' buf a)
  then consider "t = 2 * length h'" "buf = []" | "t + 1 = 2 * length h'" "buf = [Seq (2 * of_nat (length h'))]"
    by (auto simp: closing_def)
  then show ?thesis
  proof cases
    case 1
    with odd_issued show ?thesis using phase.odd_visible [of p h' a] by simp
  next
    case 2
    with odd_issued have "v = of_nat (2 * length h')" by simp
    then have "v = of_nat (t + 1)" unfolding 2(1) .
    with 2 odd_issued show ?thesis using phase.odd_issued [of h' "t + 1" "[]" p a] by (simp add: closing_def)
  qed
next
  case (begun h' a)
  then have "Suc t = 2 * length h'" "v = of_nat (2 * length h')" "ys = []" by (auto simp: closing_def)
  with begun show ?thesis using phase.begun [of h' "2 * length h'" "[]" p a] by (simp add: closing_def flip: of_nat_Suc)
next
  case idle
  then have "Suc t = 2 * length h" "v = of_nat (2 * length h)" "ys = []" by (auto simp: closing_def)
  with idle show ?thesis using phase.idle [of h "2 * length h" "[]" p] by (simp add: closing_def flip: of_nat_Suc)
qed (auto simp: Cons_eq_map_conv)

lemma phase_drain_field:
  assumes "phase p h t page code (xs @ Field n f # ys)"
  shows "odd t \<and> phase p h t (f page) code (xs @ ys)"
  using assms
proof cases
  case (storing bs rest a h')
  from storing(4) [symmetric] obtain us vs where bs: "bs = us @ (n, f) # vs" "xs = fields us" "ys = fields vs"
    by (auto simp: map_eq_append_conv map_eq_Cons_conv)
  have "run_writes (map snd us @ f # map snd (vs @ rest)) page = run_writes (map snd us @ map snd (vs @ rest)) (f page)"
    using storing(5) bs(1) by (intro run_writes_move commute [of _ a]) auto
  with storing bs show ?thesis using phase.storing [of "us @ vs" rest a "f page" p h'] by auto
qed (auto simp: closing_def append_eq_Cons_conv)

text \<open>While the counter is even the page is the result of the publications it counts.\<close>

lemma even_page: "phase p h t page code buf \<Longrightarrow> even t \<Longrightarrow> page = committed p (take (t div 2) h)"
  by (erule phase.cases) (auto simp: closing_def)

definition weak_reader_inv :: "('p, 'a, 'r) weak_state \<Rightarrow> bool" where
  "weak_reader_inv s \<longleftrightarrow>
    (case wk_reader s of
       QReading last_seq first t0 vals \<Rightarrow>
         first = of_nat t0 \<and> even t0 \<and> t0 \<le> wk_ticks s
         \<and> (wk_ticks s = t0 \<longrightarrow> (\<forall>k v. vals k = Some v \<longrightarrow> v = wk_page s))
     | _ \<Rightarrow> True)"

lemma weak_inv_step:
  assumes "shape p" "weak_inv p s" "weak_step True writes reads r0 next_last s s'"
  shows "weak_inv p s'"
  using assms(3)
proof cases
  case (s_begin a)
  with assms(2) phase_begin [of p "wk_begun s" "wk_ticks s" "wk_page s" "wk_buffer s" a] show ?thesis
    by (simp add: weak_inv_def)
next
  case (s_issue i rest)
  with assms(2) show ?thesis by (simp add: weak_inv_def phase_issue)
next
  case (s_wait rest)
  with assms(1,2) show ?thesis by (simp add: weak_inv_def phase_wait)
next
  case (s_drain xs i ys)
  with assms(2) have ph: "phase p (wk_begun s) (wk_ticks s) (wk_page s) (wk_code s) (xs @ i # ys)"
    by (simp add: weak_inv_def)
  show ?thesis
  proof (cases i)
    case (Seq v)
    with s_drain have "xs = []" by simp
    with ph Seq have "phase p (wk_begun s) (wk_ticks s + 1) (wk_page s) (wk_code s) ys" "v = of_nat (wk_ticks s + 1)"
      using phase_drain_seq by blast+
    with assms(2) s_drain Seq \<open>xs = []\<close> show ?thesis by (simp add: weak_inv_def)
  next
    case (Field n f)
    with assms(2) s_drain ph show ?thesis using phase_drain_field by (fastforce simp: weak_inv_def)
  qed (use s_drain in simp)
qed (use assms(2) in \<open>auto simp: weak_inv_def\<close>)

lemma weak_reader_inv_step:
  assumes "weak_inv p s" "weak_reader_inv s" "weak_step True writes reads r0 next_last s s'"
  shows "weak_reader_inv s'"
  using assms(3)
proof cases
  case (s_drain xs i ys)
  then show ?thesis
  proof (cases i)
    case (Field n f)
    with assms(1) s_drain have "odd (wk_ticks s)" using phase_drain_field by (fastforce simp: weak_inv_def)
    with assms(2) s_drain Field show ?thesis by (auto simp: weak_reader_inv_def split: reader_state.splits)
  qed (use assms(2) in \<open>auto simp: weak_reader_inv_def split: reader_state.splits\<close>)
next
  case (q_start last_seq)
  with assms(1) show ?thesis
    by (auto simp: weak_reader_inv_def weak_inv_def odd_iff_mod_2_eq_one [symmetric])
qed (use assms(2) in \<open>auto simp: weak_reader_inv_def split: reader_state.splits\<close>)

lemma weak_reach_inv:
  assumes "shape p" "weak_reach True writes reads r0 next_last p s"
  shows "weak_inv p s \<and> weak_reader_inv s"
  using assms(2) unfolding weak_reach_def
proof (induction rule: rtranclp_induct)
  case base
  have "phase p [] 0 p [] []" using phase.idle [of "[]" 0 "[]" p] by (simp add: closing_def committed_def)
  then show ?case by (simp add: weak_inv_def weak_reader_inv_def weak_init_def)
next
  case (step s s')
  then show ?case using weak_inv_step [OF assms(1)] weak_reader_inv_step by blast
qed

lemma weak_returned_read:
  assumes "shape p" "weak_reach True writes reads r0 next_last p s" "weak_step True writes reads r0 next_last s s'"
    and pc: "wk_reader s = QReading last_seq first t0 vals" "wk_reader s' = QGot l res"
    and bound: "wk_ticks s < t0 + 2 ^ 32"
  shows "even (wk_ticks s) \<and> res = decode (committed p (take (wk_ticks s div 2) (wk_begun s))) \<and> l = next_last last_seq (wk_seq s)"
  using assms(3)
proof cases
  case (q_accept last_seq' first' t0' vals')
  have inv: "weak_inv p s" "weak_reader_inv s" using weak_reach_inv [OF assms(1,2)] by simp_all
  have t0: "t0 \<le> wk_ticks s" "even t0" "first = of_nat t0" using inv(2) pc by (simp_all add: weak_reader_inv_def)
  have "wk_seq s = first" using q_accept pc by simp
  then have "(of_nat (wk_ticks s) :: u32) = of_nat t0" using inv(1) t0(3) by (simp add: weak_inv_def)
  with t0(1) bound have eq: "wk_ticks s = t0" by (rule ticks_eq)
  then have page: "wk_page s = committed p (take (wk_ticks s div 2) (wk_begun s))"
    using inv(1) t0(2) even_page by (auto simp: weak_inv_def)
  have "gather reads vals r0 = run_reads reads (wk_page s) r0"
    using q_accept pc inv(2) eq by (intro gather_const) (auto simp: weak_reader_inv_def)
  then have "gather reads vals r0 = decode (wk_page s)" using page assms(1) by (simp add: reads_decode committed_shape)
  with q_accept pc page eq t0(2) show ?thesis by simp
next
  case (s_drain xs i ys)
  with pc show ?thesis by (cases i) simp_all
qed (use pc in simp_all)

end

section \<open>The two pages\<close>

interpretation score_weak: weak_seqlock score_writes score_reads sample_default keep_last
    "\<lambda>a s. slot_of_sample a" sample_of_slot "\<lambda>s. True"
  by unfold_locales (auto simp: score_writes_def fun_eq_iff)

definition slot_weight :: "publication \<Rightarrow> nat \<Rightarrow> u32" where
  "slot_weight pb i = (if i < min (length (pb_addrs pb)) MAX_ADDRS then weight_or (pb_weights pb) i else 0)"

text \<open>The stores of \<open>publish\<close>, each to its own place.\<close>

lemma publish_writes_cases:
  assumes "f \<in> set (publish_writes pb)"
  obtains (count) "f = (\<lambda>p. p\<lparr>rp_count := of_nat (min (length (pb_addrs pb)) MAX_ADDRS)\<rparr>)"
    | (revision) "f = (\<lambda>p. p\<lparr>rp_revision := rp_revision p + 1\<rparr>)"
    | (workers) "f = (\<lambda>p. p\<lparr>rp_workers := of_nat (pb_workers pb)\<rparr>)"
    | (addr) i where "f = (\<lambda>p. p\<lparr>rp_addrs := (rp_addrs p)[i := from_ip (pb_addrs pb ! i)]\<rparr>)"
    | (weight) i where "f = (\<lambda>p. p\<lparr>rp_weights := (rp_weights p)[i := slot_weight pb i]\<rparr>)"
    | (published) "f = (\<lambda>p. p\<lparr>rp_published := pb_now1 pb\<rparr>)"
    | (expires) "f = (\<lambda>p. p\<lparr>rp_expires := pb_now2 pb + pb_ttl pb\<rparr>)"
proof -
  let ?n = "min (length (pb_addrs pb)) MAX_ADDRS"
  have w: "weight_or (pb_weights pb) i = slot_weight pb i" if "i < ?n" for i using that by (simp add: slot_weight_def)
  have z: "0 = slot_weight pb i" if "?n \<le> i" for i using that by (auto simp: slot_weight_def)
  have entries: thesis if "f = (\<lambda>p. p\<lparr>rp_weights := (rp_weights p)[i := weight_or (pb_weights pb) i]\<rparr>)" "i < ?n" for i
    using that weight [of i] by (simp add: w)
  have cleared: thesis if "f = (\<lambda>p. p\<lparr>rp_weights := (rp_weights p)[i := 0]\<rparr>)" "?n \<le> i" for i
    using that weight [of i] by (simp flip: z)
  show thesis
    using assms count revision workers addr published expires entries cleared
    by (auto simp: publish_writes_def Let_def)
qed

lemma publish_writes_commute:
  assumes "f \<in> set (publish_writes pb)" "g \<in> set (publish_writes pb)"
  shows "f \<circ> g = g \<circ> f"
proof -
  have upd: "xs[i := h i, j := h j] = xs[j := h j, i := h i]" for xs :: "'z list" and h i j
    by (cases "i = j") (simp_all add: list_update_swap)
  from assms show ?thesis
    by (elim publish_writes_cases) (auto simp: fun_eq_iff upd [of _ _ "\<lambda>i. from_ip (pb_addrs pb ! i)"] upd [of _ _ "slot_weight pb"])
qed

interpretation resolve_weak: weak_seqlock publish_writes resolve_reads "(0, empty_set)" keep_first publish_page
    "\<lambda>p. (unat (min (rp_count p) (of_nat MAX_ADDRS)), decode_page p)" page_ok
  by unfold_locales (rule publish_writes_commute)

section \<open>Running the machine\<close>

lemma visible_one:
  assumes "wk_code s = i # rest" "i \<noteq> Fence" "wk_buffer s = []"
  shows "(weak_step fenced writes reads r0 next_last)\<^sup>*\<^sup>* s (make_visible i (s\<lparr>wk_code := rest\<rparr>))"
proof -
  let ?s = "s\<lparr>wk_code := rest, wk_buffer := wk_buffer s @ [i]\<rparr>"
  have "weak_step fenced writes reads r0 next_last s ?s" using assms(1,2) by (rule s_issue)
  moreover have "weak_step fenced writes reads r0 next_last ?s (make_visible i (?s\<lparr>wk_buffer := [] @ []\<rparr>))"
    using assms(2,3) by (intro s_drain) (simp, cases i, simp_all)
  moreover have "?s\<lparr>wk_buffer := [] @ []\<rparr> = s\<lparr>wk_code := rest\<rparr>" using assms(3) by simp
  ultimately show ?thesis by (metis converse_rtranclp_into_rtranclp r_into_rtranclp)
qed

lemma visible_fields:
  assumes "wk_code s = map (\<lambda>(n, f). Field n f) fs @ rest" "wk_buffer s = []"
  shows "(weak_step fenced writes reads r0 next_last)\<^sup>*\<^sup>* s (s\<lparr>wk_code := rest, wk_page := run_writes (map snd fs) (wk_page s)\<rparr>)"
  using assms
proof (induction fs arbitrary: s)
  case Nil
  then have "s = s\<lparr>wk_code := rest, wk_page := run_writes (map snd []) (wk_page s)\<rparr>" by simp
  then show ?case by (metis rtranclp.rtrancl_refl)
next
  case (Cons x fs)
  obtain n f where x: "x = (n, f)" by (cases x)
  let ?s = "make_visible (Field n f) (s\<lparr>wk_code := map (\<lambda>(n, f). Field n f) fs @ rest\<rparr>)"
  have "(weak_step fenced writes reads r0 next_last)\<^sup>*\<^sup>* s ?s" using Cons.prems x by (intro visible_one) simp_all
  moreover have "(weak_step fenced writes reads r0 next_last)\<^sup>*\<^sup>* ?s
      (?s\<lparr>wk_code := rest, wk_page := run_writes (map snd fs) (wk_page ?s)\<rparr>)"
    using Cons.prems by (intro Cons.IH) simp_all
  ultimately show ?case by (simp add: x)
qed

lemma wait_one:
  assumes "wk_code s = Fence # rest" "wk_buffer s = []"
  shows "(weak_step fenced writes reads r0 next_last)\<^sup>*\<^sup>* s (s\<lparr>wk_code := rest\<rparr>)"
  using s_wait [OF assms] by (rule r_into_rtranclp)

abbreviation quiet :: "u32 \<Rightarrow> 'p \<Rightarrow> u32 \<Rightarrow> 'p instr list \<Rightarrow> ('p, 'r) reader_state \<Rightarrow> nat \<Rightarrow> 'a list \<Rightarrow> ('p, 'a, 'r) weak_state" where
  "quiet q p w code r t b \<equiv> \<lparr>wk_seq = q, wk_page = p, wk_own = w, wk_code = code, wk_buffer = [], wk_reader = r,
     wk_ticks = t, wk_begun = b\<rparr>"

lemma publish_alone:
  "(weak_step fenced writes reads r0 next_last)\<^sup>*\<^sup>* (quiet q p w [] r t b)
    (quiet (w + 2) (run_writes (writes a) p) (w + 2) [] r (t + 2) (b @ [a]))"
proof -
  let ?W = "weak_step fenced writes reads r0 next_last"
  let ?fs = "zip [0..<length (writes a)] (writes a)"
  let ?tail = "map (\<lambda>(n, f). Field n f) ?fs @ [Fence, Seq (w + 2)]"
  let ?s0 = "quiet q p (w + 2) (writer_code fenced (writes a) w) r t (b @ [a])"
  let ?s1 = "\<lambda>code. quiet (w + 1) p (w + 2) code r (t + 1) (b @ [a])"
  let ?s2 = "\<lambda>code. quiet (w + 1) (run_writes (writes a) p) (w + 2) code r (t + 1) (b @ [a])"
  have "?W\<^sup>*\<^sup>* (quiet q p w [] r t b) ?s0"
    using s_begin [of "quiet q p w [] r t b" fenced writes reads r0 next_last a] by (intro r_into_rtranclp) simp
  also have "?W\<^sup>*\<^sup>* ?s0 (?s1 ((if fenced then [Fence] else []) @ ?tail))"
    using visible_one [of ?s0 "Seq (w + 1)" _ fenced writes reads r0 next_last] by (simp add: writer_code_def)
  also (rtranclp_trans) have "?W\<^sup>*\<^sup>* \<dots> (?s1 ?tail)"
  proof (cases fenced)
    case True
    then show ?thesis using wait_one [of "?s1 (Fence # ?tail)" ?tail fenced writes reads r0 next_last] by simp
  qed simp
  also (rtranclp_trans) have "?W\<^sup>*\<^sup>* \<dots> (?s2 [Fence, Seq (w + 2)])"
    using visible_fields [of "?s1 ?tail" ?fs "[Fence, Seq (w + 2)]" fenced writes reads r0 next_last] by simp
  also (rtranclp_trans) have "?W\<^sup>*\<^sup>* \<dots> (?s2 [Seq (w + 2)])"
    using wait_one [of "?s2 [Fence, Seq (w + 2)]" _ fenced writes reads r0 next_last] by simp
  also (rtranclp_trans) have "?W\<^sup>*\<^sup>* \<dots> (quiet (w + 2) (run_writes (writes a) p) (w + 2) [] r (t + 2) (b @ [a]))"
    using visible_one [of "?s2 [Seq (w + 2)]" "Seq (w + 2)" _ fenced writes reads r0 next_last] by simp
  finally (rtranclp_trans) show ?thesis .
qed

lemma issue_fields:
  assumes "wk_code s = map (\<lambda>(n, f). Field n f) fs @ rest"
  shows "(weak_step fenced writes reads r0 next_last)\<^sup>*\<^sup>* s
    (s\<lparr>wk_code := rest, wk_buffer := wk_buffer s @ map (\<lambda>(n, f). Field n f) fs\<rparr>)"
  using assms
proof (induction fs arbitrary: s)
  case Nil
  then have "s = s\<lparr>wk_code := rest, wk_buffer := wk_buffer s @ map (\<lambda>(n, f). Field n f) []\<rparr>" by simp
  then show ?case by (metis rtranclp.rtrancl_refl)
next
  case (Cons x fs)
  obtain n f where x: "x = (n, f)" by (cases x)
  let ?s = "s\<lparr>wk_code := map (\<lambda>(n, f). Field n f) fs @ rest, wk_buffer := wk_buffer s @ [Field n f]\<rparr>"
  have "weak_step fenced writes reads r0 next_last s ?s" using Cons.prems x by (intro s_issue) simp_all
  moreover have "(weak_step fenced writes reads r0 next_last)\<^sup>*\<^sup>* ?s
      (?s\<lparr>wk_code := rest, wk_buffer := wk_buffer ?s @ map (\<lambda>(n, f). Field n f) fs\<rparr>)"
    using Cons.prems by (intro Cons.IH) simp_all
  ultimately show ?case by (simp add: x converse_rtranclp_into_rtranclp)
qed

text \<open>A reader left alone gets the page as it is visible.\<close>

definition seen :: "nat \<Rightarrow> 'p \<Rightarrow> nat \<rightharpoonup> 'p" where
  "seen n p = (\<lambda>j. if j < n then Some p else None)"

lemma seen_simps: "seen 0 p = Map.empty" "(seen n p)(n \<mapsto> p) = seen (Suc n) p" "seen n p n = None" "dom (seen n p) = {..<n}"
    "seen n p k = Some v \<Longrightarrow> v = p"
  by (auto simp: seen_def fun_eq_iff split: if_splits)

lemma load_all:
  assumes "k \<le> length reads" "wk_reader s = QReading l f t (seen k (wk_page s))"
  shows "(weak_step fenced writes reads r0 next_last)\<^sup>*\<^sup>* s
    (s\<lparr>wk_reader := QReading l f t (seen (length reads) (wk_page s))\<rparr>)"
  using assms
proof (induction "length reads - k" arbitrary: k s)
  case 0
  then have "s = s\<lparr>wk_reader := QReading l f t (seen (length reads) (wk_page s))\<rparr>" by simp
  then show ?case by (metis rtranclp.rtrancl_refl)
next
  case (Suc n)
  let ?s = "s\<lparr>wk_reader := QReading l f t ((seen k (wk_page s))(k \<mapsto> wk_page s))\<rparr>"
  have "weak_step fenced writes reads r0 next_last s ?s" using Suc by (intro q_load) (simp_all add: seen_simps)
  moreover have "(weak_step fenced writes reads r0 next_last)\<^sup>*\<^sup>* ?s
      (?s\<lparr>wk_reader := QReading l f t (seen (length reads) (wk_page ?s))\<rparr>)"
    using Suc by (intro Suc.hyps(1) [of "Suc k"]) (simp_all add: seen_simps)
  ultimately show ?case by (simp add: converse_rtranclp_into_rtranclp)
qed

lemma read_alone:
  assumes "wk_reader s = QIdle l" "wk_seq s \<noteq> l" "wk_seq s mod 2 \<noteq> 1"
  obtains vals where "(weak_step fenced writes reads r0 next_last)\<^sup>*\<^sup>* s (s\<lparr>wk_reader := QReading l (wk_seq s) (wk_ticks s) vals\<rparr>)"
    "weak_step fenced writes reads r0 next_last (s\<lparr>wk_reader := QReading l (wk_seq s) (wk_ticks s) vals\<rparr>)
        (s\<lparr>wk_reader := QGot (next_last l (wk_seq s)) (run_reads reads (wk_page s) r0)\<rparr>)"
proof
  let ?W = "weak_step fenced writes reads r0 next_last"
  let ?vals = "seen (length reads) (wk_page s)"
  let ?s0 = "s\<lparr>wk_reader := QReading l (wk_seq s) (wk_ticks s) Map.empty\<rparr>"
  let ?s1 = "s\<lparr>wk_reader := QReading l (wk_seq s) (wk_ticks s) ?vals\<rparr>"
  have "?W s ?s0" using assms by (rule q_start)
  also have "?W\<^sup>*\<^sup>* ?s0 ?s1" using load_all [of 0 reads ?s0 l "wk_seq s" "wk_ticks s"] by (simp add: seen_simps)
  finally (converse_rtranclp_into_rtranclp) show "?W\<^sup>*\<^sup>* s ?s1" .
  have "gather reads ?vals r0 = run_reads reads (wk_page s) r0" by (rule gather_const) (auto simp: seen_simps)
  then show "?W ?s1 (s\<lparr>wk_reader := QGot (next_last l (wk_seq s)) (run_reads reads (wk_page s) r0)\<rparr>)"
    using q_accept [of ?s1 l "wk_seq s" "wk_ticks s" ?vals reads fenced writes r0 next_last] by (simp add: seen_simps)
qed

section \<open>Scores are safe\<close>

abbreviation score_weak_step :: "(score_slot, score_sample \<times> u64, score_sample) weak_state
    \<Rightarrow> (score_slot, score_sample \<times> u64, score_sample) weak_state \<Rightarrow> bool" where
  "score_weak_step \<equiv> weak_step True score_writes score_reads sample_default keep_last"

abbreviation score_weak_reach :: "score_slot \<Rightarrow> (score_slot, score_sample \<times> u64, score_sample) weak_state \<Rightarrow> bool" where
  "score_weak_reach \<equiv> weak_reach True score_writes score_reads sample_default keep_last"

text \<open>
  C5. The supervisor never acts on a torn score even when stores and loads are reordered as far as the orderings and fences of
  \<open>ScoreWriter::write\<close> and \<open>ScoreReader::read\<close> allow: at the step at which \<open>read\<close> returns, the sample is exactly the last one
  whose closing counter store is visible, whatever the worker has begun since. Fewer than \<open>2 ^ 32\<close> counter stores
  fall into one read.
\<close>

theorem score_read_ordered:
  assumes "score_weak_reach slot0 s" "score_weak_step s s'"
    and "wk_reader s = QReading last_seq first t0 vals" "wk_reader s' = QGot l res"
    and "wk_ticks s < t0 + 2 ^ 32"
  shows "even (wk_ticks s) \<and> (let done = take (wk_ticks s div 2) (wk_begun s) in
    res = sample_of_slot (if done = [] then slot0 else slot_of_sample (last done)))"
proof -
  have "foldl (\<lambda>s a. slot_of_sample a) slot0 h = (if h = [] then slot0 else slot_of_sample (last h))" for h
    by (cases h rule: rev_cases) simp_all
  then show ?thesis
    using score_weak.weak_returned_read [OF TrueI assms] by (simp add: score_lock.committed_def)
qed

theorem score_read_ordered_witness:
  "\<exists>s. score_weak_reach (ls_slot zero_slot) s \<and> wk_reader s = QGot 0 (sample_default\<lparr>sm_score := 5, sm_updated := 9\<rparr>)"
proof -
  let ?a = "(sample_default\<lparr>sm_score := 5\<rparr>, 9 :: u64)"
  define s :: "(score_slot, score_sample \<times> u64, score_sample) weak_state" where
    "s = quiet 2 (slot_of_sample ?a) 2 [] (QIdle 0) 2 [?a]"
  let ?res = "run_reads score_reads (slot_of_sample ?a) sample_default"
  have r: "score_weak_reach (ls_slot zero_slot) s"
    using publish_alone [of True score_writes score_reads sample_default keep_last 0 "ls_slot zero_slot" 0 "QIdle 0" 0 "[]" ?a]
    by (simp add: s_def weak_reach_def weak_init_def score_lock.writes_pub del: add_2_eq_Suc add_2_eq_Suc')
  obtain vals where v: "score_weak_step\<^sup>*\<^sup>* s (s\<lparr>wk_reader := QReading 0 (wk_seq s) (wk_ticks s) vals\<rparr>)"
      "score_weak_step (s\<lparr>wk_reader := QReading 0 (wk_seq s) (wk_ticks s) vals\<rparr>)
        (s\<lparr>wk_reader := QGot (keep_last 0 (wk_seq s)) (run_reads score_reads (wk_page s) sample_default)\<rparr>)"
    by (rule read_alone [of s 0 True score_writes score_reads sample_default keep_last]) (simp_all add: s_def)
  have r1: "score_weak_reach (ls_slot zero_slot) (s\<lparr>wk_reader := QReading 0 (wk_seq s) (wk_ticks s) vals\<rparr>)"
    unfolding weak_reach_def by (rule rtranclp_trans [OF r [unfolded weak_reach_def] v(1)])
  from score_read_ordered [OF r1 v(2)] have "?res = sample_of_slot (slot_of_sample ?a)" by (simp add: s_def)
  also have "\<dots> = sample_default\<lparr>sm_score := 5, sm_updated := 9\<rparr>"
    by (simp add: sample_of_slot_def slot_of_sample_def sample_default_def raw_default_def list_all_replicate_0)
  finally have res: "?res = sample_default\<lparr>sm_score := 5, sm_updated := 9\<rparr>" .
  have "score_weak_reach (ls_slot zero_slot) (s\<lparr>wk_reader := QGot (keep_last 0 (wk_seq s)) ?res\<rparr>)"
    using rtranclp.rtrancl_into_rtrancl [OF r1 [unfolded weak_reach_def] v(2)] unfolding weak_reach_def by (simp add: s_def)
  then show ?thesis by (intro exI conjI) (assumption, simp add: res keep_last_def)
qed

section \<open>The resolve page is not\<close>

abbreviation resolve_weak_step :: "bool \<Rightarrow> (resolve_page, publication, usize \<times> upstream_set) weak_state
    \<Rightarrow> (resolve_page, publication, usize \<times> upstream_set) weak_state \<Rightarrow> bool" where
  "resolve_weak_step fenced \<equiv> weak_step fenced publish_writes resolve_reads (0, empty_set) keep_first"

abbreviation resolve_weak_reach :: "bool \<Rightarrow> (resolve_page, publication, usize \<times> upstream_set) weak_state \<Rightarrow> bool" where
  "resolve_weak_reach fenced \<equiv> weak_reach fenced publish_writes resolve_reads (0, empty_set) keep_first zero_page"

text \<open>With the fence that \<open>write\<close> has, \<open>publish\<close> would be safe too.\<close>

lemma fenced_publish_not_torn:
  assumes "resolve_weak_reach True s" "resolve_weak_step True s s'"
    and "wk_reader s = QReading last_seq first t0 vals" "wk_reader s' = QGot l res" "wk_ticks s < t0 + 2 ^ 32"
  shows "snd res = decode_page (foldl (\<lambda>p pb. publish_page pb p) zero_page (take (wk_ticks s div 2) (wk_begun s)))"
  using resolve_weak.weak_returned_read [OF page_ok_zero assms] by (simp add: resolve_lock.committed_def)

definition first_pub :: publication where
  "first_pub = \<lparr>pb_addrs = [V4 1], pb_weights = [3], pb_workers = 1, pb_now1 = 0, pb_now2 = 0, pb_ttl = 60\<rparr>"

definition second_pub :: publication where
  "second_pub = \<lparr>pb_addrs = [V4 2], pb_weights = [7], pb_workers = 1, pb_now1 = 1, pb_now2 = 1, pb_ttl = 60\<rparr>"

definition torn_page :: resolve_page where
  "torn_page = (let p = publish_page first_pub zero_page in p\<lparr>rp_addrs := (rp_addrs p)[0 := from_ip (V4 2)]\<rparr>)"

lemma second_writes:
  obtains ws where "publish_writes second_pub =
    [\<lambda>p. p\<lparr>rp_count := 1\<rparr>, \<lambda>p. p\<lparr>rp_revision := rp_revision p + 1\<rparr>, \<lambda>p. p\<lparr>rp_workers := 1\<rparr>,
     \<lambda>p. p\<lparr>rp_addrs := (rp_addrs p)[0 := from_ip (V4 2)]\<rparr>] @ ws"
  by (simp add: publish_writes_def second_pub_def MAX_ADDRS_def)

text \<open>The store of the first address overtakes the store of the odd counter and the stores before it.\<close>

lemma reach_torn_page: "\<exists>code buf. resolve_weak_reach False
    \<lparr>wk_seq = 2, wk_page = torn_page, wk_own = 4, wk_code = code, wk_buffer = buf, wk_reader = QIdle 0, wk_ticks = 2,
     wk_begun = [first_pub, second_pub]\<rparr>"
proof -
  let ?W = "resolve_weak_step False"
  let ?p = "publish_page first_pub zero_page"
  let ?s = "\<lambda>p code buf. \<lparr>wk_seq = 2, wk_page = p, wk_own = 4, wk_code = code, wk_buffer = buf, wk_reader = QIdle 0, wk_ticks = 2,
     wk_begun = [first_pub, second_pub]\<rparr> :: (resolve_page, publication, usize \<times> upstream_set) weak_state"
  obtain ws where ws: "publish_writes second_pub =
    [\<lambda>p. p\<lparr>rp_count := 1\<rparr>, \<lambda>p. p\<lparr>rp_revision := rp_revision p + 1\<rparr>, \<lambda>p. p\<lparr>rp_workers := 1\<rparr>,
     \<lambda>p. p\<lparr>rp_addrs := (rp_addrs p)[0 := from_ip (V4 2)]\<rparr>] @ ws" by (rule second_writes)
  let ?c = "\<lambda>p :: resolve_page. p\<lparr>rp_count := 1\<rparr>" and ?r = "\<lambda>p :: resolve_page. p\<lparr>rp_revision := rp_revision p + 1\<rparr>"
    and ?w = "\<lambda>p :: resolve_page. p\<lparr>rp_workers := 1\<rparr>" and ?a = "\<lambda>p :: resolve_page. p\<lparr>rp_addrs := (rp_addrs p)[0 := from_ip (V4 2)]\<rparr>"
  let ?rest = "map2 Field [4..<length ws + 4] ws @ [Fence, Seq 4]"
  let ?head = "[Field 0 ?c, Field 1 ?r, Field 2 ?w]"
  have "[0..<Suc (Suc (Suc (Suc (length ws))))] = 0 # 1 # 2 # 3 # [4..<length ws + 4]"
    by (simp add: upt_conv_Cons eval_nat_numeral del: upt_Suc)
  then have code: "writer_code False (publish_writes second_pub) 2 = Seq 3 # (?head @ [Field 3 ?a]) @ ?rest"
    by (simp add: writer_code_def ws del: upt_Suc)
  have "resolve_weak_reach False (quiet 2 ?p 2 [] (QIdle 0) 2 [first_pub])"
    using publish_alone [of False publish_writes resolve_reads "(0, empty_set)" keep_first 0 zero_page 0 "QIdle 0" 0 "[]" first_pub]
    by (simp add: weak_reach_def weak_init_def publish_writes_run page_ok_zero del: add_2_eq_Suc add_2_eq_Suc')
  then have "?W\<^sup>*\<^sup>* (weak_init zero_page) (quiet 2 ?p 2 [] (QIdle 0) 2 [first_pub])" by (simp add: weak_reach_def)
  also have "?W\<^sup>*\<^sup>* \<dots> (?s ?p (Seq 3 # (?head @ [Field 3 ?a]) @ ?rest) [])"
    using s_begin [of "quiet 2 ?p 2 [] (QIdle 0) 2 [first_pub]" False publish_writes resolve_reads "(0, empty_set)" keep_first second_pub]
    unfolding code [symmetric] by (intro r_into_rtranclp) simp
  also (rtranclp_trans) have "?W\<^sup>*\<^sup>* \<dots> (?s ?p ((?head @ [Field 3 ?a]) @ ?rest) [Seq 3])"
    using s_issue [of "?s ?p (Seq 3 # (?head @ [Field 3 ?a]) @ ?rest) []" "Seq 3"] by (intro r_into_rtranclp) simp
  also (rtranclp_trans) have "?W\<^sup>*\<^sup>* \<dots> (?s ?p ?rest ([Seq 3] @ ?head @ [Field 3 ?a]))"
    using issue_fields [of "?s ?p ((?head @ [Field 3 ?a]) @ ?rest) [Seq 3]" "[(0, ?c), (1, ?r), (2, ?w), (3, ?a)]" ?rest] by simp
  also (rtranclp_trans) have "?W\<^sup>*\<^sup>* \<dots> (?s torn_page ?rest ([Seq 3] @ ?head))"
    using s_drain [of "?s ?p ?rest ([Seq 3] @ ?head @ [Field 3 ?a])" "[Seq 3] @ ?head" "Field 3 ?a" "[]"]
    by (intro r_into_rtranclp) (simp add: torn_page_def Let_def)
  finally (rtranclp_trans) show ?thesis unfolding weak_reach_def by blast
qed

text \<open>
  C38. Without a fence after the store of the odd counter, \<open>publish\<close> lets a worker act on a torn set: with the reordering that the
  orderings of the code allow, \<open>read_if_changed\<close> returns the new address with the weight, the revision and the time of the old
  publication, a set that the supervisor has never published.
\<close>

theorem publish_can_tear:
  "\<exists>s l n us. resolve_weak_reach False s \<and> wk_reader s = QGot l (n, us) \<and> wk_begun s = [first_pub, second_pub]
     \<and> us_addrs us = pb_addrs second_pub \<and> us_weights us = pb_weights first_pub \<and> us_revision us = 1
     \<and> (\<forall>k. us \<noteq> decode_page (foldl (\<lambda>p pb. publish_page pb p) zero_page (take k (wk_begun s))))"
proof -
  from reach_torn_page obtain code buf where
    r: "resolve_weak_reach False \<lparr>wk_seq = 2, wk_page = torn_page, wk_own = 4, wk_code = code, wk_buffer = buf, wk_reader = QIdle 0,
      wk_ticks = 2, wk_begun = [first_pub, second_pub]\<rparr>" (is "resolve_weak_reach False ?s") by blast
  obtain vals where v: "(resolve_weak_step False)\<^sup>*\<^sup>* ?s (?s\<lparr>wk_reader := QReading 0 (wk_seq ?s) (wk_ticks ?s) vals\<rparr>)"
      "resolve_weak_step False (?s\<lparr>wk_reader := QReading 0 (wk_seq ?s) (wk_ticks ?s) vals\<rparr>)
        (?s\<lparr>wk_reader := QGot (keep_first 0 (wk_seq ?s)) (run_reads resolve_reads (wk_page ?s) (0, empty_set))\<rparr>)"
    by (rule read_alone [of ?s 0 False publish_writes resolve_reads "(0, empty_set)" keep_first]) simp_all
  let ?us = "decode_page torn_page"
  have us: "?us = \<lparr>us_addrs = [V4 2], us_weights = [3], us_revision = 1, us_workers = 1, us_published = 0\<rparr>"
    by (simp add: decode_page_def torn_page_def publish_page_def first_pub_def zero_page_def weight_or_def get_def MAX_ADDRS_def Let_def)
  have d: "us_addrs (decode_page zero_page) = []" "us_addrs (decode_page (publish_page first_pub zero_page)) = [V4 1]"
      "us_weights (decode_page (publish_page second_pub (publish_page first_pub zero_page))) = [7]"
    by (simp add: decode_page_def zero_page_def)
      (simp_all add: decode_publish page_ok_publish page_ok_zero first_pub_def second_pub_def MAX_ADDRS_def weight_or_def get_def)
  have "?us \<noteq> decode_page (foldl (\<lambda>p pb. publish_page pb p) zero_page (take k [first_pub, second_pub]))" for k
  proof -
    consider "take k [first_pub, second_pub] = []" | "take k [first_pub, second_pub] = [first_pub]"
      | "take k [first_pub, second_pub] = [first_pub, second_pub]"
      by (cases k; cases "k - 1") simp_all
    then show ?thesis using d by cases (auto simp: us dest: arg_cong [where f = us_addrs] arg_cong [where f = us_weights])
  qed
  moreover have "resolve_weak_reach False (?s\<lparr>wk_reader := QGot (keep_first 0 (wk_seq ?s)) (run_reads resolve_reads (wk_page ?s) (0, empty_set))\<rparr>)"
    using r v unfolding weak_reach_def by (meson rtranclp_trans rtranclp.rtrancl_into_rtrancl)
  moreover have "us_addrs ?us = pb_addrs second_pub" "us_weights ?us = pb_weights first_pub" "us_revision ?us = 1"
    unfolding us by (simp_all add: first_pub_def second_pub_def)
  ultimately show ?thesis
    by (intro exI [of _ "?s\<lparr>wk_reader := QGot 2 (unat (min (rp_count torn_page) (of_nat MAX_ADDRS)), ?us)\<rparr>"]
        exI [of _ 2] exI [of _ "unat (min (rp_count torn_page) (of_nat MAX_ADDRS))"] exI [of _ ?us])
      (simp add: resolve_reads_run keep_first_def)
qed

end
