(* ===== verification/Honk_Build.thy ===== *)
theory Honk_Build
  imports Cpus
begin

text \<open>
  The build script of the package honk (\<^verbatim>\<open>core-build.rs\<close>), which hands two values to the crate it builds by printing
  directives for cargo. The environment maps names to byte strings; a value that is not UTF-8 is an error for \<open>std::env::var\<close>.
\<close>

section \<open>The script\<close>

definition env_var :: "(string \<Rightarrow> bytes option) \<Rightarrow> string \<Rightarrow> bytes option" where
  "env_var env name = Option.bind (env name) (\<lambda>v. if utf8_valid v then Some v else None)"

definition honk_version :: "(string \<Rightarrow> bytes option) \<Rightarrow> bytes \<Rightarrow> bytes" where
  "honk_version env cargo_pkg_version =
    (case Option.bind (env_var env ''GITHUB_REF'') (strip_bytes (as_bytes ''refs/tags/'')) of
       None \<Rightarrow> cargo_pkg_version
     | Some tag \<Rightarrow> if tag \<noteq> [] then tag else cargo_pkg_version)"

definition println :: "bytes \<Rightarrow> bytes" where
  "println l = l @ [10]"

text \<open>What the script prints, or \<^term>\<open>None\<close> when it panics before printing anything.\<close>

definition honk_build_main :: "(string \<Rightarrow> bytes option) \<Rightarrow> bytes \<Rightarrow> bytes option" where
  "honk_build_main env cargo_pkg_version =
    (case env_var env ''HONK_EBPF_OBJECT'' of
       None \<Rightarrow> None
     | Some object \<Rightarrow> Some
         (println (as_bytes ''cargo:rerun-if-env-changed=HONK_EBPF_OBJECT'')
          @ println (as_bytes ''cargo:rustc-env=HONK_EBPF_OBJECT='' @ object)
          @ println (as_bytes ''cargo:rerun-if-env-changed=GITHUB_REF'')
          @ println (as_bytes ''cargo:rustc-env=HONK_VERSION='' @ honk_version env cargo_pkg_version)))"

section \<open>What cargo reads\<close>

definition plain_line :: "bytes \<Rightarrow> bool" where
  "plain_line l \<longleftrightarrow> 10 \<notin> set l \<and> 13 \<notin> set l"

lemma split_on_line: "c \<notin> set l \<Longrightarrow> split_on c (l @ c # rest) = l # split_on c rest"
  by (induction l) auto

lemma lines_println:
  assumes "list_all plain_line ls"
  shows "lines (concat (map println ls)) = ls"
proof -
  have "split_on 10 (concat (map println ls)) = ls @ [[]]"
    using assms by (induction ls) (simp_all add: println_def plain_line_def split_on_line)
  moreover have "map (\<lambda>l. if l \<noteq> [] \<and> last l = 13 then butlast l else l) ls = ls"
    using assms by (induction ls) (auto simp: plain_line_def dest: last_in_set)
  ultimately show ?thesis by (simp add: lines_def)
qed

lemma version_tagged:
  assumes "env ''GITHUB_REF'' = Some (as_bytes ''refs/tags/'' @ tag)" "utf8_valid (as_bytes ''refs/tags/'' @ tag)" "tag \<noteq> []"
  shows "honk_version env pkg = tag"
  using assms by (simp add: honk_version_def env_var_def strip_bytes_def)

lemma version_untagged:
  assumes "\<forall>v. env ''GITHUB_REF'' = Some v \<longrightarrow> take (length ''refs/tags/'') v \<noteq> as_bytes ''refs/tags/''"
  shows "honk_version env pkg = pkg"
  using assms by (auto simp: honk_version_def env_var_def strip_bytes_def split: option.split bind_splits)

text \<open>
  The script forwards the path of the object and a version that is not empty as exactly four lines, for values without line
  breaks; without a readable path it prints nothing and fails the build.
\<close>

lemma honk_build_forwards:
  assumes "env_var env ''HONK_EBPF_OBJECT'' = Some object" "plain_line object" "plain_line (honk_version env pkg)" "pkg \<noteq> []"
  shows "\<exists>out. honk_build_main env pkg = Some out \<and> honk_version env pkg \<noteq> []
    \<and> lines out = [as_bytes ''cargo:rerun-if-env-changed=HONK_EBPF_OBJECT'',
        as_bytes ''cargo:rustc-env=HONK_EBPF_OBJECT='' @ object,
        as_bytes ''cargo:rerun-if-env-changed=GITHUB_REF'',
        as_bytes ''cargo:rustc-env=HONK_VERSION='' @ honk_version env pkg]"
proof -
  let ?ls = "[as_bytes ''cargo:rerun-if-env-changed=HONK_EBPF_OBJECT'', as_bytes ''cargo:rustc-env=HONK_EBPF_OBJECT='' @ object,
      as_bytes ''cargo:rerun-if-env-changed=GITHUB_REF'', as_bytes ''cargo:rustc-env=HONK_VERSION='' @ honk_version env pkg]"
  have out: "honk_build_main env pkg = Some (concat (map println ?ls))" using assms(1) by (simp add: honk_build_main_def)
  have "list_all plain_line ?ls" using assms(2,3) by (simp add: plain_line_def as_bytes_def)
  from lines_println [OF this] have "lines (concat (map println ?ls)) = ?ls" .
  moreover have "honk_version env pkg \<noteq> []" using assms(4) by (simp add: honk_version_def split: option.split)
  ultimately show ?thesis using out by blast
qed

lemma honk_build_fails: "honk_build_main env pkg = None \<longleftrightarrow> env_var env ''HONK_EBPF_OBJECT'' = None"
  by (simp add: honk_build_main_def split: option.split)

end
