(* ===== verification/Mdns_Zone.thy ===== *)
theory Mdns_Zone
  imports Prelude "HOL-Library.Multiset" "HOL-Library.List_Lexorder" "HOL-Library.Sublist"
begin

text \<open>
  The records of the mDNS responder (\<^verbatim>\<open>src/pkgs/mdns-publisher/main.go\<close>): the zone with the addresses of the host, which records
  answer a question, known-answer suppression, the tiebreak between two probing hosts and the records made from the addresses of
  an interface. A Go slice is a list, a nil slice the empty list, a \<open>net.IP\<close> its bytes. \<open>dns.Copy\<close> is the identity on values. Names are
  the presentation form that \<open>dns.Msg.Unpack\<close> yields, in which octets outside ASCII are escaped, so that
  \<open>strings.EqualFold\<close> is the comparison without ASCII case.
\<close>

section \<open>Records\<close>

datatype rr_body = A_body bytes | AAAA_body bytes | NSEC_body bytes "u16 list" | Other_body bytes

record rr_header =
  rh_name :: bytes
  rh_rrtype :: u16
  rh_class :: u16
  rh_ttl :: u32

record dns_rr =
  rr_hdr :: rr_header
  rr_body :: rr_body

record dns_question =
  dq_name :: bytes
  dq_qtype :: u16
  dq_qclass :: u16

record hostnameZone =
  hz_records :: "dns_rr list"
  hz_nsec :: "dns_rr option"

definition mdnsPort :: u16 where "mdnsPort = 5353"
definition cacheFlushBit :: u16 where "cacheFlushBit = 0x8000"
definition quBit :: u16 where "quBit = 0x8000"
definition legacyUnicastMaxTTL :: u32 where "legacyUnicastMaxTTL = 10"
definition maxLabelLen :: usize where "maxLabelLen = 63"

definition TypeA :: u16 where "TypeA = 1"
definition TypeAAAA :: u16 where "TypeAAAA = 28"
definition TypeNSEC :: u16 where "TypeNSEC = 47"
definition TypeANY :: u16 where "TypeANY = 255"
definition ClassINET :: u16 where "ClassINET = 1"
definition ClassANY :: u16 where "ClassANY = 255"

lemmas dns_consts = TypeA_def TypeAAAA_def TypeNSEC_def TypeANY_def ClassINET_def ClassANY_def cacheFlushBit_def quBit_def

definition fold_case :: "u8 \<Rightarrow> u8" where
  "fold_case b = (if 65 \<le> b \<and> b \<le> 90 then b + 32 else b)"

definition EqualFold :: "bytes \<Rightarrow> bytes \<Rightarrow> bool" where
  "EqualFold s t \<longleftrightarrow> map fold_case s = map fold_case t"

text \<open>The Go operator \<open>&^\<close> on a class.\<close>

definition and_not :: "u16 \<Rightarrow> u16 \<Rightarrow> u16" where
  "and_not c m = c AND NOT m"

section \<open>Addresses\<close>

definition v4InV6Prefix :: bytes where
  "v4InV6Prefix = replicate 10 0 @ [0xff, 0xff]"

definition To4 :: "bytes \<Rightarrow> bytes option" where
  "To4 ip = (if length ip = 4 then Some ip
     else if length ip = 16 \<and> take 12 ip = v4InV6Prefix then Some (drop 12 ip) else None)"

definition To16 :: "bytes \<Rightarrow> bytes option" where
  "To16 ip = (if length ip = 4 then Some (v4InV6Prefix @ ip) else if length ip = 16 then Some ip else None)"

definition ip_equal :: "bytes \<Rightarrow> bytes \<Rightarrow> bool" where
  "ip_equal ip x =
    (if length ip = length x then ip = x
     else if length ip = 4 \<and> length x = 16 then take 12 x = v4InV6Prefix \<and> ip = drop 12 x
     else if length ip = 16 \<and> length x = 4 then take 12 ip = v4InV6Prefix \<and> drop 12 ip = x
     else False)"

definition IsLoopback :: "bytes \<Rightarrow> bool" where
  "IsLoopback ip = (case To4 ip of Some ip4 \<Rightarrow> ip4 ! 0 = 127 | None \<Rightarrow> ip_equal ip (replicate 15 0 @ [1]))"

definition IsLinkLocalUnicast :: "bytes \<Rightarrow> bool" where
  "IsLinkLocalUnicast ip = (case To4 ip of
     Some ip4 \<Rightarrow> ip4 ! 0 = 169 \<and> ip4 ! 1 = 254
   | None \<Rightarrow> length ip = 16 \<and> ip ! 0 = 0xfe \<and> ip ! 1 AND 0xc0 = 0x80)"

section \<open>Comparing records\<close>

definition nsecTypesEqual :: "u16 list \<Rightarrow> u16 list \<Rightarrow> bool" where
  "nsecTypesEqual a b \<longleftrightarrow> length a = length b \<and> list_all (\<lambda>t. t \<in> set a) b"

definition rrdataEqual :: "dns_rr \<Rightarrow> dns_rr \<Rightarrow> bool" where
  "rrdataEqual a b = (case rr_body a of
     A_body x \<Rightarrow> (case rr_body b of A_body y \<Rightarrow> ip_equal x y | _ \<Rightarrow> False)
   | AAAA_body x \<Rightarrow> (case rr_body b of AAAA_body y \<Rightarrow> ip_equal x y | _ \<Rightarrow> False)
   | NSEC_body n ts \<Rightarrow> (case rr_body b of NSEC_body m us \<Rightarrow> EqualFold n m \<and> nsecTypesEqual ts us | _ \<Rightarrow> False)
   | Other_body _ \<Rightarrow> False)"

definition or_nil :: "bytes option \<Rightarrow> bytes" where
  "or_nil x = (case x of None \<Rightarrow> [] | Some b \<Rightarrow> b)"

definition rrdataBytes :: "dns_rr \<Rightarrow> bytes" where
  "rrdataBytes r = (case rr_body r of
     A_body ip \<Rightarrow> or_nil (To4 ip) | AAAA_body ip \<Rightarrow> or_nil (To16 ip) | NSEC_body _ _ \<Rightarrow> [] | Other_body _ \<Rightarrow> [])"

text \<open>\<open>bytes.Compare(a, b) < 0\<close>.\<close>

fun bytes_less :: "bytes \<Rightarrow> bytes \<Rightarrow> bool" where
  "bytes_less [] [] = False"
| "bytes_less [] (_ # _) = True"
| "bytes_less (_ # _) [] = False"
| "bytes_less (x # xs) (y # ys) = (if x = y then bytes_less xs ys else x < y)"

definition rrLess :: "dns_rr \<Rightarrow> dns_rr \<Rightarrow> bool" where
  "rrLess a b =
    (let aClass = and_not (rh_class (rr_hdr a)) cacheFlushBit;
         bClass = and_not (rh_class (rr_hdr b)) cacheFlushBit
     in if aClass \<noteq> bClass then aClass < bClass
        else if rh_rrtype (rr_hdr a) \<noteq> rh_rrtype (rr_hdr b) then rh_rrtype (rr_hdr a) < rh_rrtype (rr_hdr b)
        else bytes_less (rrdataBytes a) (rrdataBytes b))"

section \<open>The zone\<close>

text \<open>A copy of a record as it goes into an answer.\<close>

definition answer_copy :: "bool \<Rightarrow> dns_rr \<Rightarrow> dns_rr" where
  "answer_copy legacy r = (if legacy then r\<lparr>rr_hdr := (rr_hdr r)\<lparr>rh_class := ClassINET\<rparr>\<rparr> else r)"

definition Records :: "hostnameZone \<Rightarrow> dns_question \<Rightarrow> bool \<Rightarrow> dns_rr list" where
  "Records z q legacy =
    (let qclass = and_not (dq_qclass q) quBit in
     if qclass \<noteq> ClassINET \<and> qclass \<noteq> ClassANY then []
     else
       let out = map (answer_copy legacy)
             (filter (\<lambda>r. EqualFold (rh_name (rr_hdr r)) (dq_name q)
                \<and> (dq_qtype q = TypeANY \<or> rh_rrtype (rr_hdr r) = dq_qtype q)) (hz_records z))
       in case hz_nsec z of
            None \<Rightarrow> out
          | Some nsec \<Rightarrow>
              if out = [] \<and> dq_qtype q \<noteq> TypeANY \<and> EqualFold (rh_name (rr_hdr nsec)) (dq_name q)
                 \<and> and_not (dq_qclass q) quBit = ClassINET
              then [answer_copy legacy nsec] else out)"

definition sameRecords :: "dns_rr list \<Rightarrow> dns_rr list \<Rightarrow> bool" where
  "sameRecords a b \<longleftrightarrow> length a = length b
     \<and> list_all (\<lambda>ar. list_ex (\<lambda>br. rh_rrtype (rr_hdr ar) = rh_rrtype (rr_hdr br) \<and> rrdataEqual ar br) b) a"

definition replaceRecords :: "hostnameZone \<Rightarrow> dns_rr list \<Rightarrow> dns_rr option \<Rightarrow> hostnameZone \<times> dns_rr list \<times> bool" where
  "replaceRecords z records nsec =
    (if sameRecords (hz_records z) records then (z, [], False)
     else (z\<lparr>hz_records := records, hz_nsec := nsec\<rparr>, hz_records z, True))"

definition isKnownAnswer :: "dns_rr \<Rightarrow> dns_rr list \<Rightarrow> bool" where
  "isKnownAnswer r known = list_ex (\<lambda>k.
     EqualFold (rh_name (rr_hdr k)) (rh_name (rr_hdr r))
     \<and> rh_rrtype (rr_hdr k) = rh_rrtype (rr_hdr r)
     \<and> and_not (rh_class (rr_hdr k)) cacheFlushBit = and_not (rh_class (rr_hdr r)) cacheFlushBit
     \<and> rrdataEqual k r
     \<and> rh_ttl (rr_hdr k) \<ge> rh_ttl (rr_hdr r) div 2) known"

definition filterKnownAnswers :: "dns_rr list \<Rightarrow> dns_rr list \<Rightarrow> dns_rr list" where
  "filterKnownAnswers records known =
    (if known = [] \<or> records = [] then records else filter (\<lambda>r. \<not> isKnownAnswer r known) records)"

definition buildNSEC :: "bytes \<Rightarrow> dns_rr list \<Rightarrow> u32 \<Rightarrow> dns_rr option" where
  "buildNSEC name records ttl =
    (if records = [] then None
     else Some \<lparr>rr_hdr = \<lparr>rh_name = name, rh_rrtype = TypeNSEC, rh_class = ClassINET OR cacheFlushBit, rh_ttl = ttl\<rparr>,
       rr_body = NSEC_body name (sort (remdups (map (rh_rrtype \<circ> rr_hdr) records)))\<rparr>)"

definition isValidLabel :: "bytes \<Rightarrow> bool" where
  "isValidLabel s \<longleftrightarrow> s \<noteq> [] \<and> length s \<le> maxLabelLen
     \<and> list_all (\<lambda>r. (97 \<le> r \<and> r \<le> 122) \<or> (65 \<le> r \<and> r \<le> 90) \<or> (48 \<le> r \<and> r \<le> 57) \<or> r = 45) s"

section \<open>Records of an interface\<close>

definition address_record :: "bytes \<Rightarrow> u32 \<Rightarrow> bytes \<Rightarrow> dns_rr" where
  "address_record name ttl ip = (case To4 ip of
     Some v4 \<Rightarrow> \<lparr>rr_hdr = \<lparr>rh_name = name, rh_rrtype = TypeA, rh_class = ClassINET OR cacheFlushBit, rh_ttl = ttl\<rparr>, rr_body = A_body v4\<rparr>
   | None \<Rightarrow> \<lparr>rr_hdr = \<lparr>rh_name = name, rh_rrtype = TypeAAAA, rh_class = ClassINET OR cacheFlushBit, rh_ttl = ttl\<rparr>, rr_body = AAAA_body ip\<rparr>)"

definition recordsForIPs :: "bytes \<Rightarrow> bytes list \<Rightarrow> u32 \<Rightarrow> dns_rr list" where
  "recordsForIPs name ips ttl =
    map (address_record name ttl) (filter (\<lambda>ip. \<not> (ip = [] \<or> IsLinkLocalUnicast ip \<or> IsLoopback ip)) ips)"

text \<open>The result of \<open>netlink.AddrList\<close>: for each entry the address, \<^term>\<open>None\<close> when the entry or its address is nil.\<close>

definition getInterfaceIPs :: "bytes option list option \<Rightarrow> bytes list option" where
  "getInterfaceIPs addrs = map_option (\<lambda>as. map the (filter (\<lambda>a. a \<noteq> None) as)) addrs"

section \<open>The tiebreak\<close>

text \<open>
  \<open>sort.Slice\<close> with \<open>rrLess\<close>, as an insertion sort; \<open>winner_any_sort\<close> below shows that the decision does not depend on the order in
  which an implementation leaves records that compare equal.
\<close>

fun rr_insert :: "dns_rr \<Rightarrow> dns_rr list \<Rightarrow> dns_rr list" where
  "rr_insert x [] = [x]"
| "rr_insert x (y # ys) = (if rrLess y x then y # rr_insert x ys else x # y # ys)"

definition rr_sort :: "dns_rr list \<Rightarrow> dns_rr list" where
  "rr_sort rs = foldr rr_insert rs []"

fun compare_records :: "dns_rr list \<Rightarrow> dns_rr list \<Rightarrow> bool" where
  "compare_records (o1 # os) (t # ts) =
    (if rrLess o1 t then False else if rrLess t o1 then True else compare_records os ts)"
| "compare_records [] ts = (length ts > 0)"
| "compare_records os [] = False"

definition theyWinTiebreak :: "hostnameZone \<Rightarrow> dns_rr list \<Rightarrow> bool" where
  "theyWinTiebreak z their = compare_records (rr_sort (hz_records z)) (rr_sort their)"

section \<open>The tiebreak is a comparison of sorted keys\<close>

text \<open>What \<open>rrLess\<close> compares, as one list of numbers in lexicographic order.\<close>

definition rr_key :: "dns_rr \<Rightarrow> nat list" where
  "rr_key r = unat (and_not (rh_class (rr_hdr r)) cacheFlushBit) # unat (rh_rrtype (rr_hdr r)) # map unat (rrdataBytes r)"

lemma bytes_less_lex: "bytes_less a b \<longleftrightarrow> map unat a < map unat b"
  by (induction a b rule: bytes_less.induct) (auto simp: word_less_nat_alt word_unat_eq_iff)

lemma rrLess_key: "rrLess a b \<longleftrightarrow> rr_key a < rr_key b"
  by (auto simp: rrLess_def rr_key_def Let_def bytes_less_lex word_less_nat_alt word_unat_eq_iff)

lemma rr_insert_key: "rr_insert x ys = insort_key rr_key x ys"
  by (induction ys) (auto simp: rrLess_key)

lemma rr_sort_key: "rr_sort rs = sort_key rr_key rs"
  by (simp add: rr_sort_def sort_key_def rr_insert_key [abs_def])

text \<open>
  Which of two sorted lists wins: at the first difference the smaller key, and a list beats its proper prefixes. This is not
  the lexicographic order, and it is total.
\<close>

fun beats :: "nat list list \<Rightarrow> nat list list \<Rightarrow> bool" where
  "beats [] ys = False"
| "beats (x # xs) [] = True"
| "beats (x # xs) (y # ys) = (if x = y then beats xs ys else x < y)"

lemma beats_asym: "beats a b \<Longrightarrow> \<not> beats b a"
  by (induction a b rule: beats.induct) (auto split: if_splits)

lemma beats_total: "\<not> beats a b \<Longrightarrow> \<not> beats b a \<Longrightarrow> a = b"
proof (induction a b rule: beats.induct)
  case (1 ys)
  then show ?case by (cases ys) simp_all
qed (auto split: if_splits)

lemma beats_irrefl [simp]: "\<not> beats a a"
  using beats_asym by blast

lemma compare_records_beats: "compare_records os ts \<longleftrightarrow> beats (map rr_key ts) (map rr_key os)"
proof (induction os ts rule: compare_records.induct)
  case (1 o1 os t ts)
  then show ?case by (cases "rr_key o1" "rr_key t" rule: linorder_cases) (auto simp: rrLess_key)
next
  case (2 ts)
  then show ?case by (cases ts) simp_all
qed simp

definition sorted_keys :: "dns_rr list \<Rightarrow> nat list list" where
  "sorted_keys rs = sort (map rr_key rs)"

lemma sorted_rrLess: "sorted_wrt (\<lambda>a b. \<not> rrLess b a) rs \<longleftrightarrow> sorted (map rr_key rs)"
  by (simp add: rrLess_key sorted_map not_less)

lemma theyWin_beats: "theyWinTiebreak z their \<longleftrightarrow> beats (sorted_keys their) (sorted_keys (hz_records z))"
proof -
  have "map rr_key (sort_key rr_key rs) = sort (map rr_key rs)" for rs
    by (rule properties_for_sort [symmetric]) (simp_all add: mset_map)
  then show ?thesis by (simp add: theyWinTiebreak_def compare_records_beats rr_sort_key sorted_keys_def)
qed

text \<open>Any way to sort the two lists gives the same decision.\<close>

lemma winner_any_sort:
  assumes "mset os = mset (hz_records z)" "mset ts = mset their"
    and "sorted_wrt (\<lambda>a b. \<not> rrLess b a) os" "sorted_wrt (\<lambda>a b. \<not> rrLess b a) ts"
  shows "compare_records os ts \<longleftrightarrow> theyWinTiebreak z their"
proof -
  have "map rr_key os = sorted_keys (hz_records z)" "map rr_key ts = sorted_keys their"
    using assms unfolding sorted_keys_def sorted_rrLess
    by (metis mset_map properties_for_sort)+
  then show ?thesis by (simp add: theyWin_beats compare_records_beats)
qed

lemma sorted_keys_eq: "sorted_keys a = sorted_keys b \<longleftrightarrow> mset (map rr_key a) = mset (map rr_key b)"
proof
  assume "sorted_keys a = sorted_keys b"
  then have "mset (sorted_keys a) = mset (sorted_keys b)" by simp
  then show "mset (map rr_key a) = mset (map rr_key b)" by (simp add: sorted_keys_def)
next
  assume "mset (map rr_key a) = mset (map rr_key b)"
  then show "sorted_keys a = sorted_keys b"
    unfolding sorted_keys_def by (intro properties_for_sort) simp_all
qed

lemma tiebreak_one_winner:
  "\<not> (theyWinTiebreak a (hz_records b) \<and> theyWinTiebreak b (hz_records a))"
  "\<not> theyWinTiebreak a (hz_records b) \<and> \<not> theyWinTiebreak b (hz_records a)
    \<longleftrightarrow> mset (map rr_key (hz_records a)) = mset (map rr_key (hz_records b))"
  unfolding theyWin_beats sorted_keys_eq [symmetric] using beats_asym beats_total by auto

text \<open>
  The tiebreak of RFC 6762, section 8.2: the lexicographically later data wins, and a list with records remaining wins. This
  is the lexicographic order of the sorted keys.
\<close>

definition rfc_they_win :: "dns_rr list \<Rightarrow> dns_rr list \<Rightarrow> bool" where
  "rfc_they_win our their \<longleftrightarrow> sorted_keys our < sorted_keys their"

lemma beats_less: "\<not> prefix a b \<Longrightarrow> \<not> prefix b a \<Longrightarrow> beats a b \<longleftrightarrow> a < b"
  by (induction a b rule: beats.induct) auto

lemma tiebreak_inverted:
  assumes "\<not> prefix (sorted_keys (hz_records z)) (sorted_keys their)" "\<not> prefix (sorted_keys their) (sorted_keys (hz_records z))"
  shows "theyWinTiebreak z their \<longleftrightarrow> \<not> rfc_they_win (hz_records z) their"
proof -
  have "sorted_keys their \<noteq> sorted_keys (hz_records z)" using assms by auto
  then show ?thesis using assms by (auto simp: theyWin_beats beats_less rfc_they_win_def)
qed

section \<open>The records a zone holds\<close>

lemma ip_equal_refl [simp]: "ip_equal x x"
  by (simp add: ip_equal_def)

lemma known_less_ttl: "isKnownAnswer r known \<Longrightarrow> \<exists>k \<in> set known. rrdataEqual k r \<and> rh_ttl (rr_hdr r) div 2 \<le> rh_ttl (rr_hdr k)"
  by (auto simp: isKnownAnswer_def list_ex_iff)

lemma filterKnown_iff: "r \<in> set (filterKnownAnswers records known) \<longleftrightarrow> r \<in> set records \<and> \<not> isKnownAnswer r known"
  by (auto simp: filterKnownAnswers_def isKnownAnswer_def)

lemma recordsForIPs_header:
  "r \<in> set (recordsForIPs name ips ttl) \<Longrightarrow> rh_name (rr_hdr r) = name \<and> rh_ttl (rr_hdr r) = ttl
    \<and> rh_class (rr_hdr r) = ClassINET OR cacheFlushBit \<and> rh_rrtype (rr_hdr r) \<in> {TypeA, TypeAAAA}"
  by (auto simp: recordsForIPs_def address_record_def split: option.splits)

text \<open>Link-local and loopback addresses are never advertised, and every other address is.\<close>

lemma recordsForIPs_complete:
  assumes "ip \<in> set ips" "ip \<noteq> []"
  shows "address_record name ttl ip \<in> set (recordsForIPs name ips ttl) \<or> IsLinkLocalUnicast ip \<or> IsLoopback ip"
  using assms by (auto simp: recordsForIPs_def)

text \<open>
  A negative answer is truthful: the NSEC record is returned only for a name the zone owns, its types are exactly those of the
  zone's records, and the type asked for is not among them.
\<close>

lemma negative_answer_truthful:
  assumes "hz_nsec z = buildNSEC name (hz_records z) ttl" "\<forall>r \<in> set (hz_records z). rh_name (rr_hdr r) = name"
    and "r \<in> set (Records z q legacy)" "rr_body r = NSEC_body nm types"
    and "\<forall>r \<in> set (hz_records z). \<forall>nm ts. rr_body r \<noteq> NSEC_body nm ts"
  shows "EqualFold name (dq_name q) \<and> set types = (rh_rrtype \<circ> rr_hdr) ` set (hz_records z) \<and> dq_qtype q \<notin> set types"
proof -
  have body: "rr_body (answer_copy legacy r0) = rr_body r0" for r0 by (simp add: answer_copy_def)
  from assms(3,4,5) obtain nsec where nsec: "hz_nsec z = Some nsec" "r = answer_copy legacy nsec" "EqualFold (rh_name (rr_hdr nsec)) (dq_name q)"
      "dq_qtype q \<noteq> TypeANY"
      "\<forall>r0 \<in> set (hz_records z). EqualFold (rh_name (rr_hdr r0)) (dq_name q) \<longrightarrow> rh_rrtype (rr_hdr r0) \<noteq> dq_qtype q"
    by (auto simp: Records_def Let_def body filter_empty_conv split: option.splits if_splits)
  with assms(1) have "rh_name (rr_hdr nsec) = name" "rr_body nsec = NSEC_body name (sort (remdups (map (rh_rrtype \<circ> rr_hdr) (hz_records z))))"
    by (auto simp: buildNSEC_def split: if_splits)
  with nsec assms(2,4) have eq: "nm = name" "types = sort (remdups (map (rh_rrtype \<circ> rr_hdr) (hz_records z)))"
      "EqualFold name (dq_name q)" and none: "\<forall>r0 \<in> set (hz_records z). rh_rrtype (rr_hdr r0) \<noteq> dq_qtype q"
    by (auto simp: body)
  from none have "dq_qtype q \<notin> (rh_rrtype \<circ> rr_hdr) ` set (hz_records z)" unfolding image_iff comp_apply by metis
  with eq show ?thesis by simp
qed

text \<open>\<open>sameRecords\<close> looks for each old record among the new ones; a repeated address hides a new one.\<close>

lemma sameRecords_misses_new:
  "let r = address_record name ttl; x = [192, 0, 2, 1]; y = [192, 0, 2, 2]
   in sameRecords [r x, r x] [r x, r y] \<and> \<not> sameRecords [r x, r y] [r x, r x]"
  by (simp add: sameRecords_def address_record_def rrdataEqual_def To4_def ip_equal_def Let_def)

end
