(* ===== verification/Mdns.thy ===== *)
theory Mdns
  imports Mdns_Zone
begin

text \<open>
  The mDNS responder of \<^verbatim>\<open>src/pkgs/mdns-publisher/main.go\<close>: its messages, the handling of a packet, and the life of the process as
  an interleaving of its goroutines (the main one, the watcher of the interface addresses and one receiver per socket) in single
  atomic accesses to what they share. \<open>dns.Msg.Unpack\<close>, \<open>dns.Msg.SetQuestion\<close> and \<open>dns.Fqdn\<close> belong to another module and are parameters;
  log output and the time slept are left out. What is sent is the list of messages handed to \<open>sendMsg\<close> and \<open>sendRespTo\<close>.
\<close>

section \<open>Messages\<close>

record dns_msg =
  dm_id :: u16
  dm_response :: bool
  dm_opcode :: int
  dm_authoritative :: bool
  dm_truncated :: bool
  dm_rcode :: int
  dm_question :: "dns_question list"
  dm_answer :: "dns_rr list"
  dm_ns :: "dns_rr list"
  dm_extra :: "dns_rr list"

type_synonym udp_addr = "bytes \<times> u16"
type_synonym unpacker = "bytes \<Rightarrow> dns_msg option"
type_synonym set_question = "bytes \<Rightarrow> u16 \<Rightarrow> dns_msg"

datatype action = SendMsg dns_msg | SendRespTo dns_msg udp_addr

definition new_msg :: dns_msg where
  "new_msg = \<lparr>dm_id = 0, dm_response = False, dm_opcode = 0, dm_authoritative = False, dm_truncated = False, dm_rcode = 0,
     dm_question = [], dm_answer = [], dm_ns = [], dm_extra = []\<rparr>"

definition probeCount :: nat where "probeCount = 3"
definition announceCount :: nat where "announceCount = 2"
definition goodbyeCount :: nat where "goodbyeCount = 2"
definition probeTiebreakTTL :: u32 where "probeTiebreakTTL = 255"

definition with_ttl :: "u32 \<Rightarrow> dns_rr \<Rightarrow> dns_rr" where
  "with_ttl ttl r = r\<lparr>rr_hdr := (rr_hdr r)\<lparr>rh_ttl := ttl\<rparr>\<rparr>"

definition probe_msg :: "set_question \<Rightarrow> bytes \<Rightarrow> dns_rr list \<Rightarrow> dns_msg" where
  "probe_msg sq name ourRecords =
    (let msg = sq name TypeANY;
         msg = msg\<lparr>dm_question := (dm_question msg)[0 := (dm_question msg ! 0)\<lparr>dq_qclass := ClassINET OR quBit\<rparr>]\<rparr>
     in msg\<lparr>dm_id := 0, dm_authoritative := True, dm_ns := dm_ns msg @ map (with_ttl probeTiebreakTTL) ourRecords\<rparr>)"

definition announce_msg :: "dns_rr list \<Rightarrow> dns_msg" where
  "announce_msg records = new_msg\<lparr>dm_response := True, dm_authoritative := True, dm_answer := records\<rparr>"

definition goodbye_msg :: "dns_rr list \<Rightarrow> dns_msg" where
  "goodbye_msg records = new_msg\<lparr>dm_response := True, dm_authoritative := True, dm_answer := map (with_ttl 0) records\<rparr>"

text \<open>What goes to the network: \<open>dns.Msg.Pack\<close> is a parameter, the booleans say which sockets there are.\<close>

datatype dest = Group4 | Group6 | Peer udp_addr

definition sendMsg :: "(dns_msg \<Rightarrow> bytes option) \<Rightarrow> bool \<Rightarrow> bool \<Rightarrow> dns_msg \<Rightarrow> (dest \<times> bytes) list" where
  "sendMsg pack v4 v6 msg = (case pack msg of
     None \<Rightarrow> []
   | Some buf \<Rightarrow> (if v4 then [(Group4, buf)] else []) @ (if v6 then [(Group6, buf)] else []))"

definition sendRespTo :: "(dns_msg \<Rightarrow> bytes option) \<Rightarrow> dns_msg \<Rightarrow> udp_addr \<Rightarrow> (dest \<times> bytes) list" where
  "sendRespTo pack resp to = (case pack resp of None \<Rightarrow> [] | Some buf \<Rightarrow> [(Peer to, buf)])"

section \<open>Answering a query\<close>

definition cap_ttl :: "bool \<Rightarrow> dns_rr \<Rightarrow> dns_rr" where
  "cap_ttl legacy r = (if legacy \<and> rh_ttl (rr_hdr r) > legacyUnicastMaxTTL then with_ttl legacyUnicastMaxTTL r else r)"

text \<open>One round of the loop of \<open>answerQuery\<close> over the questions: the unicast and the multicast answer so far.\<close>

definition answer_question ::
  "hostnameZone \<Rightarrow> bool \<Rightarrow> dns_rr list \<Rightarrow> dns_question \<Rightarrow> dns_rr list \<times> dns_rr list \<Rightarrow> dns_rr list \<times> dns_rr list" where
  "answer_question z legacy known q = (\<lambda>(unicast, multicast).
     let records = Records z q legacy in
     if records = [] then (unicast, multicast)
     else
       let records = filterKnownAnswers records known in
       if records = [] then (unicast, multicast)
       else
         let records = map (cap_ttl legacy) records in
         if legacy \<or> dq_qclass q AND quBit \<noteq> 0 then (unicast @ records, multicast)
         else (unicast, multicast @ records))"

definition answer_msgs :: "dns_msg \<Rightarrow> udp_addr \<Rightarrow> dns_rr list \<times> dns_rr list \<Rightarrow> action list" where
  "answer_msgs msg from = (\<lambda>(unicast, multicast).
     (if multicast \<noteq> []
      then [SendMsg (new_msg\<lparr>dm_response := True, dm_authoritative := True, dm_answer := multicast\<rparr>)] else [])
     @ (if unicast \<noteq> [] then
          let resp = new_msg\<lparr>dm_response := True, dm_authoritative := True, dm_answer := unicast\<rparr>;
              resp = (if snd from \<noteq> mdnsPort then resp\<lparr>dm_id := dm_id msg, dm_question := dm_question msg\<rparr> else resp)
          in [SendRespTo resp from]
        else []))"

definition answerQuery :: "hostnameZone \<Rightarrow> dns_msg \<Rightarrow> udp_addr \<Rightarrow> action list" where
  "answerQuery z msg from =
    answer_msgs msg from (fold (answer_question z (snd from \<noteq> mdnsPort) (dm_answer msg)) (dm_question msg) ([], []))"

section \<open>The server\<close>

datatype serverState = StatePending | StateProbing | StateRunning

record mdnsServer =
  sv_zone :: hostnameZone
  sv_state :: serverState
  sv_probeName :: bytes
  sv_conflict :: bool
  sv_shutdown :: bool
  sv_closed :: bool

definition checkConflict :: "dns_msg \<Rightarrow> mdnsServer \<Rightarrow> mdnsServer" where
  "checkConflict msg s =
    (let hit = list_ex (\<lambda>rr. EqualFold (rh_name (rr_hdr rr)) (sv_probeName s)) in
     if hit (dm_answer msg) \<or> hit (dm_ns msg) \<or> hit (dm_extra msg) then s\<lparr>sv_conflict := True\<rparr> else s)"

definition handleProbeTiebreak :: "dns_msg \<Rightarrow> mdnsServer \<Rightarrow> mdnsServer" where
  "handleProbeTiebreak msg s =
    (if \<not> list_ex (\<lambda>q. EqualFold (dq_name q) (sv_probeName s)) (dm_question msg) then s
     else
       let their = filter (\<lambda>rr. EqualFold (rh_name (rr_hdr rr)) (sv_probeName s)) (dm_ns msg) in
       if their = [] then s
       else if theyWinTiebreak (sv_zone s) their then s\<lparr>sv_conflict := True\<rparr> else s)"

text \<open>
  \<open>handlePacket\<close> after the load of the state: the server after it and, when the packet is a query to be answered, the query.
\<close>

definition dispatch :: "unpacker \<Rightarrow> serverState \<Rightarrow> bytes \<Rightarrow> mdnsServer \<Rightarrow> mdnsServer \<times> dns_msg option" where
  "dispatch unpack state data s =
    (if state = StatePending then (s, None)
     else case unpack data of
       None \<Rightarrow> (s, None)
     | Some msg \<Rightarrow>
         if dm_opcode msg \<noteq> 0 \<or> dm_rcode msg \<noteq> 0 \<or> dm_truncated msg then (s, None)
         else if state = StateProbing then
           (if dm_response msg then checkConflict msg s else handleProbeTiebreak msg s, None)
         else (s, if dm_response msg then None else Some msg))"

definition handlePacket :: "unpacker \<Rightarrow> bytes \<Rightarrow> udp_addr \<Rightarrow> mdnsServer \<Rightarrow> mdnsServer \<times> action list" where
  "handlePacket unpack data from s =
    (case dispatch unpack (sv_state s) data s of
       (s', None) \<Rightarrow> (s', [])
     | (s', Some msg) \<Rightarrow> (s', answerQuery (sv_zone s') msg from))"

section \<open>Start-up\<close>

record mdns_flags =
  mf_iface :: bytes
  mf_hostname :: bytes
  mf_ttl :: nat
  mf_skipProbe :: bool
  mf_skipAnnounce :: bool
  mf_skipGoodbye :: bool

datatype mdns_fatal = NoIface | BadTTL | HostnameError | BadHostname bytes | NoLink | NoAddrs | NoRecords | NoSockets

record mdns_config =
  mc_fqdn :: bytes
  mc_ttl :: u32
  mc_records :: "dns_rr list"
  mc_v4 :: bool
  mc_v6 :: bool
  mc_skipProbe :: bool
  mc_skipAnnounce :: bool
  mc_skipGoodbye :: bool

definition maxTTL :: nat where "maxTTL = 86400"

text \<open>Opening one socket: the results of listening, choosing the interface, setting the TTL and joining the group, in this order.\<close>

definition open_family :: "bool \<times> bool \<times> bool \<times> bool \<Rightarrow> bool" where
  "open_family = (\<lambda>(listen, iface, ttl, join). listen \<and> iface \<and> ttl \<and> join)"

definition createSockets ::
  "bool \<times> bool \<times> bool \<times> bool \<Rightarrow> bool \<times> bool \<times> bool \<times> bool \<Rightarrow> (bool \<times> bool) option" where
  "createSockets r4 r6 = (let v4 = open_family r4; v6 = open_family r6 in if \<not> v4 \<and> \<not> v6 then None else Some (v4, v6))"

definition configure ::
  "mdns_flags \<Rightarrow> bytes option \<Rightarrow> bool \<Rightarrow> bytes option list option \<Rightarrow> (bytes \<Rightarrow> bytes) \<Rightarrow> (bool \<times> bool) option
    \<Rightarrow> (mdns_config, mdns_fatal) result" where
  "configure fl os_hostname link_found addrs fqdn_of socks =
    (if mf_iface fl = [] then Inl NoIface
     else if mf_ttl fl = 0 \<or> mf_ttl fl > maxTTL then Inl BadTTL
     else bindE (if mf_hostname fl = [] then ok_or os_hostname HostnameError else Inr (mf_hostname fl)) (\<lambda>h.
       let hostname = takeWhile (\<lambda>b. b \<noteq> 46) h in
       if \<not> isValidLabel hostname then Inl (BadHostname hostname)
       else if \<not> link_found then Inl NoLink
       else bindE (ok_or (getInterfaceIPs addrs) NoAddrs) (\<lambda>ips.
         let fqdn = fqdn_of (hostname @ as_bytes ''.local'');
             records = recordsForIPs fqdn ips (of_nat (mf_ttl fl))
         in if records = [] then Inl NoRecords
            else bindE (ok_or socks NoSockets) (\<lambda>(v4, v6). Inr
              \<lparr>mc_fqdn = fqdn, mc_ttl = of_nat (mf_ttl fl), mc_records = records, mc_v4 = v4, mc_v6 = v6,
               mc_skipProbe = mf_skipProbe fl, mc_skipAnnounce = mf_skipAnnounce fl, mc_skipGoodbye = mf_skipGoodbye fl\<rparr>))))"

section \<open>The goroutines\<close>

datatype sock_family = Sock4 | Sock6

datatype main_pc =
    MStart | MProbe nat | MFatal | MClaim | MAnnounce nat | MSpawn | MServe | MStopWatch
  | MGoodbye "dns_rr list" nat | MShutdown | MClose | MJoin | MDone

datatype watch_pc =
    WOff | WSubscribe | WWait | WGoodbye "dns_rr list" nat "dns_rr list" | WAnnounce "dns_rr list" nat | WDone

datatype recv_pc =
    RcCheck | RcRead | RcLoaded serverState bytes udp_addr
  | RcAnswer dns_msg udp_addr "dns_question list" "dns_rr list" "dns_rr list" | RcDone

record mdns_state =
  ms_server :: mdnsServer
  ms_main :: main_pc
  ms_watch :: watch_pc
  ms_recv :: "sock_family \<Rightarrow> recv_pc"
  ms_sent :: "action list"

definition newMDNSServer :: "mdns_config \<Rightarrow> mdns_state" where
  "newMDNSServer cfg =
    \<lparr>ms_server = \<lparr>sv_zone = \<lparr>hz_records = mc_records cfg, hz_nsec = buildNSEC (mc_fqdn cfg) (mc_records cfg) (mc_ttl cfg)\<rparr>,
       sv_state = StatePending, sv_probeName = mc_fqdn cfg, sv_conflict = False, sv_shutdown = False, sv_closed = False\<rparr>,
     ms_main = MStart, ms_watch = WOff,
     ms_recv = (\<lambda>f. if (case f of Sock4 \<Rightarrow> mc_v4 cfg | Sock6 \<Rightarrow> mc_v6 cfg) then RcCheck else RcDone), ms_sent = []\<rparr>"

abbreviation server_upd :: "(mdnsServer \<Rightarrow> mdnsServer) \<Rightarrow> mdns_state \<Rightarrow> mdns_state" where
  "server_upd g s \<equiv> s\<lparr>ms_server := g (ms_server s)\<rparr>"

abbreviation send :: "action list \<Rightarrow> mdns_state \<Rightarrow> mdns_state" where
  "send as s \<equiv> s\<lparr>ms_sent := ms_sent s @ as\<rparr>"

abbreviation recv_at :: "sock_family \<Rightarrow> recv_pc \<Rightarrow> mdns_state \<Rightarrow> mdns_state" where
  "recv_at f pc s \<equiv> s\<lparr>ms_recv := (ms_recv s)(f := pc)\<rparr>"

text \<open>\<open>runProbe\<close>, \<open>runAnnounce\<close>, \<open>runGoodbye\<close> and \<open>Shutdown\<close> as \<open>main\<close> calls them.\<close>

inductive main_step :: "set_question \<Rightarrow> mdns_config \<Rightarrow> mdns_state \<Rightarrow> mdns_state \<Rightarrow> bool" for sq cfg where
  m_begin: "ms_main s = MStart \<Longrightarrow> \<not> mc_skipProbe cfg \<Longrightarrow>
    main_step sq cfg s (server_upd (sv_state_update (\<lambda>_. StateProbing)) (s\<lparr>ms_main := MProbe 0\<rparr>))"
| m_probe: "ms_main s = MProbe k \<Longrightarrow> k < probeCount \<Longrightarrow>
    main_step sq cfg s (send [SendMsg (probe_msg sq (sv_probeName (ms_server s)) (mc_records cfg))] (s\<lparr>ms_main := MProbe (k + 1)\<rparr>))"
| m_lost: "ms_main s = MProbe probeCount \<Longrightarrow> sv_conflict (ms_server s) \<Longrightarrow> main_step sq cfg s (s\<lparr>ms_main := MFatal\<rparr>)"
| m_won: "ms_main s = MProbe probeCount \<Longrightarrow> \<not> sv_conflict (ms_server s) \<Longrightarrow> main_step sq cfg s (s\<lparr>ms_main := MClaim\<rparr>)"
| m_skip: "ms_main s = MStart \<Longrightarrow> mc_skipProbe cfg \<Longrightarrow> main_step sq cfg s (s\<lparr>ms_main := MClaim\<rparr>)"
| m_claim: "ms_main s = MClaim \<Longrightarrow>
    main_step sq cfg s (server_upd (sv_state_update (\<lambda>_. StateRunning))
      (s\<lparr>ms_main := if mc_skipAnnounce cfg then MSpawn else MAnnounce 0\<rparr>))"
| m_announce: "ms_main s = MAnnounce k \<Longrightarrow> k < announceCount \<Longrightarrow>
    main_step sq cfg s (send [SendMsg (announce_msg (mc_records cfg))] (s\<lparr>ms_main := MAnnounce (k + 1)\<rparr>))"
| m_announced: "ms_main s = MAnnounce announceCount \<Longrightarrow> main_step sq cfg s (s\<lparr>ms_main := MSpawn\<rparr>)"
| m_spawn: "ms_main s = MSpawn \<Longrightarrow> main_step sq cfg s (s\<lparr>ms_main := MServe, ms_watch := WSubscribe\<rparr>)"
| m_signal: "ms_main s = MServe \<Longrightarrow> main_step sq cfg s (s\<lparr>ms_main := MStopWatch\<rparr>)"
| m_stopped: "ms_main s = MStopWatch \<Longrightarrow> ms_watch s = WDone \<Longrightarrow>
    main_step sq cfg s (s\<lparr>ms_main := if mc_skipGoodbye cfg then MShutdown else MGoodbye (hz_records (sv_zone (ms_server s))) 0\<rparr>)"
| m_goodbye: "ms_main s = MGoodbye rs k \<Longrightarrow> k < goodbyeCount \<Longrightarrow>
    main_step sq cfg s (send [SendMsg (goodbye_msg rs)] (s\<lparr>ms_main := MGoodbye rs (k + 1)\<rparr>))"
| m_goodbyes: "ms_main s = MGoodbye rs goodbyeCount \<Longrightarrow> main_step sq cfg s (s\<lparr>ms_main := MShutdown\<rparr>)"
| m_shutdown: "ms_main s = MShutdown \<Longrightarrow>
    main_step sq cfg s (server_upd (sv_shutdown_update (\<lambda>_. True)) (s\<lparr>ms_main := MClose\<rparr>))"
| m_close: "ms_main s = MClose \<Longrightarrow>
    main_step sq cfg s (server_upd (sv_closed_update (\<lambda>_. True)) (s\<lparr>ms_main := MJoin\<rparr>))"
| m_join: "ms_main s = MJoin \<Longrightarrow> ms_recv s Sock4 = RcDone \<Longrightarrow> ms_recv s Sock6 = RcDone \<Longrightarrow>
    main_step sq cfg s (s\<lparr>ms_main := MDone\<rparr>)"

text \<open>
  \<open>watchInterfaceAddresses\<close>; an update for another link or a failed lookup changes nothing. It ends when \<open>main\<close> closes the channel
  \<open>done\<close>, when the channel of updates is closed, or at once when the subscription fails.
\<close>

definition after_goodbye :: "mdns_config \<Rightarrow> dns_rr list \<Rightarrow> watch_pc" where
  "after_goodbye cfg records = (if \<not> mc_skipAnnounce cfg \<and> records \<noteq> [] then WAnnounce records 0 else WWait)"

definition after_update :: "mdns_config \<Rightarrow> dns_rr list \<Rightarrow> dns_rr list \<times> bool \<Rightarrow> watch_pc" where
  "after_update cfg records = (\<lambda>(oldRecords, changed).
     if \<not> changed then WWait
     else if \<not> mc_skipGoodbye cfg \<and> oldRecords \<noteq> [] then WGoodbye oldRecords 0 records
     else after_goodbye cfg records)"

inductive watch_step :: "mdns_config \<Rightarrow> mdns_state \<Rightarrow> mdns_state \<Rightarrow> bool" for cfg where
  w_subscribe: "ms_watch s = WSubscribe \<Longrightarrow> watch_step cfg s (s\<lparr>ms_watch := if ok then WWait else WDone\<rparr>)"
| w_update: "ms_watch s = WWait \<Longrightarrow> getInterfaceIPs addrs = Some ips \<Longrightarrow> records = recordsForIPs (mc_fqdn cfg) ips (mc_ttl cfg) \<Longrightarrow>
    replaceRecords (sv_zone (ms_server s)) records (buildNSEC (mc_fqdn cfg) records (mc_ttl cfg)) = (z, change) \<Longrightarrow>
    watch_step cfg s (server_upd (sv_zone_update (\<lambda>_. z)) (s\<lparr>ms_watch := after_update cfg records change\<rparr>))"
| w_goodbye: "ms_watch s = WGoodbye old k records \<Longrightarrow> k < goodbyeCount \<Longrightarrow>
    watch_step cfg s (send [SendMsg (goodbye_msg old)] (s\<lparr>ms_watch := WGoodbye old (k + 1) records\<rparr>))"
| w_goodbyes: "ms_watch s = WGoodbye old goodbyeCount records \<Longrightarrow> watch_step cfg s (s\<lparr>ms_watch := after_goodbye cfg records\<rparr>)"
| w_announce: "ms_watch s = WAnnounce records k \<Longrightarrow> k < announceCount \<Longrightarrow>
    watch_step cfg s (send [SendMsg (announce_msg records)] (s\<lparr>ms_watch := WAnnounce records (k + 1)\<rparr>))"
| w_announced: "ms_watch s = WAnnounce records announceCount \<Longrightarrow> watch_step cfg s (s\<lparr>ms_watch := WWait\<rparr>)"
| w_done: "ms_watch s = WWait \<Longrightarrow> ms_main s = MStopWatch \<Longrightarrow> watch_step cfg s (s\<lparr>ms_watch := WDone\<rparr>)"
| w_closed: "ms_watch s = WWait \<Longrightarrow> watch_step cfg s (s\<lparr>ms_watch := WDone\<rparr>)"

text \<open>\<open>recv\<close> with \<open>handlePacket\<close>; the zone is read once per question.\<close>

inductive recv_step :: "unpacker \<Rightarrow> sock_family \<Rightarrow> mdns_state \<Rightarrow> mdns_state \<Rightarrow> bool" for unpack f where
  r_check: "ms_recv s f = RcCheck \<Longrightarrow>
    recv_step unpack f s (recv_at f (if sv_shutdown (ms_server s) then RcDone else RcRead) s)"
| r_error: "ms_recv s f = RcRead \<Longrightarrow>
    recv_step unpack f s (recv_at f (if sv_shutdown (ms_server s) then RcDone else RcCheck) s)"
| r_packet: "ms_recv s f = RcRead \<Longrightarrow> \<not> sv_closed (ms_server s) \<Longrightarrow>
    recv_step unpack f s (recv_at f (RcLoaded (sv_state (ms_server s)) data from) s)"
| r_handle: "ms_recv s f = RcLoaded state data from \<Longrightarrow> dispatch unpack state data (ms_server s) = (server, query) \<Longrightarrow>
    recv_step unpack f s (server_upd (\<lambda>_. server) (recv_at f
      (case query of None \<Rightarrow> RcCheck | Some msg \<Rightarrow> RcAnswer msg from (dm_question msg) [] []) s))"
| r_question: "ms_recv s f = RcAnswer msg from (q # qs) uni multi \<Longrightarrow>
    answer_question (sv_zone (ms_server s)) (snd from \<noteq> mdnsPort) (dm_answer msg) q (uni, multi) = (uni', multi') \<Longrightarrow>
    recv_step unpack f s (recv_at f (RcAnswer msg from qs uni' multi') s)"
| r_answer: "ms_recv s f = RcAnswer msg from [] uni multi \<Longrightarrow>
    recv_step unpack f s (send (answer_msgs msg from (uni, multi)) (recv_at f RcCheck s))"

text \<open>The process ends with \<open>log.Fatalf\<close> or when \<open>main\<close> returns.\<close>

inductive mdns_step :: "unpacker \<Rightarrow> set_question \<Rightarrow> mdns_config \<Rightarrow> mdns_state \<Rightarrow> mdns_state \<Rightarrow> bool" for unpack sq cfg where
  by_main: "main_step sq cfg s s' \<Longrightarrow> mdns_step unpack sq cfg s s'"
| by_watch: "ms_main s \<notin> {MFatal, MDone} \<Longrightarrow> watch_step cfg s s' \<Longrightarrow> mdns_step unpack sq cfg s s'"
| by_recv: "ms_main s \<notin> {MFatal, MDone} \<Longrightarrow> recv_step unpack f s s' \<Longrightarrow> mdns_step unpack sq cfg s s'"

definition mdns_reach :: "unpacker \<Rightarrow> set_question \<Rightarrow> mdns_config \<Rightarrow> mdns_state \<Rightarrow> bool" where
  "mdns_reach unpack sq cfg s \<longleftrightarrow> (mdns_step unpack sq cfg)\<^sup>*\<^sup>* (newMDNSServer cfg) s"

section \<open>A name is claimed only after probing\<close>

inductive_cases main_stepE: "main_step sq cfg s s'"
inductive_cases watch_stepE: "watch_step cfg s s'"
inductive_cases recv_stepE: "recv_step unpack f s s'"
inductive_cases mdns_stepE: "mdns_step unpack sq cfg s s'"

lemma conflict_ops [simp]:
  "sv_state (checkConflict msg s) = sv_state s" "sv_state (handleProbeTiebreak msg s) = sv_state s"
  "sv_probeName (checkConflict msg s) = sv_probeName s" "sv_probeName (handleProbeTiebreak msg s) = sv_probeName s"
  "sv_zone (checkConflict msg s) = sv_zone s" "sv_zone (handleProbeTiebreak msg s) = sv_zone s"
  "sv_conflict s \<Longrightarrow> sv_conflict (checkConflict msg s)" "sv_conflict s \<Longrightarrow> sv_conflict (handleProbeTiebreak msg s)"
  by (simp_all add: checkConflict_def handleProbeTiebreak_def Let_def)

lemma dispatch_frame:
  assumes "dispatch unpack state data s = (s', query)"
  shows "sv_state s' = sv_state s" "sv_probeName s' = sv_probeName s" "sv_zone s' = sv_zone s" "sv_conflict s \<Longrightarrow> sv_conflict s'"
    "query \<noteq> None \<Longrightarrow> state = StateRunning"
  using assms by (cases state; auto simp: dispatch_def split: option.splits if_splits)+

text \<open>Before the claim nothing runs that could send: the watcher is off and no receiver has seen the running state.\<close>

fun before_claim :: "recv_pc \<Rightarrow> bool" where
  "before_claim (RcLoaded state _ _) \<longleftrightarrow> state \<noteq> StateRunning"
| "before_claim (RcAnswer _ _ _ _ _) \<longleftrightarrow> False"
| "before_claim _ \<longleftrightarrow> True"

definition unclaimed :: "mdns_state \<Rightarrow> bool" where
  "unclaimed s \<longleftrightarrow> sv_state (ms_server s) \<noteq> StateRunning \<and> ms_watch s = WOff
     \<and> (\<forall>f. before_claim (ms_recv s f))"

definition probing_inv :: "set_question \<Rightarrow> mdns_config \<Rightarrow> mdns_state \<Rightarrow> bool" where
  "probing_inv sq cfg s \<longleftrightarrow> sv_probeName (ms_server s) = mc_fqdn cfg \<and>
    (let probe = SendMsg (probe_msg sq (mc_fqdn cfg) (mc_records cfg)) in
     case ms_main s of
       MStart \<Rightarrow> unclaimed s \<and> ms_sent s = []
     | MProbe k \<Rightarrow> unclaimed s \<and> k \<le> probeCount \<and> ms_sent s = replicate k probe
     | MFatal \<Rightarrow> unclaimed s \<and> ms_sent s = replicate probeCount probe
     | MClaim \<Rightarrow> unclaimed s \<and> ms_sent s = replicate probeCount probe
     | _ \<Rightarrow> sv_state (ms_server s) = StateRunning \<and> (\<exists>rest. ms_sent s = replicate probeCount probe @ rest))"

lemma recv_unclaimed:
  assumes "recv_step unpack f s s'" "unclaimed s"
  shows "unclaimed s' \<and> ms_sent s' = ms_sent s \<and> ms_main s' = ms_main s"
proof -
  have f: "before_claim (ms_recv s f)" using assms(2) by (simp add: unclaimed_def)
  from assms(1) show ?thesis
  proof cases
    case (r_handle state data sender server query)
    then have "query = None" using f dispatch_frame(5) [OF r_handle(3)] by (cases query) auto
    with r_handle assms(2) dispatch_frame(1) [OF r_handle(3)] show ?thesis by (auto simp: unclaimed_def)
  qed (use assms(2) f in \<open>auto simp: unclaimed_def\<close>)
qed

lemma recv_name: "recv_step unpack f s s' \<Longrightarrow> sv_probeName (ms_server s') = sv_probeName (ms_server s)
    \<and> sv_state (ms_server s') = sv_state (ms_server s) \<and> ms_main s' = ms_main s
    \<and> (\<exists>as. ms_sent s' = ms_sent s @ as) \<and> (sv_conflict (ms_server s) \<longrightarrow> sv_conflict (ms_server s'))"
  by (erule recv_stepE) (auto dest: dispatch_frame)

lemma watch_name: "watch_step cfg s s' \<Longrightarrow> sv_probeName (ms_server s') = sv_probeName (ms_server s)
    \<and> sv_state (ms_server s') = sv_state (ms_server s) \<and> ms_main s' = ms_main s
    \<and> (\<exists>as. ms_sent s' = ms_sent s @ as) \<and> sv_conflict (ms_server s') = sv_conflict (ms_server s) \<and> ms_watch s \<noteq> WOff"
  by (erule watch_stepE) auto

lemma probing_inv_main:
  assumes "main_step sq cfg s s'" "probing_inv sq cfg s" "\<not> mc_skipProbe cfg"
  shows "probing_inv sq cfg s'"
  using assms(1)
proof cases
  case (m_probe k)
  with assms(2) show ?thesis
    by (simp add: probing_inv_def unclaimed_def Let_def replicate_append_same flip: replicate_Suc)
qed (use assms(2,3) in \<open>auto simp: probing_inv_def unclaimed_def Let_def\<close>)

lemma probing_inv_step:
  assumes "mdns_step unpack sq cfg s s'" "probing_inv sq cfg s" "\<not> mc_skipProbe cfg"
  shows "probing_inv sq cfg s'"
  using assms(1)
proof cases
  case by_main
  then show ?thesis using assms(2,3) by (rule probing_inv_main)
next
  case by_watch
  from watch_name [OF this(2)] assms(2) show ?thesis
    by (auto simp: probing_inv_def unclaimed_def Let_def split: main_pc.splits)
next
  case (by_recv f)
  from recv_name [OF by_recv(2)] recv_unclaimed [OF by_recv(2)] assms(2) show ?thesis
    by (auto simp: probing_inv_def Let_def split: main_pc.splits)
qed

lemma probing_inv_reach:
  assumes "mdns_reach unpack sq cfg s" "\<not> mc_skipProbe cfg"
  shows "probing_inv sq cfg s"
  using assms(1) unfolding mdns_reach_def
proof (induction rule: rtranclp_induct)
  case base
  show ?case by (simp add: probing_inv_def newMDNSServer_def unclaimed_def)
next
  case (step s s')
  then show ?case using probing_inv_step assms(2) by blast
qed

text \<open>A conflict seen while probing is never forgotten.\<close>

lemma conflict_sticks:
  assumes "(mdns_step unpack sq cfg)\<^sup>*\<^sup>* s s'" "ms_main s = MProbe k" "sv_conflict (ms_server s)"
  shows "sv_conflict (ms_server s') \<and> (ms_main s' = MFatal \<or> (\<exists>k. ms_main s' = MProbe k))"
  using assms(1)
proof (induction rule: rtranclp_induct)
  case base
  show ?case using assms(2,3) by simp
next
  case (step s1 s2)
  from step.hyps(2) show ?case
  proof cases
    case by_main
    then show ?thesis using step.IH by cases auto
  next
    case by_watch
    from watch_name [OF this(2)] step.IH show ?thesis by auto
  next
    case (by_recv f)
    from recv_name [OF this(2)] step.IH show ?thesis by auto
  qed
qed

text \<open>
  C9. The responder claims its name only after probing for it. In every interleaving of its goroutines with any packets, as long as it
  is not in the running state it has sent nothing but at most three probes; once it is, its first three messages were the
  probes; and when a conflicting response or a lost tiebreak has been recorded before the end of the probe window, it never answers,
  announces or enters the running state.
\<close>

theorem probe_before_claim:
  assumes "mdns_reach unpack sq cfg s" "\<not> mc_skipProbe cfg"
  shows "let probe = SendMsg (probe_msg sq (mc_fqdn cfg) (mc_records cfg)) in
    (if sv_state (ms_server s) = StateRunning then take probeCount (ms_sent s) = replicate probeCount probe
     else \<exists>k \<le> probeCount. ms_sent s = replicate k probe)
    \<and> (\<forall>k s'. ms_main s = MProbe k \<and> sv_conflict (ms_server s) \<and> (mdns_step unpack sq cfg)\<^sup>*\<^sup>* s s' \<longrightarrow>
        sv_state (ms_server s') \<noteq> StateRunning \<and> set (ms_sent s') \<subseteq> {probe})"
proof -
  let ?probe = "SendMsg (probe_msg sq (mc_fqdn cfg) (mc_records cfg))"
  have now: "if sv_state (ms_server s) = StateRunning then take probeCount (ms_sent s) = replicate probeCount ?probe
     else \<exists>k \<le> probeCount. ms_sent s = replicate k ?probe"
    using probing_inv_reach [OF assms]
    by (auto simp: probing_inv_def unclaimed_def Let_def split: main_pc.splits intro: exI [of _ 0])
  have later: "sv_state (ms_server s') \<noteq> StateRunning \<and> set (ms_sent s') \<subseteq> {?probe}"
    if "ms_main s = MProbe k" "sv_conflict (ms_server s)" "(mdns_step unpack sq cfg)\<^sup>*\<^sup>* s s'" for k s'
  proof -
    have "mdns_reach unpack sq cfg s'" using assms(1) that(3) unfolding mdns_reach_def by (rule rtranclp_trans)
    then have "probing_inv sq cfg s'" using assms(2) by (rule probing_inv_reach)
    with conflict_sticks [OF that(3,1,2)] show ?thesis by (auto simp: probing_inv_def unclaimed_def Let_def)
  qed
  show ?thesis unfolding Let_def using now later by blast
qed

text \<open>A concrete responder: one address, one socket, and the question of \<open>SetQuestion\<close> as its documentation describes it.\<close>

definition demo_set_question :: set_question where
  "demo_set_question name qtype = new_msg\<lparr>dm_question := [\<lparr>dq_name = name, dq_qtype = qtype, dq_qclass = ClassINET\<rparr>]\<rparr>"

definition demo_mdns :: "bytes \<Rightarrow> mdns_config" where
  "demo_mdns ip = \<lparr>mc_fqdn = as_bytes ''host.local.'', mc_ttl = 120, mc_records = recordsForIPs (as_bytes ''host.local.'') [ip] 120,
     mc_v4 = True, mc_v6 = False, mc_skipProbe = False, mc_skipAnnounce = False, mc_skipGoodbye = False\<rparr>"

theorem probe_before_claim_witness:
  "\<exists>s. mdns_reach (\<lambda>_. None) demo_set_question (demo_mdns [192, 0, 2, 1]) s \<and> sv_state (ms_server s) = StateRunning
     \<and> length (ms_sent s) = 3 \<and> (\<forall>a \<in> set (ms_sent s). \<exists>m. a = SendMsg m \<and> \<not> dm_response m)"
proof -
  let ?cfg = "demo_mdns [192, 0, 2, 1]"
  let ?M = "main_step demo_set_question ?cfg"
  let ?W = "mdns_step (\<lambda>_. None) demo_set_question ?cfg"
  let ?probe = "SendMsg (probe_msg demo_set_question (mc_fqdn ?cfg) (mc_records ?cfg))"
  define s0 where "s0 = newMDNSServer ?cfg"
  define s1 where "s1 = server_upd (sv_state_update (\<lambda>_. StateProbing)) (s0\<lparr>ms_main := MProbe 0\<rparr>)"
  define s2 where "s2 = send [?probe, ?probe, ?probe] (s1\<lparr>ms_main := MProbe 3\<rparr>)"
  define s3 where "s3 = server_upd (sv_state_update (\<lambda>_. StateRunning)) (s2\<lparr>ms_main := MAnnounce 0\<rparr>)"
  have probe: "?W (s1\<lparr>ms_main := MProbe k, ms_sent := sent\<rparr>) (s1\<lparr>ms_main := MProbe (k + 1), ms_sent := sent @ [?probe]\<rparr>)"
    if "k < 3" for k sent
    using m_probe [of "s1\<lparr>ms_main := MProbe k, ms_sent := sent\<rparr>" k demo_set_question ?cfg] that
    by (intro by_main) (simp add: probeCount_def s1_def s0_def newMDNSServer_def)
  have "?W s0 s1" unfolding s1_def by (intro by_main m_begin) (simp_all add: s0_def newMDNSServer_def demo_mdns_def)
  moreover have "s1 = s1\<lparr>ms_main := MProbe 0, ms_sent := []\<rparr>" by (simp add: s1_def s0_def newMDNSServer_def)
  moreover have "?W\<^sup>*\<^sup>* (s1\<lparr>ms_main := MProbe 0, ms_sent := []\<rparr>) (s1\<lparr>ms_main := MProbe 3, ms_sent := [?probe, ?probe, ?probe]\<rparr>)"
    using probe [of 0 "[]"] probe [of 1 "[?probe]"] probe [of 2 "[?probe, ?probe]"]
    by (simp add: numeral_2_eq_2 numeral_3_eq_3)
  moreover have "s2 = s1\<lparr>ms_main := MProbe 3, ms_sent := [?probe, ?probe, ?probe]\<rparr>" by (simp add: s2_def s1_def s0_def newMDNSServer_def)
  ultimately have r2: "?W\<^sup>*\<^sup>* s0 s2" by (metis converse_rtranclp_into_rtranclp)
  have "?W s2 (s2\<lparr>ms_main := MClaim\<rparr>)"
    by (intro by_main m_won) (simp_all add: s2_def s1_def s0_def newMDNSServer_def probeCount_def)
  moreover have "?W (s2\<lparr>ms_main := MClaim\<rparr>) s3"
    using m_claim [of "s2\<lparr>ms_main := MClaim\<rparr>" demo_set_question ?cfg] by (intro by_main) (simp add: s3_def demo_mdns_def)
  ultimately have r: "mdns_reach (\<lambda>_. None) demo_set_question ?cfg s3"
    using r2 unfolding mdns_reach_def s0_def by (meson rtranclp.rtrancl_into_rtrancl)
  have run: "sv_state (ms_server s3) = StateRunning" by (simp add: s3_def)
  have len: "length (ms_sent s3) = 3" by (simp add: s3_def s2_def s1_def s0_def newMDNSServer_def)
  have "take probeCount (ms_sent s3) = replicate probeCount ?probe"
    using probe_before_claim [OF r] run by (simp add: demo_mdns_def Let_def)
  then have "set (ms_sent s3) \<subseteq> {?probe}" using len by (simp add: probeCount_def)
  moreover have "\<not> dm_response (probe_msg demo_set_question (mc_fqdn ?cfg) (mc_records ?cfg))"
    by (simp add: probe_msg_def demo_set_question_def new_msg_def Let_def)
  ultimately show ?thesis using r run len by blast
qed

section \<open>Simultaneous probes\<close>

lemma rr_key_with_ttl [simp]: "rr_key (with_ttl t r) = rr_key r"
  by (simp add: rr_key_def with_ttl_def rrdataBytes_def)

lemma theyWin_with_ttl: "theyWinTiebreak z (map (with_ttl t) rs) \<longleftrightarrow> theyWinTiebreak z rs"
  by (simp add: theyWin_beats sorted_keys_def comp_def)

text \<open>The documented result of \<open>SetQuestion\<close>: a query with one question of class IN.\<close>

definition sets_question :: "set_question \<Rightarrow> bool" where
  "sets_question sq \<longleftrightarrow> (\<forall>name qtype. dm_question (sq name qtype) = [\<lparr>dq_name = name, dq_qtype = qtype, dq_qclass = ClassINET\<rparr>]
     \<and> \<not> dm_response (sq name qtype) \<and> dm_opcode (sq name qtype) = 0 \<and> dm_rcode (sq name qtype) = 0
     \<and> \<not> dm_truncated (sq name qtype) \<and> dm_ns (sq name qtype) = [])"

definition probing :: "mdnsServer \<Rightarrow> bool" where
  "probing s \<longleftrightarrow> sv_state s = StateProbing \<and> \<not> sv_conflict s
     \<and> (\<forall>r \<in> set (hz_records (sv_zone s)). rh_name (rr_hdr r) = sv_probeName s)"

lemma handle_probe:
  assumes "sets_question sq" "probing a" "probing b" "EqualFold (sv_probeName b) (sv_probeName a)"
    and "unpack data = Some (probe_msg sq (sv_probeName b) (hz_records (sv_zone b)))"
  shows "handlePacket unpack data from a
    = (a\<lparr>sv_conflict := hz_records (sv_zone b) \<noteq> [] \<and> theyWinTiebreak (sv_zone a) (hz_records (sv_zone b))\<rparr>, [])"
proof -
  let ?m = "probe_msg sq (sv_probeName b) (hz_records (sv_zone b))"
  have m: "dm_question ?m = [\<lparr>dq_name = sv_probeName b, dq_qtype = TypeANY, dq_qclass = ClassINET OR quBit\<rparr>]" "\<not> dm_response ?m"
      "dm_opcode ?m = 0" "dm_rcode ?m = 0" "\<not> dm_truncated ?m" "dm_ns ?m = map (with_ttl probeTiebreakTTL) (hz_records (sv_zone b))"
    using assms(1) by (simp_all add: sets_question_def probe_msg_def Let_def)
  have "filter (\<lambda>rr. EqualFold (rh_name (rr_hdr rr)) (sv_probeName a)) (dm_ns ?m) = dm_ns ?m"
    using assms(3,4) by (auto simp: m(6) probing_def with_ttl_def intro!: filter_True)
  then have "handleProbeTiebreak ?m a
      = a\<lparr>sv_conflict := hz_records (sv_zone b) \<noteq> [] \<and> theyWinTiebreak (sv_zone a) (hz_records (sv_zone b))\<rparr>"
    using assms(2,4) by (simp add: handleProbeTiebreak_def Let_def m(1,6) theyWin_with_ttl probing_def)
  then show ?thesis using assms(2,5) m by (simp add: handlePacket_def dispatch_def probing_def)
qed

text \<open>
  C19. Two responders of this program that probe for the same name at the same time settle it: when each handles the probe of the
  other, not both give up, and both carry on only when their records are the same. A responder is not disturbed by its own
  probe coming back from the multicast group. \<open>SetQuestion\<close> builds what its documentation says, and both have records.
\<close>

theorem simultaneous_probes:
  assumes "sets_question sq" "probing a" "probing b" "EqualFold (sv_probeName b) (sv_probeName a)"
    and "hz_records (sv_zone a) \<noteq> []" "hz_records (sv_zone b) \<noteq> []"
    and "unpack data_a = Some (probe_msg sq (sv_probeName a) (hz_records (sv_zone a)))"
    and "unpack data_b = Some (probe_msg sq (sv_probeName b) (hz_records (sv_zone b)))"
  shows "let a' = fst (handlePacket unpack data_b from_b a); b' = fst (handlePacket unpack data_a from_a b) in
    \<not> (sv_conflict a' \<and> sv_conflict b')
    \<and> (\<not> sv_conflict a' \<and> \<not> sv_conflict b'
       \<longleftrightarrow> mset (map rr_key (hz_records (sv_zone a))) = mset (map rr_key (hz_records (sv_zone b))))
    \<and> handlePacket unpack data_a from_a a = (a, [])"
proof -
  have ab: "EqualFold (sv_probeName a) (sv_probeName b)" "EqualFold (sv_probeName a) (sv_probeName a)"
    using assms(4) by (simp_all add: EqualFold_def)
  have "\<not> theyWinTiebreak (sv_zone a) (hz_records (sv_zone a))" using tiebreak_one_winner(1) by blast
  moreover have "a\<lparr>sv_conflict := False\<rparr> = a" using assms(2) by (simp add: probing_def)
  ultimately show ?thesis
    using tiebreak_one_winner [of "sv_zone a" "sv_zone b"] assms(5,6)
    by (simp add: handle_probe [where unpack = unpack and data = data_b, OF assms(1-4,8)]
        handle_probe [where unpack = unpack and data = data_a, OF assms(1,3,2) ab(1) assms(7)]
        handle_probe [where unpack = unpack and data = data_a, OF assms(1,2,2) ab(2) assms(7)])
qed

definition demo_server :: "bytes \<Rightarrow> mdnsServer" where
  "demo_server ip = (ms_server (newMDNSServer (demo_mdns ip)))\<lparr>sv_state := StateProbing\<rparr>"

definition demo_unpack :: unpacker where
  "demo_unpack data = (let s = demo_server [192, 0, 2, hd data] in
     Some (probe_msg demo_set_question (sv_probeName s) (hz_records (sv_zone s))))"

theorem simultaneous_probes_witness:
  "let a' = fst (handlePacket demo_unpack [2] ([], 5353) (demo_server [192, 0, 2, 1]));
       b' = fst (handlePacket demo_unpack [1] ([], 5353) (demo_server [192, 0, 2, 2]))
   in \<not> sv_conflict a' \<and> sv_conflict b'"
proof -
  let ?a = "demo_server [192, 0, 2, 1]" and ?b = "demo_server [192, 0, 2, 2]"
  have rec: "hz_records (sv_zone (demo_server [192, 0, 2, x])) = [address_record (as_bytes ''host.local.'') 120 [192, 0, 2, x]]" for x
    by (simp add: demo_server_def newMDNSServer_def demo_mdns_def recordsForIPs_def IsLinkLocalUnicast_def IsLoopback_def To4_def)
  have name: "sv_probeName (demo_server ip) = as_bytes ''host.local.''" for ip
    by (simp add: demo_server_def newMDNSServer_def demo_mdns_def)
  have pr: "probing (demo_server [192, 0, 2, x])" for x
    by (simp add: probing_def rec name address_record_def To4_def) (simp add: demo_server_def newMDNSServer_def)
  have sq: "sets_question demo_set_question" by (simp add: sets_question_def demo_set_question_def new_msg_def)
  have key: "rr_key (address_record n 120 [192, 0, 2, x]) = [1, 1, 192, 0, 2, unat x]" for n x
    by (simp add: rr_key_def address_record_def To4_def rrdataBytes_def or_nil_def and_not_def dns_consts)
  have "\<not> theyWinTiebreak (sv_zone ?a) (hz_records (sv_zone ?b))"
    by (simp add: theyWin_beats sorted_keys_def rec key)
  then have a: "\<not> sv_conflict (fst (handlePacket demo_unpack [2] ([], 5353) ?a))"
    using handle_probe [where unpack = demo_unpack and data = "[2]", OF sq pr [of 1] pr [of 2]]
    by (simp add: name EqualFold_def demo_unpack_def Let_def)
  from simultaneous_probes [where unpack = demo_unpack and data_a = "[1]" and data_b = "[2]", OF sq pr [of 1] pr [of 2], of "([], 5353)" "([], 5353)"]
  have "\<not> sv_conflict (fst (handlePacket demo_unpack [2] ([], 5353) ?a)) \<and> \<not> sv_conflict (fst (handlePacket demo_unpack [1] ([], 5353) ?b))
      \<longleftrightarrow> mset (map rr_key (hz_records (sv_zone ?a))) = mset (map rr_key (hz_records (sv_zone ?b)))"
    by (simp add: name EqualFold_def demo_unpack_def Let_def rec)
  with a show ?thesis by (simp add: rec key Let_def)
qed

text \<open>
  C20. Against a host that follows RFC 6762, section 8.2, the tiebreak has the wrong outcome: whenever the sorted records differ before either
  list ends, the responder gives up exactly when the other host gives up too, and carries on exactly when the other one
  does.
\<close>

theorem tiebreak_against_rfc:
  assumes "\<not> prefix (sorted_keys (hz_records z)) (sorted_keys their)" "\<not> prefix (sorted_keys their) (sorted_keys (hz_records z))"
  shows "theyWinTiebreak z their \<longleftrightarrow> rfc_they_win their (hz_records z)"
proof -
  have "sorted_keys their \<noteq> sorted_keys (hz_records z)" using assms by auto
  then show ?thesis unfolding tiebreak_inverted [OF assms] by (auto simp: rfc_they_win_def)
qed

text \<open>Both hosts carry on: our address is the smaller one, and by RFC 6762 the other host has won.\<close>

theorem tiebreak_against_rfc_witness:
  "let r = (\<lambda>x. address_record (as_bytes ''host.local.'') 120 [192, 0, 2, x]); z = \<lparr>hz_records = [r 1], hz_nsec = None\<rparr>
   in \<not> theyWinTiebreak z [r 2] \<and> \<not> rfc_they_win [r 2] (hz_records z) \<and> rfc_they_win (hz_records z) [r 2]"
proof -
  let ?r = "\<lambda>x. address_record (as_bytes ''host.local.'') 120 [192, 0, 2, x]"
  let ?z = "\<lparr>hz_records = [?r 1], hz_nsec = None\<rparr>"
  have key: "rr_key (?r x) = [1, 1, 192, 0, 2, unat x]" for x
    by (simp add: rr_key_def address_record_def To4_def rrdataBytes_def or_nil_def and_not_def dns_consts)
  have keys: "sorted_keys [?r x] = [[1, 1, 192, 0, 2, unat x]]" for x by (simp add: sorted_keys_def key)
  have "theyWinTiebreak ?z [?r 2] \<longleftrightarrow> rfc_they_win [?r 2] (hz_records ?z)"
    by (rule tiebreak_against_rfc) (simp_all add: keys)
  then show ?thesis by (simp add: rfc_they_win_def keys Let_def)
qed

section \<open>Answers\<close>

text \<open>The records due for a question.\<close>

definition answers_due :: "hostnameZone \<Rightarrow> bool \<Rightarrow> dns_rr list \<Rightarrow> dns_question \<Rightarrow> dns_rr list" where
  "answers_due z legacy known q = map (cap_ttl legacy) (filterKnownAnswers (Records z q legacy) known)"

definition by_unicast :: "bool \<Rightarrow> dns_question \<Rightarrow> bool" where
  "by_unicast legacy q \<longleftrightarrow> legacy \<or> dq_qclass q AND quBit \<noteq> 0"

lemma answer_question_answers: "answer_question z legacy known q (u, m) =
    (if by_unicast legacy q then (u @ answers_due z legacy known q, m) else (u, m @ answers_due z legacy known q))"
  by (auto simp: answer_question_def answers_due_def by_unicast_def Let_def filterKnownAnswers_def)

lemma answer_questions: "fold (answer_question z legacy known) qs (u, m) =
    (u @ concat (map (answers_due z legacy known) (filter (by_unicast legacy) qs)),
     m @ concat (map (answers_due z legacy known) (filter (\<lambda>q. \<not> by_unicast legacy q) qs)))"
  by (induction qs arbitrary: u m) (simp_all add: answer_question_answers)

lemma answers_due_legacy: "r \<in> set (answers_due z True known q) \<Longrightarrow> rh_class (rr_hdr r) = ClassINET \<and> rh_ttl (rr_hdr r) \<le> legacyUnicastMaxTTL"
  by (auto simp: answers_due_def cap_ttl_def with_ttl_def filterKnown_iff Records_def answer_copy_def Let_def not_less
      split: if_splits option.splits)

text \<open>Which records are due, without the loops.\<close>

definition matches :: "dns_question \<Rightarrow> dns_rr \<Rightarrow> bool" where
  "matches q r \<longleftrightarrow> and_not (dq_qclass q) quBit \<in> {ClassINET, ClassANY} \<and> EqualFold (rh_name (rr_hdr r)) (dq_name q)
     \<and> (dq_qtype q = TypeANY \<or> rh_rrtype (rr_hdr r) = dq_qtype q)"

lemma answers_due_iff: "r \<in> set (answers_due z legacy known q) \<longleftrightarrow> (\<exists>r0. r = cap_ttl legacy (answer_copy legacy r0)
    \<and> \<not> isKnownAnswer (answer_copy legacy r0) known
    \<and> (r0 \<in> set (hz_records z) \<and> matches q r0
       \<or> hz_nsec z = Some r0 \<and> (\<forall>r1 \<in> set (hz_records z). \<not> matches q r1) \<and> dq_qtype q \<noteq> TypeANY
         \<and> and_not (dq_qclass q) quBit = ClassINET \<and> EqualFold (rh_name (rr_hdr r0)) (dq_name q)))"
proof -
  have recs: "r1 \<in> set (Records z q legacy) \<longleftrightarrow> (\<exists>r0. r1 = answer_copy legacy r0
    \<and> (r0 \<in> set (hz_records z) \<and> matches q r0
       \<or> hz_nsec z = Some r0 \<and> (\<forall>r1 \<in> set (hz_records z). \<not> matches q r1) \<and> dq_qtype q \<noteq> TypeANY
         \<and> and_not (dq_qclass q) quBit = ClassINET \<and> EqualFold (rh_name (rr_hdr r0)) (dq_name q)))" for r1
    by (cases "hz_nsec z") (auto simp: Records_def matches_def Let_def filter_empty_conv)
  have "r \<in> set (answers_due z legacy known q) \<longleftrightarrow>
      (\<exists>r1. r = cap_ttl legacy r1 \<and> r1 \<in> set (Records z q legacy) \<and> \<not> isKnownAnswer r1 known)"
    by (auto simp: answers_due_def image_iff filterKnown_iff)
  then show ?thesis unfolding recs by blast
qed



section \<open>The zone follows the interface\<close>

definition zone_inv :: "mdns_config \<Rightarrow> hostnameZone \<Rightarrow> bool" where
  "zone_inv cfg z \<longleftrightarrow> hz_nsec z = buildNSEC (mc_fqdn cfg) (hz_records z) (mc_ttl cfg)
     \<and> (\<exists>ips. hz_records z = recordsForIPs (mc_fqdn cfg) ips (mc_ttl cfg))"

lemma zone_inv_step:
  assumes "mdns_step unpack sq cfg s s'" "zone_inv cfg (sv_zone (ms_server s))"
  shows "zone_inv cfg (sv_zone (ms_server s'))"
  using assms(1)
proof cases
  case by_main
  then show ?thesis using assms(2) by cases auto
next
  case by_watch
  from this(2) show ?thesis using assms(2) by cases (auto simp: replaceRecords_def zone_inv_def split: if_splits)
next
  case (by_recv f)
  from this(2) show ?thesis using assms(2) by cases (auto dest: dispatch_frame)
qed

lemma zone_inv_reach:
  assumes "mdns_reach unpack sq cfg s" "mc_records cfg = recordsForIPs (mc_fqdn cfg) ips (mc_ttl cfg)"
  shows "zone_inv cfg (sv_zone (ms_server s))"
  using assms(1) unfolding mdns_reach_def
proof (induction rule: rtranclp_induct)
  case base
  show ?case using assms(2) by (auto simp: zone_inv_def newMDNSServer_def)
next
  case (step s s')
  then show ?case using zone_inv_step by blast
qed

lemma configured_zone: "configure fl h l addrs fqdn socks = Inr cfg \<Longrightarrow>
    \<exists>ips. mc_records cfg = recordsForIPs (mc_fqdn cfg) ips (mc_ttl cfg) \<and> mc_records cfg \<noteq> [] \<and> (mc_v4 cfg \<or> mc_v6 cfg \<or> socks = Some (False, False))"
  by (auto simp: configure_def bindE_eq_Inr Let_def split: if_splits)

text \<open>On a regular end every record that is still advertised has been withdrawn.\<close>

definition goodbye_inv :: "mdns_config \<Rightarrow> mdns_state \<Rightarrow> bool" where
  "goodbye_inv cfg s \<longleftrightarrow>
    (case ms_main s of
       MGoodbye rs k \<Rightarrow> ms_watch s = WDone \<and> rs = hz_records (sv_zone (ms_server s))
         \<and> (0 < k \<longrightarrow> SendMsg (goodbye_msg rs) \<in> set (ms_sent s))
     | pc \<Rightarrow> pc \<in> {MShutdown, MClose, MJoin, MDone} \<longrightarrow> ms_watch s = WDone
         \<and> SendMsg (goodbye_msg (hz_records (sv_zone (ms_server s)))) \<in> set (ms_sent s))"

lemma goodbye_inv_step:
  assumes "mdns_step unpack sq cfg s s'" "goodbye_inv cfg s" "\<not> mc_skipGoodbye cfg"
  shows "goodbye_inv cfg s'"
  using assms(1)
proof cases
  case by_main
  then show ?thesis using assms(2,3) by cases (auto simp: goodbye_inv_def goodbyeCount_def)
next
  case by_watch
  from this(2) show ?thesis using assms(2) by cases (auto simp: goodbye_inv_def split: main_pc.splits)
next
  case (by_recv f)
  from this(2) show ?thesis using assms(2) by cases (auto simp: goodbye_inv_def split: main_pc.splits dest: dispatch_frame)
qed

lemma records_withdrawn:
  assumes "mdns_reach unpack sq cfg s" "\<not> mc_skipGoodbye cfg" "ms_main s = MDone"
  shows "SendMsg (goodbye_msg (hz_records (sv_zone (ms_server s)))) \<in> set (ms_sent s)"
proof -
  have "goodbye_inv cfg s"
    using assms(1) unfolding mdns_reach_def
  proof (induction rule: rtranclp_induct)
    case base
    show ?case by (simp add: goodbye_inv_def newMDNSServer_def)
  next
    case (step s s')
    then show ?case using goodbye_inv_step assms(2) by blast
  qed
  with assms(3) show ?thesis by (simp add: goodbye_inv_def)
qed

text \<open>
  The goodbye is not the last word: the receivers go on answering until the sockets are closed, so a query that arrives between
  the goodbyes makes the peers store the records again, with their full lifetime, when the process is gone.
\<close>

definition late_query :: dns_msg where
  "late_query = new_msg\<lparr>dm_question := [\<lparr>dq_name = as_bytes ''host.local.'', dq_qtype = TypeA, dq_qclass = ClassINET\<rparr>]\<rparr>"

definition late_cfg :: mdns_config where
  "late_cfg = (demo_mdns [192, 0, 2, 1])\<lparr>mc_skipProbe := True, mc_skipAnnounce := True\<rparr>"

definition late_server :: mdnsServer where
  "late_server = (ms_server (newMDNSServer late_cfg))\<lparr>sv_state := StateRunning\<rparr>"

definition late_state :: "mdnsServer \<Rightarrow> main_pc \<Rightarrow> watch_pc \<Rightarrow> recv_pc \<Rightarrow> action list \<Rightarrow> mdns_state" where
  "late_state server main watch recv sent = \<lparr>ms_server = server, ms_main = main, ms_watch = watch,
    ms_recv = (\<lambda>f. RcDone)(Sock4 := recv), ms_sent = sent\<rparr>"

lemma late_records:
  "mc_records late_cfg = [address_record (as_bytes ''host.local.'') 120 [192, 0, 2, 1]]"
  "hz_records (sv_zone late_server) = mc_records late_cfg"
  by (simp_all add: late_cfg_def demo_mdns_def recordsForIPs_def IsLinkLocalUnicast_def IsLoopback_def To4_def
      late_server_def newMDNSServer_def)

lemma late_goodbyes:
  "(mdns_step (\<lambda>_. Some late_query) demo_set_question late_cfg)\<^sup>*\<^sup>* (newMDNSServer late_cfg)
    (late_state late_server (MGoodbye (mc_records late_cfg) 2) WDone (RcLoaded StateRunning [] ([], 5353))
      [SendMsg (goodbye_msg (mc_records late_cfg)), SendMsg (goodbye_msg (mc_records late_cfg))])"
proof -
  let ?W = "mdns_step (\<lambda>_. Some late_query) demo_set_question late_cfg"
  let ?gb = "SendMsg (goodbye_msg (mc_records late_cfg))"
  have "newMDNSServer late_cfg = late_state (ms_server (newMDNSServer late_cfg)) MStart WOff RcCheck []"
    by (auto simp: late_state_def newMDNSServer_def late_cfg_def demo_mdns_def fun_eq_iff split: sock_family.splits)
  then have "?W\<^sup>*\<^sup>* (newMDNSServer late_cfg) (late_state (ms_server (newMDNSServer late_cfg)) MStart WOff RcCheck [])" by simp
  also have "?W \<dots> (late_state (ms_server (newMDNSServer late_cfg)) MClaim WOff RcCheck [])"
    using m_skip [of "late_state (ms_server (newMDNSServer late_cfg)) MStart WOff RcCheck []" late_cfg] by (intro by_main) (simp add: late_state_def late_cfg_def)
  also (rtranclp.rtrancl_into_rtrancl) have "?W \<dots> (late_state late_server MSpawn WOff RcCheck [])"
    using m_claim [of "late_state (ms_server (newMDNSServer late_cfg)) MClaim WOff RcCheck []" demo_set_question late_cfg] by (intro by_main) (simp add: late_state_def late_server_def late_cfg_def)
  also (rtranclp.rtrancl_into_rtrancl) have "?W \<dots> (late_state late_server MServe WSubscribe RcCheck [])"
    using m_spawn [of "late_state late_server MSpawn WOff RcCheck []"] by (intro by_main) (simp add: late_state_def)
  also (rtranclp.rtrancl_into_rtrancl) have "?W \<dots> (late_state late_server MServe WDone RcCheck [])"
    using w_subscribe [of "late_state late_server MServe WSubscribe RcCheck []" late_cfg False] by (intro by_watch) (simp_all add: late_state_def)
  also (rtranclp.rtrancl_into_rtrancl) have "?W \<dots> (late_state late_server MStopWatch WDone RcCheck [])"
    using m_signal [of "late_state late_server MServe WDone RcCheck []"] by (intro by_main) (simp add: late_state_def)
  also (rtranclp.rtrancl_into_rtrancl) have "?W \<dots> (late_state late_server (MGoodbye (mc_records late_cfg) 0) WDone RcCheck [])"
    using m_stopped [of "late_state late_server MStopWatch WDone RcCheck []" demo_set_question late_cfg] late_records(2)
    by (intro by_main) (simp add: late_state_def late_cfg_def demo_mdns_def)
  also (rtranclp.rtrancl_into_rtrancl) have "?W \<dots> (late_state late_server (MGoodbye (mc_records late_cfg) 0) WDone RcRead [])"
    using r_check [of "late_state late_server (MGoodbye (mc_records late_cfg) 0) WDone RcCheck []" Sock4]
    by (intro by_recv [of _ _ Sock4]) (simp_all add: late_state_def late_server_def newMDNSServer_def)
  also (rtranclp.rtrancl_into_rtrancl) have "?W \<dots> (late_state late_server (MGoodbye (mc_records late_cfg) 0) WDone (RcLoaded StateRunning [] ([], 5353)) [])"
    using r_packet [of "late_state late_server (MGoodbye (mc_records late_cfg) 0) WDone RcRead []" Sock4 _ "[]" "([], 5353)"]
    by (intro by_recv [of _ _ Sock4]) (simp_all add: late_state_def late_server_def newMDNSServer_def)
  also (rtranclp.rtrancl_into_rtrancl) have "?W \<dots> (late_state late_server (MGoodbye (mc_records late_cfg) 1) WDone (RcLoaded StateRunning [] ([], 5353)) [?gb])"
    using m_goodbye [of "late_state late_server (MGoodbye (mc_records late_cfg) 0) WDone (RcLoaded StateRunning [] ([], 5353)) []"]
    by (intro by_main) (simp add: late_state_def goodbyeCount_def)
  also (rtranclp.rtrancl_into_rtrancl) have "?W \<dots> (late_state late_server (MGoodbye (mc_records late_cfg) 2) WDone (RcLoaded StateRunning [] ([], 5353)) [?gb, ?gb])"
    using m_goodbye [of "late_state late_server (MGoodbye (mc_records late_cfg) 1) WDone (RcLoaded StateRunning [] ([], 5353)) [?gb]"]
    by (intro by_main) (simp add: late_state_def goodbyeCount_def numeral_2_eq_2)
  finally (rtranclp.rtrancl_into_rtrancl) show ?thesis .
qed

lemma answer_after_goodbye:
  "\<exists>s. mdns_reach (\<lambda>_. Some late_query) demo_set_question late_cfg s \<and> ms_main s = MDone
    \<and> ms_sent s = [SendMsg (goodbye_msg (mc_records late_cfg)), SendMsg (goodbye_msg (mc_records late_cfg)),
        SendMsg (announce_msg (mc_records late_cfg))]"
proof -
  let ?W = "mdns_step (\<lambda>_. Some late_query) demo_set_question late_cfg"
  let ?gb = "SendMsg (goodbye_msg (mc_records late_cfg))"
  let ?q = "\<lparr>dq_name = as_bytes ''host.local.'', dq_qtype = TypeA, dq_qclass = ClassINET\<rparr>"
  let ?ann = "SendMsg (announce_msg (mc_records late_cfg))"
  have "answers_due (sv_zone late_server) False [] ?q = mc_records late_cfg"
    by (cases "hz_nsec (sv_zone late_server)")
      (simp_all add: answers_due_def filterKnownAnswers_def cap_ttl_def [abs_def] Records_def late_records address_record_def To4_def
        answer_copy_def EqualFold_def and_not_def dns_consts Let_def)
  then have aq: "answer_question (sv_zone late_server) False [] ?q ([], []) = ([], mc_records late_cfg)"
    by (simp add: answer_question_answers by_unicast_def dns_consts)
  have disp: "dispatch (\<lambda>_. Some late_query) StateRunning [] late_server = (late_server, Some late_query)"
    by (simp add: dispatch_def late_query_def new_msg_def)
  have "?W\<^sup>*\<^sup>* (newMDNSServer late_cfg) (late_state late_server (MGoodbye (mc_records late_cfg) 2) WDone (RcLoaded StateRunning [] ([], 5353)) [?gb, ?gb])"
    by (rule late_goodbyes)
  also have "?W \<dots> (late_state late_server MShutdown WDone (RcLoaded StateRunning [] ([], 5353)) [?gb, ?gb])"
    using m_goodbyes [of "late_state late_server (MGoodbye (mc_records late_cfg) 2) WDone (RcLoaded StateRunning [] ([], 5353)) [?gb, ?gb]" "mc_records late_cfg"]
    by (intro by_main) (simp add: late_state_def goodbyeCount_def)
  also (rtranclp.rtrancl_into_rtrancl) have "?W \<dots> (late_state late_server MShutdown WDone (RcAnswer late_query ([], 5353) [?q] [] []) [?gb, ?gb])"
    using r_handle [of "late_state late_server MShutdown WDone (RcLoaded StateRunning [] ([], 5353)) [?gb, ?gb]" Sock4 _ _ _ "\<lambda>_. Some late_query"] disp
    by (intro by_recv [of _ _ Sock4]) (simp_all add: late_state_def late_query_def)
  also (rtranclp.rtrancl_into_rtrancl) have "?W \<dots> (late_state late_server MShutdown WDone (RcAnswer late_query ([], 5353) [] [] (mc_records late_cfg)) [?gb, ?gb])"
    using r_question [of "late_state late_server MShutdown WDone (RcAnswer late_query ([], 5353) [?q] [] []) [?gb, ?gb]" Sock4] aq
    by (intro by_recv [of _ _ Sock4]) (simp_all add: late_state_def late_query_def new_msg_def mdnsPort_def)
  also (rtranclp.rtrancl_into_rtrancl) have "?W \<dots> (late_state late_server MShutdown WDone RcCheck [?gb, ?gb, ?ann])"
    using r_answer [of "late_state late_server MShutdown WDone (RcAnswer late_query ([], 5353) [] [] (mc_records late_cfg)) [?gb, ?gb]" Sock4]
    by (intro by_recv [of _ _ Sock4]) (simp_all add: late_state_def answer_msgs_def late_records(1) announce_msg_def)
  also (rtranclp.rtrancl_into_rtrancl) have "?W \<dots> (late_state (late_server\<lparr>sv_shutdown := True\<rparr>) MClose WDone RcCheck [?gb, ?gb, ?ann])"
    using m_shutdown [of "late_state late_server MShutdown WDone RcCheck [?gb, ?gb, ?ann]"] by (intro by_main) (simp add: late_state_def)
  also (rtranclp.rtrancl_into_rtrancl) have "?W \<dots> (late_state (late_server\<lparr>sv_shutdown := True, sv_closed := True\<rparr>) MJoin WDone RcCheck [?gb, ?gb, ?ann])"
    using m_close [of "late_state (late_server\<lparr>sv_shutdown := True\<rparr>) MClose WDone RcCheck [?gb, ?gb, ?ann]"] by (intro by_main) (simp add: late_state_def)
  also (rtranclp.rtrancl_into_rtrancl) have "?W \<dots> (late_state (late_server\<lparr>sv_shutdown := True, sv_closed := True\<rparr>) MJoin WDone RcDone [?gb, ?gb, ?ann])"
    using r_check [of "late_state (late_server\<lparr>sv_shutdown := True, sv_closed := True\<rparr>) MJoin WDone RcCheck [?gb, ?gb, ?ann]" Sock4]
    by (intro by_recv [of _ _ Sock4]) (simp_all add: late_state_def)
  also (rtranclp.rtrancl_into_rtrancl) have "?W \<dots> (late_state (late_server\<lparr>sv_shutdown := True, sv_closed := True\<rparr>) MDone WDone RcDone [?gb, ?gb, ?ann])"
    using m_join [of "late_state (late_server\<lparr>sv_shutdown := True, sv_closed := True\<rparr>) MJoin WDone RcDone [?gb, ?gb, ?ann]"] by (intro by_main) (simp add: late_state_def)
  finally (rtranclp.rtrancl_into_rtrancl) show ?thesis unfolding mdns_reach_def by (intro exI conjI) (assumption, simp_all add: late_state_def)
qed

end
